(* ===== verification/Prelude.thy ===== *)
theory Prelude
  imports Main "HOL-Library.Word" "HOL-Library.Multiset"
begin

text \<open>
  What every component of the development shares.

  The Go values the sources compute with: \<open>goint\<close> is Go's \<open>int\<close>/\<open>int64\<close> on a
  64-bit platform as a \<open>64 word\<close> (used where the code does bit operations or lets a
  counter run past its range), \<open>wrap64\<close> is the same type on \<open>int\<close> with the
  wrap-around written out (used for durations and attempt counters, where the code does
  arithmetic and signed comparisons); \<open>'a iface\<close> is an \<open>interface{}\<close> value whose
  \<open>None\<close> is \<open>nil\<close>; \<open>go_panic\<close> are the run-time panics the sources can raise;
  \<open>gotime\<close> is a \<open>time.Time\<close> with its wall-clock and its monotonic reading.

  The generic lemmas are about cursors masked by a power of two, about lists updated by
  index, about folding a step over a list and about 64-bit wrap-around. The collections
  \<open>go_simps\<close> (unfolding of the Go primitives), \<open>inv_intros\<close> (an operation keeps its
  invariant) and \<open>frame_simps\<close> (fields an operation leaves alone) are filled by the
  component theories.
\<close>

unbundle bit_operations_syntax

named_theorems go_simps "unfolding rules of the Go primitives"
named_theorems inv_intros "every operation keeps its component's invariant"
named_theorems frame_simps "fields an operation does not change"

section \<open>Go values\<close>

type_synonym goint = "64 word"

type_synonym 'a iface = "'a option"

type_synonym bytes = string

datatype go_panic =
    MakeSliceLen          \<comment> \<open>\<open>makeslice: len out of range\<close>\<close>
  | NilMapWrite           \<comment> \<open>\<open>assignment to entry in nil map\<close>\<close>
  | SendOnClosedChannel
  | CloseOfClosedChannel
  | IndexOutOfRange
  | NilDereference

text \<open>A call that may panic: \<open>Inl\<close> the panic, \<open>Inr\<close> the result.\<close>

type_synonym 'a go = "go_panic + 'a"

subsection \<open>64-bit signed arithmetic on \<open>int\<close>\<close>

definition wrap64 :: "int \<Rightarrow> int" where
  "wrap64 x = (x + 2 ^ 63) mod 2 ^ 64 - 2 ^ 63"

definition int64 :: "int \<Rightarrow> bool" where
  "int64 x \<longleftrightarrow> - (2 ^ 63) \<le> x \<and> x < 2 ^ 63"

lemma int64_wrap64 [simp]: "int64 (wrap64 x)"
  unfolding int64_def wrap64_def by simp

lemma wrap64_id: "int64 x \<Longrightarrow> wrap64 x = x"
  unfolding int64_def wrap64_def by simp

lemma wrap64_cong: "x mod 2 ^ 64 = y mod 2 ^ 64 \<Longrightarrow> wrap64 x = wrap64 y"
  unfolding wrap64_def by (metis mod_add_left_eq)

lemma wrap64_mod: "wrap64 (x mod 2 ^ 64) = wrap64 x"
  by (rule wrap64_cong) simp

subsection \<open>Durations and times\<close>

text \<open>\<open>time.Duration\<close> counts nanoseconds.\<close>

type_synonym duration = int

definition Nanosecond :: duration where "Nanosecond = 1"
definition Second :: duration where "Second = 1000000000"
definition Minute :: duration where "Minute = 60 * Second"
definition Hour :: duration where "Hour = 60 * Minute"

lemmas duration_defs [go_simps] = Nanosecond_def Second_def Minute_def Hour_def

text \<open>
  A \<open>time.Time\<close> returned by \<open>time.Now\<close> carries a wall-clock and a monotonic
  reading. \<open>Add\<close> moves both, \<open>After\<close> compares the monotonic ones (both operands
  have one here), \<open>Unix\<close> reads the wall clock in whole seconds.
\<close>

record gotime =
  wall :: int
  mono :: int

definition time_Add :: "gotime \<Rightarrow> duration \<Rightarrow> gotime" where
  "time_Add t d = \<lparr>wall = wall t + d, mono = mono t + d\<rparr>"

definition time_After :: "gotime \<Rightarrow> gotime \<Rightarrow> bool" where
  "time_After t u \<longleftrightarrow> mono u < mono t"

definition time_Unix :: "gotime \<Rightarrow> int" where
  "time_Unix t = wall t div Second"

lemmas time_defs [go_simps] = time_Add_def time_After_def time_Unix_def

section \<open>Cursors masked by a power of two\<close>

text \<open>
  \<open>x & (2^k - 1)\<close> is \<open>x mod 2^k\<close>, for any 64-bit cursor, also one that has wrapped.
\<close>

lemma unat_and_mask:
  fixes w :: goint
  assumes "k \<le> 64"
  shows "unat (w AND (2 ^ k - 1)) = unat w mod 2 ^ k"
proof -
  have "w AND (2 ^ k - 1) = take_bit k w"
    by (simp add: take_bit_eq_mask mask_eq_exp_minus_1)
  then have "unat (w AND (2 ^ k - 1)) = take_bit k (unat w)"
    by (simp only: unsigned_take_bit_eq)
  then show ?thesis
    by (simp add: take_bit_eq_mod)
qed

lemma unat_add_mod:
  fixes w :: goint
  assumes "k \<le> 64"
  shows "unat (w + of_nat i) mod 2 ^ k = (unat w + i) mod 2 ^ k"
proof -
  have d: "(2::nat) ^ k dvd 2 ^ 64"
    using assms by (rule le_imp_power_dvd)
  have "unat (w + of_nat i) = (unat w + i mod 2 ^ 64) mod 2 ^ 64"
    by (simp add: unat_word_ariths unat_of_nat)
  also have "\<dots> = (unat w + i) mod 2 ^ 64"
    by (rule mod_add_right_eq)
  finally show ?thesis
    using d by (simp add: mod_mod_cancel)
qed

text \<open>Two positions of a window no longer than the ring are different slots.\<close>

lemma mod_window_inj:
  fixes n i j t :: nat
  assumes "(t + i) mod n = (t + j) mod n" and "i < n" and "j < n"
  shows "i = j"
proof -
  have d: "int n dvd (int i - int j)"
    using assms(1) by (metis add_diff_cancel_left mod_eq_dvd_iff of_nat_add zmod_int)
  consider "i < j" | "i = j" | "j < i" by (rule linorder_cases)
  then show ?thesis
  proof cases
    case 1
    moreover from d have "int n dvd (int j - int i)" by (simp add: dvd_diff_commute)
    ultimately have "int n \<le> int j - int i" by (simp add: zdvd_imp_le)
    with assms(3) show ?thesis by simp
  next
    case 3
    with d have "int n \<le> int i - int j" by (simp add: zdvd_imp_le)
    with assms(2) show ?thesis by simp
  qed
qed

section \<open>Lists\<close>

lemma nth_update_map_upt:
  assumes "\<And>i. i < n \<Longrightarrow> f i \<noteq> p"
  shows "map (\<lambda>i. xs[p := x] ! f i) [0..<n] = map (\<lambda>i. xs ! f i) [0..<n]"
  using assms by (auto simp: nth_list_update_neq [OF not_sym])

lemma map_upt_Suc_front: "map f [0..<Suc n] = f 0 # map (\<lambda>i. f (Suc i)) [0..<n]"
  by (simp add: map_upt_Suc del: upt_Suc)

lemma sum_list_update_swap:
  fixes g :: "'a \<Rightarrow> nat"
  assumes "i < length xs"
  shows "sum_list (map g (xs[i := y])) + g (xs ! i) = sum_list (map g xs) + g y"
  using assms by (induction xs arbitrary: i) (auto split: nat.split)

lemma concat_update_swap:
  assumes "i < length xs"
  shows "mset (concat (map g (xs[i := y]))) + mset (g (xs ! i)) = mset (concat (map g xs)) + mset (g y)"
  using assms by (induction xs arbitrary: i) (auto simp: ac_simps split: nat.split)

end
