(* ===== verification/Queue_Interface.thy ===== *)
theory Queue_Interface
  imports Prelude
begin

text \<open>
  The contract several components share: a first-in first-out queue behind an invariant.
  The ring buffer, the worker pool's channel and the in-memory transport provide it (their
  theories interpret it); the FIFO property of any sequence of calls is proved here once.
\<close>

section \<open>Calls on a queue\<close>

datatype ('x, 'n) qop = Put 'x | Take 'n

text \<open>
  Run a sequence of calls. The result holds the accepted items, the delivered items, both in
  order, and the final queue.
\<close>

fun run_queue :: "('q \<Rightarrow> 'x \<Rightarrow> bool \<times> 'q) \<Rightarrow> ('q \<Rightarrow> 'n \<Rightarrow> 'x list \<times> 'q) \<Rightarrow> 'q \<Rightarrow> ('x, 'n) qop list
    \<Rightarrow> 'x list \<times> 'x list \<times> 'q" where
  "run_queue enq deq q [] = ([], [], q)"
| "run_queue enq deq q (Put x # ops) =
     (let (ok, q1) = enq q x; (acc, out, q2) = run_queue enq deq q1 ops
      in (if ok then x # acc else acc, out, q2))"
| "run_queue enq deq q (Take n # ops) =
     (let (ys, q1) = deq q n; (acc, out, q2) = run_queue enq deq q1 ops
      in (acc, ys @ out, q2))"

lemma run_queue_PutE:
  assumes "run_queue enq deq q (Put x # ops) = (acc, out, q')"
  obtains acc1 where "run_queue enq deq (snd (enq q x)) ops = (acc1, out, q')"
    and "acc = (if fst (enq q x) then x # acc1 else acc1)"
  using assms by (auto simp: split_def Let_def prod_eq_iff)

lemma run_queue_TakeE:
  assumes "run_queue enq deq q (Take n # ops) = (acc, out, q')"
  obtains out1 where "run_queue enq deq (snd (deq q n)) ops = (acc, out1, q')"
    and "out = fst (deq q n) @ out1"
  using assms by (auto simp: split_def Let_def prod_eq_iff)

section \<open>First in, first out\<close>

locale fifo_queue =
  fixes inv :: "'q \<Rightarrow> bool"
    and abs :: "'q \<Rightarrow> 'x list"
    and enq :: "'q \<Rightarrow> 'x \<Rightarrow> bool \<times> 'q"
    and deq :: "'q \<Rightarrow> 'n \<Rightarrow> 'x list \<times> 'q"
  assumes inv_enq: "inv q \<Longrightarrow> inv (snd (enq q x))"
    and inv_deq: "inv q \<Longrightarrow> inv (snd (deq q n))"
    and abs_enq: "inv q \<Longrightarrow> abs (snd (enq q x)) = (if fst (enq q x) then abs q @ [x] else abs q)"
    and abs_deq: "inv q \<Longrightarrow> fst (deq q n) @ abs (snd (deq q n)) = abs q"
begin

lemma run_inv: "inv q \<Longrightarrow> run_queue enq deq q ops = (acc, out, q') \<Longrightarrow> inv q'"
proof (induction ops arbitrary: q acc out)
  case (Cons op ops)
  then show ?case
    by (cases op) (blast elim: run_queue_PutE run_queue_TakeE intro: inv_enq inv_deq)+
qed simp

lemma run_fifo:
  "inv q \<Longrightarrow> run_queue enq deq q ops = (acc, out, q') \<Longrightarrow> abs q @ acc = out @ abs q'"
proof (induction ops arbitrary: q acc out)
  case (Cons op ops)
  show ?case
  proof (cases op)
    case (Put x)
    with Cons.prems(2) obtain acc1
      where r: "run_queue enq deq (snd (enq q x)) ops = (acc1, out, q')"
        and acc: "acc = (if fst (enq q x) then x # acc1 else acc1)"
      by (auto simp del: run_queue.simps elim!: run_queue_PutE)
    with Cons.IH[OF inv_enq[OF Cons.prems(1)] r] abs_enq[OF Cons.prems(1), of x]
    show ?thesis by (auto split: if_splits)
  next
    case (Take n)
    with Cons.prems(2) obtain out1
      where r: "run_queue enq deq (snd (deq q n)) ops = (acc, out1, q')"
        and out: "out = fst (deq q n) @ out1"
      by (auto simp del: run_queue.simps elim!: run_queue_TakeE)
    with Cons.IH[OF inv_deq[OF Cons.prems(1)] r] abs_deq[OF Cons.prems(1), of n, symmetric]
    show ?thesis by simp
  qed
qed simp

text \<open>Delivery order is acceptance order: from an empty queue, the output is a prefix.\<close>

corollary run_prefix:
  assumes "inv q" and "abs q = []" and "run_queue enq deq q ops = (acc, out, q')"
  shows "out = take (length out) acc"
  using run_fifo[OF assms(1,3)] assms(2) by simp

end

section \<open>Bounded queues\<close>

locale bounded_fifo = fifo_queue +
  fixes cap :: "'a \<Rightarrow> nat"
  assumes bounded: "inv q \<Longrightarrow> length (abs q) \<le> cap q"
    and cap_enq: "cap (snd (enq q x)) = cap q"
    and cap_deq: "cap (snd (deq q n)) = cap q"
    and enq_accepts: "inv q \<Longrightarrow> fst (enq q x) \<longleftrightarrow> length (abs q) < cap q"
begin

lemma run_cap: "run_queue enq deq q ops = (acc, out, q') \<Longrightarrow> cap q' = cap q"
proof (induction ops arbitrary: q acc out)
  case (Cons op ops)
  show ?case
  proof (cases op)
    case (Put x)
    with Cons.prems Cons.IH[of "snd (enq q x)"] show ?thesis
      by (auto simp: cap_enq simp del: run_queue.simps elim!: run_queue_PutE)
  next
    case (Take n)
    with Cons.prems Cons.IH[of "snd (deq q n)"] show ?thesis
      by (auto simp: cap_deq simp del: run_queue.simps elim!: run_queue_TakeE)
  qed
qed simp

text \<open>What is accepted and not yet delivered never exceeds the capacity.\<close>

lemma run_backlog:
  assumes "inv q" and "abs q = []" and "run_queue enq deq q ops = (acc, out, q')"
  shows "length acc \<le> length out + cap q"
proof -
  have "length (abs q') \<le> cap q"
    using bounded[OF run_inv[OF assms(1,3)]] run_cap[OF assms(3)] by simp
  moreover have "length acc = length out + length (abs q')"
    using run_fifo[OF assms(1,3)] assms(2) by (metis append_Nil length_append)
  ultimately show ?thesis by simp
qed

end

end
