(* ===== verification/Ring_Buffer.thy ===== *)
theory Ring_Buffer
  imports Queue_Interface
begin

text \<open>
  The bounded ring buffer: \<open>src/ring/buffer.go\<close> and \<open>src/ring/policy.go\<close>.

  \<open>buffer\<close> is the struct \<open>Buffer\<close>, field by field (\<open>b_headA\<close>, \<open>b_tailA\<close> are the
  atomics \<open>_head\<close>, \<open>_tail\<close>). Cursors and counters are 64-bit words, so the proofs also
  cover cursors that have wrapped. The condition variable \<open>cond\<close> keeps the goroutines
  blocked in \<open>Enqueue\<close>, each represented by the item it wants to insert: \<open>waiting\<close> are
  parked in \<open>Wait\<close>, \<open>woken\<close> have been signalled and have not yet reacquired the mutex.

  Each operation is one critical section of the mutex. \<open>Enqueue\<close> with policy \<open>Block\<close>
  on a full buffer ends its critical section in \<open>cond.Wait\<close> (result \<open>Waiting\<close>);
  \<open>Enqueue_resume\<close> is the critical section that runs when such a goroutine wakes up.

  \<open>contents\<close> is the abstraction: the queued items, oldest first. The lemmas show that
  every operation keeps \<open>ring_inv\<close> and acts on \<open>contents\<close> as the bounded queue
  \<open>spec_enqueue\<close>/\<open>take\<close>/\<open>drop\<close> says, for every overflow policy.
\<close>

section \<open>The overflow policy\<close>

datatype OverflowPolicy = Block | DropNewest | DropOldest | Reject
  | OtherPolicy int \<comment> \<open>any other value of the \<open>int\<close> type\<close>

fun policy_String :: "OverflowPolicy \<Rightarrow> string" where
  "policy_String Block = ''Block''"
| "policy_String DropNewest = ''DropNewest''"
| "policy_String DropOldest = ''DropOldest''"
| "policy_String Reject = ''Reject''"
| "policy_String (OtherPolicy _) = ''Unknown''"

section \<open>The condition variable\<close>

record 'a cond =
  waiting :: "'a iface list"
  woken :: "'a iface list"

definition cond_New :: "'a cond" where
  "cond_New = \<lparr>waiting = [], woken = []\<rparr>"

definition cond_Wait :: "'a cond \<Rightarrow> 'a iface \<Rightarrow> 'a cond" where
  "cond_Wait c item = c\<lparr>waiting := waiting c @ [item]\<rparr>"

definition cond_Signal :: "'a cond \<Rightarrow> 'a cond" where
  "cond_Signal c = (case waiting c of [] \<Rightarrow> c
     | w # ws \<Rightarrow> c\<lparr>waiting := ws, woken := woken c @ [w]\<rparr>)"

definition cond_Broadcast :: "'a cond \<Rightarrow> 'a cond" where
  "cond_Broadcast c = c\<lparr>waiting := [], woken := woken c @ waiting c\<rparr>"

definition cond_Resume :: "'a cond \<Rightarrow> 'a iface \<Rightarrow> 'a cond" where
  "cond_Resume c item = c\<lparr>woken := remove1 item (woken c)\<rparr>"

lemmas cond_defs [go_simps] =
  cond_New_def cond_Wait_def cond_Signal_def cond_Broadcast_def cond_Resume_def

section \<open>The buffer and its operations\<close>

datatype ring_error = ErrBufferFull

record 'a buffer =
  b_items :: "'a iface list"
  b_head :: goint
  b_tail :: goint
  b_count :: goint
  b_capacity :: goint
  b_mask :: goint
  b_policy :: OverflowPolicy
  b_closed :: bool
  b_headA :: goint
  b_tailA :: goint
  b_cond :: "'a cond"

definition nextPowerOfTwo :: "goint \<Rightarrow> goint" where
  "nextPowerOfTwo v =
     (if sint v \<le> 1 then 1
      else let v = v - 1;
               v = v OR signed_drop_bit 1 v;
               v = v OR signed_drop_bit 2 v;
               v = v OR signed_drop_bit 4 v;
               v = v OR signed_drop_bit 8 v;
               v = v OR signed_drop_bit 16 v
           in v + 1)"

definition ring_New :: "goint \<Rightarrow> OverflowPolicy \<Rightarrow> 'a buffer go" where
  "ring_New capacity policy =
     (let c = nextPowerOfTwo capacity
      in if sint c < 0 then Inl MakeSliceLen
         else Inr \<lparr>b_items = replicate (unat c) None, b_head = 0, b_tail = 0, b_count = 0,
                b_capacity = c, b_mask = c - 1, b_policy = policy, b_closed = False,
                b_headA = 0, b_tailA = 0, b_cond = cond_New\<rparr>)"

text \<open>The slot a cursor addresses: \<open>cursor & b.mask\<close>.\<close>

definition slot_of :: "'a buffer \<Rightarrow> goint \<Rightarrow> nat" where
  "slot_of b w = unat (w AND b_mask b)"

text \<open>The insertion both the free branch and the unblocked branch of \<open>Enqueue\<close> do.\<close>

definition ring_put :: "'a buffer \<Rightarrow> 'a iface \<Rightarrow> 'a buffer" where
  "ring_put b item =
     b\<lparr>b_items := (b_items b)[slot_of b (b_head b) := item],
       b_head := b_head b + 1,
       b_count := b_count b + 1,
       b_headA := b_head b + 1,
       b_cond := cond_Signal (b_cond b)\<rparr>"

datatype enq_result = Returned "ring_error option" | Waiting

text \<open>The loop of the \<open>Block\<close> branch, from its test to the next \<open>Wait\<close> or return.\<close>

definition Enqueue_loop :: "'a buffer \<Rightarrow> 'a iface \<Rightarrow> enq_result \<times> 'a buffer" where
  "Enqueue_loop b item =
     (if b_count b = b_capacity b \<and> \<not> b_closed b
      then (Waiting, b\<lparr>b_cond := cond_Wait (b_cond b) item\<rparr>)
      else if b_closed b then (Returned (Some ErrBufferFull), b)
      else (Returned None, ring_put b item))"

definition Enqueue :: "'a buffer \<Rightarrow> 'a iface \<Rightarrow> enq_result \<times> 'a buffer" where
  "Enqueue b item =
     (if b_closed b then (Returned (Some ErrBufferFull), b)
      else if sint (b_count b) < sint (b_capacity b) then (Returned None, ring_put b item)
      else (case b_policy b of
          Block \<Rightarrow> Enqueue_loop b item
        | DropNewest \<Rightarrow> (Returned None, b)
        | DropOldest \<Rightarrow> (Returned None,
            b\<lparr>b_items := (b_items b)[slot_of b (b_head b) := item],
              b_head := b_head b + 1,
              b_tail := b_tail b + 1,
              b_headA := b_head b + 1,
              b_tailA := b_tail b + 1,
              b_cond := cond_Signal (b_cond b)\<rparr>)
        | Reject \<Rightarrow> (Returned (Some ErrBufferFull), b)
        | OtherPolicy _ \<Rightarrow> (Returned (Some ErrBufferFull), b)))"

text \<open>A goroutine parked in \<open>Wait\<close> with \<open>item\<close> has been woken and holds the mutex.\<close>

definition Enqueue_resume :: "'a buffer \<Rightarrow> 'a iface \<Rightarrow> enq_result \<times> 'a buffer" where
  "Enqueue_resume b item =
     Enqueue_loop (b\<lparr>b_cond := cond_Resume (b_cond b) item\<rparr>) item"

text \<open>\<open>EnqueueBatch\<close> either returns a count and an error or is parked at an index.\<close>

datatype batch_result = BatchReturned nat "ring_error option" | BatchWaiting nat

fun EnqueueBatch_from :: "nat \<Rightarrow> 'a buffer \<Rightarrow> 'a iface list \<Rightarrow> batch_result \<times> 'a buffer" where
  "EnqueueBatch_from i b [] = (BatchReturned i None, b)"
| "EnqueueBatch_from i b (item # rest) =
     (case Enqueue b item of
        (Returned None, b') \<Rightarrow> EnqueueBatch_from (Suc i) b' rest
      | (Returned (Some err), b') \<Rightarrow> (BatchReturned i (Some err), b')
      | (Waiting, b') \<Rightarrow> (BatchWaiting i, b'))"

definition EnqueueBatch :: "'a buffer \<Rightarrow> 'a iface list \<Rightarrow> batch_result \<times> 'a buffer" where
  "EnqueueBatch b xs = EnqueueBatch_from 0 b xs"

definition Dequeue :: "'a buffer \<Rightarrow> ('a iface \<times> bool) \<times> 'a buffer" where
  "Dequeue b =
     (if b_count b = 0 then ((None, False), b)
      else ((b_items b ! slot_of b (b_tail b), True),
            b\<lparr>b_items := (b_items b)[slot_of b (b_tail b) := None],
              b_tail := b_tail b + 1,
              b_count := b_count b - 1,
              b_tailA := b_tail b + 1,
              b_cond := cond_Signal (b_cond b)\<rparr>))"

text \<open>The copy loop of \<open>DequeueBatch\<close>: \<open>batchSize\<close> rounds.\<close>

fun DequeueBatch_loop :: "nat \<Rightarrow> 'a buffer \<Rightarrow> 'a iface list \<times> 'a buffer" where
  "DequeueBatch_loop 0 b = ([], b)"
| "DequeueBatch_loop (Suc n) b =
     (let x = b_items b ! slot_of b (b_tail b);
          (xs, b') = DequeueBatch_loop n
             (b\<lparr>b_items := (b_items b)[slot_of b (b_tail b) := None],
                b_tail := b_tail b + 1\<rparr>)
      in (x # xs, b'))"

definition DequeueBatch :: "'a buffer \<Rightarrow> goint \<Rightarrow> 'a iface list \<times> 'a buffer" where
  "DequeueBatch b limit =
     (if b_count b = 0 \<or> limit = 0 then ([], b)
      else let batchSize = (if 0 < sint limit \<and> sint limit < sint (b_count b) then limit else b_count b);
               (result, b') = DequeueBatch_loop (nat (sint batchSize)) b
           in (result, b'\<lparr>b_count := b_count b - batchSize,
                          b_tailA := b_tail b',
                          b_cond := cond_Broadcast (b_cond b)\<rparr>))"

text \<open>
  \<open>Len\<close> takes no lock: it loads \<open>_head\<close> in one state and \<open>_tail\<close> in a state that may
  be later. \<open>ring_Len\<close> is the case where nothing happens in between.
\<close>

definition Len_loads :: "'a buffer \<Rightarrow> 'a buffer \<Rightarrow> goint" where
  "Len_loads b_at_head b_at_tail = b_headA b_at_head - b_tailA b_at_tail"

definition ring_Len :: "'a buffer \<Rightarrow> goint" where
  "ring_Len b = Len_loads b b"

definition ring_Cap :: "'a buffer \<Rightarrow> goint" where
  "ring_Cap b = b_capacity b"

definition ring_Close :: "'a buffer \<Rightarrow> 'a buffer" where
  "ring_Close b = b\<lparr>b_closed := True, b_cond := cond_Broadcast (b_cond b)\<rparr>"

section \<open>Abstraction and invariant\<close>

definition ring_at :: "'a buffer \<Rightarrow> nat \<Rightarrow> 'a iface" where
  "ring_at b i = b_items b ! slot_of b (b_tail b + of_nat i)"

definition contents :: "'a buffer \<Rightarrow> 'a iface list" where
  "contents b = map (ring_at b) [0..<unat (b_count b)]"

definition ring_cap :: "'a buffer \<Rightarrow> nat" where
  "ring_cap b = unat (b_capacity b)"

definition ring_inv :: "'a buffer \<Rightarrow> bool" where
  "ring_inv b \<longleftrightarrow>
     (\<exists>k<63. b_capacity b = 2 ^ k) \<and> b_mask b = b_capacity b - 1 \<and>
     length (b_items b) = ring_cap b \<and> unat (b_count b) \<le> ring_cap b \<and>
     b_head b = b_tail b + b_count b \<and> b_headA b = b_head b \<and> b_tailA b = b_tail b \<and>
     (\<forall>i<ring_cap b. unat (b_count b) \<le> i \<longrightarrow> ring_at b i = None)"

text \<open>The items of the goroutines blocked in \<open>Enqueue\<close>.\<close>

definition parked :: "'a buffer \<Rightarrow> 'a iface multiset" where
  "parked b = mset (waiting (b_cond b)) + mset (woken (b_cond b))"

text \<open>The abstract bounded queue, one equation per policy.\<close>

fun spec_enqueue :: "OverflowPolicy \<Rightarrow> bool \<Rightarrow> nat \<Rightarrow> 'x list \<Rightarrow> 'x \<Rightarrow> enq_result \<times> 'x list" where
  "spec_enqueue p True cap q x = (Returned (Some ErrBufferFull), q)"
| "spec_enqueue p False cap q x =
     (if length q < cap then (Returned None, q @ [x])
      else case p of
          Block \<Rightarrow> (Waiting, q)
        | DropNewest \<Rightarrow> (Returned None, q)
        | DropOldest \<Rightarrow> (Returned None, tl q @ [x])
        | Reject \<Rightarrow> (Returned (Some ErrBufferFull), q)
        | OtherPolicy _ \<Rightarrow> (Returned (Some ErrBufferFull), q))"

text \<open>How many items \<open>DequeueBatch max\<close> takes: all of them for a negative \<open>max\<close>.\<close>

definition batch_size :: "goint \<Rightarrow> nat \<Rightarrow> nat" where
  "batch_size limit n = (if sint limit < 0 then n else min (nat (sint limit)) n)"

text \<open>The shift cascade of \<open>nextPowerOfTwo\<close>, on its own.\<close>

definition smear :: "goint \<Rightarrow> goint" where
  "smear x =
     (let v = x OR signed_drop_bit 1 x;
          v = v OR signed_drop_bit 2 v;
          v = v OR signed_drop_bit 4 v;
          v = v OR signed_drop_bit 8 v
      in v OR signed_drop_bit 16 v)"

text \<open>The buffer provides the bounded queue, as long as it is open and does not drop items.\<close>

abbreviation ring_lossless :: "'a buffer \<Rightarrow> bool" where
  "ring_lossless b \<equiv> ring_inv b \<and> \<not> b_closed b \<and> b_policy b \<noteq> DropNewest \<and> b_policy b \<noteq> DropOldest"

definition ring_enq :: "'a buffer \<Rightarrow> 'a iface \<Rightarrow> bool \<times> 'a buffer" where
  "ring_enq b x = (case Enqueue b x of (r, b') \<Rightarrow> (r = Returned None, b'))"

text \<open>
  A full two-slot \<open>DropOldest\<close> buffer whose head cursor has wrapped past \<open>2^64\<close>: tail
  \<open>2^64 - 1\<close>, head \<open>1\<close>, holding 10 and 20.
\<close>

definition sample_wrapped :: "nat buffer" where
  "sample_wrapped = \<lparr>b_items = [Some 20, Some 10], b_head = 1, b_tail = - 1, b_count = 2,
     b_capacity = 2, b_mask = 1, b_policy = DropOldest, b_closed = False,
     b_headA = 1, b_tailA = - 1, b_cond = cond_New\<rparr>"

section \<open>Slots and cursors\<close>

lemma unat_pow2: "k < 64 \<Longrightarrow> unat (2 ^ k :: goint) = 2 ^ k"
proof -
  assume "k < 64"
  then have "(2::nat) ^ k < 2 ^ 64" by (rule power_strict_increasing) simp
  then have "unat (of_nat (2 ^ k) :: goint) = 2 ^ k"
    by (simp only: unat_of_nat len_num1 len_num0 len_bit0 len_bit1) simp
  then show ?thesis by simp
qed

lemma ring_invE:
  assumes "ring_inv b"
  obtains k where "k < 63" "b_capacity b = 2 ^ k" "b_mask b = 2 ^ k - 1" "ring_cap b = 2 ^ k"
    "length (b_items b) = 2 ^ k" "unat (b_count b) \<le> 2 ^ k"
    "b_head b = b_tail b + b_count b" "b_headA b = b_head b" "b_tailA b = b_tail b"
    "\<forall>i<2 ^ k. unat (b_count b) \<le> i \<longrightarrow> ring_at b i = None"
proof -
  from assms obtain k where k: "k < 63" "b_capacity b = 2 ^ k"
    unfolding ring_inv_def by blast
  then have "ring_cap b = 2 ^ k"
    unfolding ring_cap_def by (simp add: unat_pow2)
  with assms k that[of k] show thesis
    unfolding ring_inv_def by metis
qed

lemma slot_of_offset:
  assumes "b_mask b = 2 ^ k - 1" and "k \<le> 64"
  shows "slot_of b (w + of_nat i) = (unat w + i) mod 2 ^ k"
  using assms by (simp add: slot_of_def unat_and_mask unat_add_mod)

lemma slot_of_tail_inj:
  assumes "ring_inv b" and "i < ring_cap b" and "j < ring_cap b"
  shows "slot_of b (b_tail b + of_nat i) = slot_of b (b_tail b + of_nat j) \<longleftrightarrow> i = j"
proof -
  from assms(1) obtain k where "k < 63" "b_mask b = 2 ^ k - 1" "ring_cap b = 2 ^ k"
    by (rule ring_invE)
  with assms(2,3) show ?thesis
    by (auto simp: slot_of_offset dest: mod_window_inj)
qed

lemma slot_of_less:
  assumes "ring_inv b"
  shows "slot_of b w < length (b_items b)"
proof -
  from assms obtain k where "k < 63" "b_mask b = 2 ^ k - 1" "length (b_items b) = 2 ^ k"
    by (rule ring_invE)
  then show ?thesis by (simp add: slot_of_def unat_and_mask)
qed

lemma slot_of_head:
  assumes "ring_inv b"
  shows "slot_of b (b_head b) = slot_of b (b_tail b + of_nat (unat (b_count b)))"
proof -
  from assms have "b_head b = b_tail b + b_count b" by (rule ring_invE)
  then show ?thesis by simp
qed

lemma sint_unat_small:
  assumes "unat (w :: goint) < 2 ^ 63"
  shows "sint w = uint w"
proof -
  have "int (unat w) < int (2 ^ 63)" using assms by (simp only: of_nat_less_iff)
  then have "uint w < 2 ^ 63" by simp
  then have "signed_take_bit 63 (uint w) = uint w"
    using uint_ge_0[of w] by (subst signed_take_bit_int_eq_self_iff) linarith
  then show ?thesis by (simp add: sint_uint)
qed

lemma count_capacity_cmp:
  assumes "ring_inv b"
  shows "sint (b_count b) < sint (b_capacity b) \<longleftrightarrow> unat (b_count b) < ring_cap b"
    and "b_count b = b_capacity b \<longleftrightarrow> unat (b_count b) = ring_cap b"
proof -
  from assms obtain k where k: "k < 63" "ring_cap b = 2 ^ k" "unat (b_count b) \<le> 2 ^ k"
    by (rule ring_invE)
  have "(2::nat) ^ k < 2 ^ 63" using k(1) by (rule power_strict_increasing) simp
  with k have "sint (b_count b) = uint (b_count b)" "sint (b_capacity b) = uint (b_capacity b)"
    unfolding ring_cap_def by (metis le_less_trans sint_unat_small)+
  then show "sint (b_count b) < sint (b_capacity b) \<longleftrightarrow> unat (b_count b) < ring_cap b"
    by (simp add: ring_cap_def word_less_nat_alt flip: word_less_def)
  show "b_count b = b_capacity b \<longleftrightarrow> unat (b_count b) = ring_cap b"
    by (simp add: ring_cap_def word_unat_eq_iff)
qed

lemma unat_count_Suc:
  assumes "ring_inv b" and "unat (b_count b) < ring_cap b"
  shows "unat (b_count b + 1) = Suc (unat (b_count b))"
proof -
  from assms(1) obtain k where "k < 63" "ring_cap b = 2 ^ k" by (rule ring_invE)
  then have "unat (b_count b) + 1 < 2 ^ 64" 
    using assms(2) power_strict_increasing[of k 64 "2::nat"] by simp
  then show ?thesis by (simp add: unat_word_ariths)
qed

lemma ring_at_0: "ring_at b 0 = b_items b ! slot_of b (b_tail b)"
  by (simp add: ring_at_def)

text \<open>Writing the slot at offset \<open>j\<close> from the tail changes that offset and no other.\<close>

lemma ring_at_update:
  assumes "ring_inv b" and "i < ring_cap b" and "j < ring_cap b"
    and "b_tail b' = b_tail b" and "b_mask b' = b_mask b"
    and "b_items b' = (b_items b)[slot_of b (b_tail b + of_nat j) := x]"
  shows "ring_at b' i = (if i = j then x else ring_at b i)"
proof -
  have "slot_of b' = slot_of b" using assms(5) by (simp add: slot_of_def fun_eq_iff)
  then show ?thesis
    using assms slot_of_tail_inj[OF assms(1-3)] slot_of_less[OF assms(1)]
    by (auto simp: ring_at_def nth_list_update)
qed

text \<open>Advancing the tail shifts the window by one.\<close>

lemma ring_at_shift:
  assumes "b_tail b' = b_tail b + 1" and "b_mask b' = b_mask b" and "b_items b' = b_items b"
  shows "ring_at b' i = ring_at b (Suc i)"
  using assms by (simp add: ring_at_def slot_of_def algebra_simps)

text \<open>The window closes on itself: offset \<open>ring_cap b\<close> is offset 0.\<close>

lemma ring_at_wrap:
  assumes "ring_inv b"
  shows "slot_of b (b_tail b + of_nat (ring_cap b)) = slot_of b (b_tail b)"
proof -
  from assms obtain k where k: "k < 63" "b_mask b = 2 ^ k - 1" "ring_cap b = 2 ^ k"
    by (rule ring_invE)
  then show ?thesis
    using slot_of_offset[OF k(2), of "b_tail b" "2 ^ k"] slot_of_offset[OF k(2), of "b_tail b" 0]
    by simp
qed

lemma length_contents [simp]: "length (contents b) = unat (b_count b)"
  by (simp add: contents_def)


text \<open>Writing the oldest slot and advancing the tail: what \<open>Dequeue\<close> and \<open>DropOldest\<close> do.\<close>

lemma ring_at_advance:
  assumes inv: "ring_inv b" and i: "i < ring_cap b"
    and "b_tail b' = b_tail b + 1" and "b_mask b' = b_mask b"
    and "b_items b' = (b_items b)[slot_of b (b_tail b) := x]"
  shows "ring_at b' i = (if Suc i = ring_cap b then x else ring_at b (Suc i))"
proof -
  have pos: "0 < ring_cap b" using i by simp
  have eq: "slot_of b' (b_tail b' + of_nat i) = slot_of b (b_tail b + of_nat (Suc i))"
    using assms(3,4) by (simp add: slot_of_def algebra_simps)
  show ?thesis
  proof (cases "Suc i = ring_cap b")
    case True
    then show ?thesis
      using eq ring_at_wrap[OF inv] slot_of_less[OF inv] assms(5) by (simp add: ring_at_def)
  next
    case False
    then have "Suc i < ring_cap b" using i by simp
    then have "slot_of b (b_tail b) \<noteq> slot_of b (b_tail b + of_nat (Suc i))"
      using slot_of_tail_inj[OF inv pos, of "Suc i"] by simp
    with False show ?thesis
      using eq assms(5) by (simp add: ring_at_def del: of_nat_Suc)
  qed
qed

lemma unat_count_pred:
  fixes w :: goint
  assumes "w \<noteq> 0"
  shows "unat (w - 1) = unat w - 1"
  using assms by (simp add: unat_minus_one)

section \<open>Every operation keeps the invariant and refines the queue\<close>

lemma ring_put_sel [simp]:
  "b_count (ring_put b x) = b_count b + 1" "b_tail (ring_put b x) = b_tail b"
  "b_head (ring_put b x) = b_head b + 1" "b_headA (ring_put b x) = b_head b + 1"
  "b_tailA (ring_put b x) = b_tailA b" "b_mask (ring_put b x) = b_mask b"
  "b_capacity (ring_put b x) = b_capacity b" "b_policy (ring_put b x) = b_policy b"
  "b_closed (ring_put b x) = b_closed b" "b_cond (ring_put b x) = cond_Signal (b_cond b)"
  "b_items (ring_put b x) = (b_items b)[slot_of b (b_head b) := x]"
  "ring_cap (ring_put b x) = ring_cap b"
  by (simp_all add: ring_put_def ring_cap_def)

lemma ring_put_correct:
  assumes inv: "ring_inv b" and free: "unat (b_count b) < ring_cap b"
  shows "ring_inv (ring_put b x)" and "contents (ring_put b x) = contents b @ [x]"
proof -
  let ?b = "ring_put b x"
  from inv obtain k where k: "k < 63" "b_capacity b = 2 ^ k" "b_mask b = 2 ^ k - 1"
      "ring_cap b = 2 ^ k" "length (b_items b) = 2 ^ k" "b_head b = b_tail b + b_count b"
      "b_tailA b = b_tail b" "\<forall>i<2 ^ k. unat (b_count b) \<le> i \<longrightarrow> ring_at b i = None"
    by (rule ring_invE)
  have cnt: "unat (b_count b + 1) = Suc (unat (b_count b))"
    using inv free by (rule unat_count_Suc)
  have at: "ring_at ?b i = (if i = unat (b_count b) then x else ring_at b i)"
    if "i < ring_cap b" for i
    using ring_at_update[OF inv that free, of ?b x] slot_of_head[OF inv] by simp
  show "contents ?b = contents b @ [x]"
    using free cnt by (simp add: contents_def at)
  have "\<forall>i<2 ^ k. unat (b_count b + 1) \<le> i \<longrightarrow> ring_at ?b i = None"
    using k(4,8) cnt at by simp
  with k cnt free show "ring_inv ?b"
    unfolding ring_inv_def by auto
qed

text \<open>The two operations that advance the tail.\<close>

lemma ring_pop_correct:
  assumes inv: "ring_inv b" and ne: "b_count b \<noteq> 0"
    and b': "b_tail b' = b_tail b + 1" "b_head b' = b_head b" "b_count b' = b_count b - 1"
      "b_mask b' = b_mask b" "b_capacity b' = b_capacity b" "b_headA b' = b_headA b"
      "b_tailA b' = b_tail b'" "b_items b' = (b_items b)[slot_of b (b_tail b) := None]"
  shows "ring_inv b'" and "contents b' = tl (contents b)"
proof -
  from inv obtain k where k: "k < 63" "b_capacity b = 2 ^ k" "b_mask b = 2 ^ k - 1"
      "ring_cap b = 2 ^ k" "length (b_items b) = 2 ^ k" "b_head b = b_tail b + b_count b"
      "unat (b_count b) \<le> 2 ^ k" "b_headA b = b_head b"
      "\<forall>i<2 ^ k. unat (b_count b) \<le> i \<longrightarrow> ring_at b i = None"
    by (rule ring_invE)
  have cap: "ring_cap b' = ring_cap b" using b' by (simp add: ring_cap_def)
  have cnt: "unat (b_count b) = Suc (unat (b_count b'))"
    using ne b'(3) unat_count_pred[OF ne] by (simp add: unat_eq_0 unat_gt_0 Suc_pred')
  have at: "ring_at b' i = (if Suc i = ring_cap b then None else ring_at b (Suc i))"
    if "i < ring_cap b" for i
    using ring_at_advance[OF inv that b'(1,4,8)] .
  have "ring_at b' i = ring_at b (Suc i)" if "i < unat (b_count b')" for i
  proof -
    have "i < ring_cap b" using that cnt k(4,7) by linarith
    moreover have "Suc i = ring_cap b \<Longrightarrow> unat (b_count b') \<ge> ring_cap b" 
      using that by linarith
    ultimately show ?thesis using at[of i] cnt k(4,7) by auto
  qed
  then show "contents b' = tl (contents b)"
    by (simp add: contents_def cnt map_upt_Suc_front del: upt_Suc)
  have "\<forall>i<2 ^ k. unat (b_count b') \<le> i \<longrightarrow> ring_at b' i = None"
    using k(4,9) cnt at by auto
  with k cnt cap b' show "ring_inv b'"
    unfolding ring_inv_def by auto
qed

lemma ring_replace_correct:
  assumes inv: "ring_inv b" and full: "unat (b_count b) = ring_cap b"
    and b': "b_tail b' = b_tail b + 1" "b_head b' = b_head b + 1" "b_count b' = b_count b"
      "b_mask b' = b_mask b" "b_capacity b' = b_capacity b" "b_headA b' = b_head b'"
      "b_tailA b' = b_tail b'" "b_items b' = (b_items b)[slot_of b (b_head b) := x]"
  shows "ring_inv b'" and "contents b' = tl (contents b) @ [x]"
proof -
  from inv obtain k where k: "k < 63" "b_capacity b = 2 ^ k" "b_mask b = 2 ^ k - 1"
      "ring_cap b = 2 ^ k" "length (b_items b) = 2 ^ k" "b_head b = b_tail b + b_count b"
    by (rule ring_invE)
  have cap: "ring_cap b' = ring_cap b" using b' by (simp add: ring_cap_def)
  have "slot_of b (b_head b) = slot_of b (b_tail b)"
    using slot_of_head[OF inv] ring_at_wrap[OF inv] full by simp
  then have items: "b_items b' = (b_items b)[slot_of b (b_tail b) := x]" using b'(8) by simp
  have at: "ring_at b' i = (if Suc i = ring_cap b then x else ring_at b (Suc i))"
    if "i < ring_cap b" for i
    using ring_at_advance[OF inv that b'(1,4) items] .
  obtain n where n: "ring_cap b = Suc n" using k(4) by (metis not0_implies_Suc power_not_zero zero_neq_numeral)
  have "contents b' = map (ring_at b') [0..<n] @ [ring_at b' n]"
    using full n b'(3) by (simp add: contents_def)
  also have "map (ring_at b') [0..<n] = map (\<lambda>i. ring_at b (Suc i)) [0..<n]"
    using at n by simp
  also have "ring_at b' n = x" using at n by simp
  also have "map (\<lambda>i. ring_at b (Suc i)) [0..<n] = tl (contents b)"
    by (simp add: contents_def full n map_upt_Suc_front del: upt_Suc)
  finally show "contents b' = tl (contents b) @ [x]" .
  show "ring_inv b'"
    using k cap b' full unfolding ring_inv_def by auto
qed


text \<open>The condition variable and the closed flag are no part of the queue.\<close>

lemma ring_cond_frame [simp]:
  "ring_at (b\<lparr>b_cond := c\<rparr>) = ring_at b" "contents (b\<lparr>b_cond := c\<rparr>) = contents b"
  "ring_cap (b\<lparr>b_cond := c\<rparr>) = ring_cap b" "ring_inv (b\<lparr>b_cond := c\<rparr>) \<longleftrightarrow> ring_inv b"
  by (simp_all add: ring_at_def slot_of_def contents_def ring_cap_def ring_inv_def fun_eq_iff)

lemma ring_closed_frame [simp]:
  "ring_at (b\<lparr>b_closed := c\<rparr>) = ring_at b" "contents (b\<lparr>b_closed := c\<rparr>) = contents b"
  "ring_cap (b\<lparr>b_closed := c\<rparr>) = ring_cap b" "ring_inv (b\<lparr>b_closed := c\<rparr>) \<longleftrightarrow> ring_inv b"
  by (simp_all add: ring_at_def slot_of_def contents_def ring_cap_def ring_inv_def fun_eq_iff)

lemma ring_inv_length: "ring_inv b \<Longrightarrow> length (contents b) \<le> ring_cap b"
  by (simp add: ring_inv_def)

lemma ring_cap_pos: "ring_inv b \<Longrightarrow> 0 < ring_cap b"
  by (erule ring_invE) simp

lemma full_iff: "ring_inv b \<Longrightarrow> \<not> length (contents b) < ring_cap b \<longleftrightarrow> unat (b_count b) = ring_cap b"
  using ring_inv_length[of b] by simp

lemma Enqueue_loop_correct:
  assumes "ring_inv b" and "Enqueue_loop b x = (r, b')"
  shows "ring_inv b'"
    and "(r, contents b') = spec_enqueue Block (b_closed b) (ring_cap b) (contents b) x"
proof -
  have "ring_inv b' \<and> (r, contents b') = spec_enqueue Block (b_closed b) (ring_cap b) (contents b) x"
  proof (cases "b_closed b")
    case True
    with assms show ?thesis by (simp add: Enqueue_loop_def)
  next
    case open_: False
    show ?thesis
    proof (cases "unat (b_count b) < ring_cap b")
      case True
      then have "b' = ring_put b x" "r = Returned None"
        using assms open_ count_capacity_cmp(2)[OF assms(1)] by (auto simp: Enqueue_loop_def)
      with True open_ ring_put_correct[OF assms(1) True] show ?thesis by simp
    next
      case False
      then have "b_count b = b_capacity b"
        using count_capacity_cmp(2)[OF assms(1)] full_iff[OF assms(1)] by simp
      then have "b' = b\<lparr>b_cond := cond_Wait (b_cond b) x\<rparr>" "r = Waiting"
        using assms open_ by (auto simp: Enqueue_loop_def)
      with False open_ assms(1) show ?thesis by simp
    qed
  qed
  then show "ring_inv b'"
    and "(r, contents b') = spec_enqueue Block (b_closed b) (ring_cap b) (contents b) x"
    by blast+
qed

lemma Enqueue_correct:
  assumes inv: "ring_inv b" and enq: "Enqueue b x = (r, b')"
  shows "ring_inv b' \<and>
    (r, contents b') = spec_enqueue (b_policy b) (b_closed b) (ring_cap b) (contents b) x"
proof (cases "b_closed b")
  case True
  with assms show ?thesis by (simp add: Enqueue_def)
next
  case open_: False
  note cmp = count_capacity_cmp[OF inv]
  show ?thesis
  proof (cases "unat (b_count b) < ring_cap b")
    case True
    then have "b' = ring_put b x" "r = Returned None"
      using enq open_ cmp(1) by (auto simp: Enqueue_def)
    with True open_ ring_put_correct[OF inv True] show ?thesis by simp
  next
    case False
    then have full: "unat (b_count b) = ring_cap b" using full_iff[OF inv] by simp
    show ?thesis
    proof (cases "b_policy b")
      case Block
      with enq open_ False cmp(1) have "Enqueue_loop b x = (r, b')" by (simp add: Enqueue_def)
      from Enqueue_loop_correct[OF inv this] Block show ?thesis by simp
    next
      case DropOldest
      then have r: "r = Returned None" and b': "b' = snd (Enqueue b x)"
        using enq open_ False cmp(1) by (auto simp: Enqueue_def)
      have "ring_inv b'" and "contents b' = tl (contents b) @ [x]"
        by (rule ring_replace_correct[OF inv full, where x = x];
            use b' DropOldest open_ False cmp(1) in \<open>simp add: Enqueue_def\<close>)+
      with r open_ False DropOldest show ?thesis by simp
    qed (use enq open_ False cmp(1) inv in \<open>auto simp: Enqueue_def\<close>)
  qed
qed

lemma Enqueue_resume_correct:
  assumes "ring_inv b" and "Enqueue_resume b x = (r, b')"
  shows "ring_inv b' \<and> (r, contents b') = spec_enqueue Block (b_closed b) (ring_cap b) (contents b) x"
  using assms Enqueue_loop_correct[of "b\<lparr>b_cond := cond_Resume (b_cond b) x\<rparr>" x r b']
  unfolding Enqueue_resume_def by simp

text \<open>Fields no \<open>Enqueue\<close> writes.\<close>

lemma Enqueue_loop_frame [frame_simps]:
  "b_policy (snd (Enqueue_loop b x)) = b_policy b" "b_closed (snd (Enqueue_loop b x)) = b_closed b"
  "b_capacity (snd (Enqueue_loop b x)) = b_capacity b" "ring_cap (snd (Enqueue_loop b x)) = ring_cap b"
  by (simp_all add: Enqueue_loop_def)

lemma Enqueue_frame [frame_simps]:
  "b_policy (snd (Enqueue b x)) = b_policy b" "b_closed (snd (Enqueue b x)) = b_closed b"
  "b_capacity (snd (Enqueue b x)) = b_capacity b" "ring_cap (snd (Enqueue b x)) = ring_cap b"
  by (simp_all add: Enqueue_def Enqueue_loop_frame ring_cap_def split: OverflowPolicy.split)

lemma Enqueue_resume_frame [frame_simps]:
  "b_policy (snd (Enqueue_resume b x)) = b_policy b" "b_closed (snd (Enqueue_resume b x)) = b_closed b"
  "b_capacity (snd (Enqueue_resume b x)) = b_capacity b" "ring_cap (snd (Enqueue_resume b x)) = ring_cap b"
  by (simp_all add: Enqueue_resume_def Enqueue_loop_frame)

lemma Dequeue_correct:
  assumes inv: "ring_inv b" and deq: "Dequeue b = ((x, ok), b')"
  shows "ring_inv b' \<and> (ok \<longleftrightarrow> contents b \<noteq> []) \<and> contents b' = tl (contents b) \<and>
    (ok \<longrightarrow> x = hd (contents b)) \<and> (\<not> ok \<longrightarrow> x = None \<and> b' = b)"
proof (cases "b_count b = 0")
  case True
  with deq inv show ?thesis by (auto simp: Dequeue_def contents_def)
next
  case False
  then obtain n where n: "unat (b_count b) = Suc n" by (metis not0_implies_Suc unat_eq_zero)
  have b': "b' = snd (Dequeue b)" and x: "ok" "x = ring_at b 0"
    using deq False by (auto simp: Dequeue_def ring_at_0)
  have "ring_inv b'" and "contents b' = tl (contents b)"
    by (rule ring_pop_correct[OF inv False]; use inv b' False in \<open>simp add: Dequeue_def ring_inv_def\<close>)+
  moreover have "contents b \<noteq> []" "hd (contents b) = ring_at b 0"
    by (simp_all add: contents_def n map_upt_Suc_front del: upt_Suc)
  ultimately show ?thesis using x by simp
qed

lemma DequeueBatch_loop_frame:
  "DequeueBatch_loop n (b\<lparr>b_count := c, b_tailA := t\<rparr>) =
     (let (xs, b') = DequeueBatch_loop n b in (xs, b'\<lparr>b_count := c, b_tailA := t\<rparr>))"
proof (induction n arbitrary: b)
  case (Suc n)
  let ?b = "b\<lparr>b_items := (b_items b)[slot_of b (b_tail b) := None], b_tail := b_tail b + 1\<rparr>"
  let ?u = "b\<lparr>b_count := c, b_tailA := t\<rparr>"
  have read: "b_items ?u ! slot_of ?u (b_tail ?u) = b_items b ! slot_of b (b_tail b)"
    by (simp add: slot_of_def)
  have step: "?u\<lparr>b_items := (b_items ?u)[slot_of ?u (b_tail ?u) := None], b_tail := b_tail ?u + 1\<rparr>
      = ?b\<lparr>b_count := c, b_tailA := t\<rparr>"
    by (rule buffer.equality) (simp_all add: slot_of_def)
  show ?case
    unfolding DequeueBatch_loop.simps(2) read step Suc.IH by (simp add: Let_def split: prod.splits)
qed simp

lemma DequeueBatch_loop_correct:
  assumes "ring_inv b" and "n \<le> unat (b_count b)" and "DequeueBatch_loop n b = (xs, b')"
  shows "xs = take n (contents b) \<and>
    ring_inv (b'\<lparr>b_count := b_count b - of_nat n, b_tailA := b_tail b'\<rparr>) \<and>
    contents (b'\<lparr>b_count := b_count b - of_nat n, b_tailA := b_tail b'\<rparr>) = drop n (contents b) \<and>
    b_capacity b' = b_capacity b \<and> b_policy b' = b_policy b \<and> b_closed b' = b_closed b \<and>
    b_cond b' = b_cond b \<and> b_headA b' = b_headA b \<and> b_tail b' = b_tail b + of_nat n"
  using assms
proof (induction n arbitrary: b xs b')
  case 0
  moreover from 0 have "b\<lparr>b_tailA := b_tail b\<rparr> = b" by (simp add: ring_inv_def)
  ultimately show ?case by simp
next
  case (Suc n)
  let ?b1 = "b\<lparr>b_items := (b_items b)[slot_of b (b_tail b) := None], b_tail := b_tail b + 1\<rparr>"
  let ?c1 = "?b1\<lparr>b_count := b_count b - 1, b_tailA := b_tail b + 1\<rparr>"
  have ne: "b_count b \<noteq> 0" using Suc.prems(2) by auto
  obtain ys where ys: "DequeueBatch_loop n ?b1 = (ys, b')" and xs: "xs = ring_at b 0 # ys"
    using Suc.prems(3) by (auto simp: ring_at_0 Let_def split: prod.splits)
  have c1: "ring_inv ?c1" "contents ?c1 = tl (contents b)"
    by (rule ring_pop_correct[OF Suc.prems(1) ne]; simp)+
  have n: "n \<le> unat (b_count ?c1)"
    using Suc.prems(2) unat_count_pred[OF ne] by simp
  have "DequeueBatch_loop n ?c1 = (ys, b'\<lparr>b_count := b_count b - 1, b_tailA := b_tail b + 1\<rparr>)"
    using DequeueBatch_loop_frame[where n = n and b = ?b1 and c = "b_count b - 1" and t = "b_tail b + 1"] ys by simp
  note IH = Suc.IH[OF c1(1) n this]
  obtain m where "unat (b_count b) = Suc m" using Suc.prems(2) by (cases "unat (b_count b)") auto
  then have "contents b = ring_at b 0 # tl (contents b)"
    by (simp add: contents_def map_upt_Suc_front del: upt_Suc)
  then have "take (Suc n) (contents b) = ring_at b 0 # take n (tl (contents b))"
    "drop (Suc n) (contents b) = drop n (tl (contents b))"
    by (metis take_Suc_Cons, metis drop_Suc)
  with IH xs c1(2) show ?case by (elim conjE) (simp add: algebra_simps)
qed

lemma batch_size_arith:
  fixes l c :: int
  assumes "l \<noteq> 0" and "int n = c"
  shows "(if l < 0 then n else min (nat l) n) = nat (if 0 < l \<and> l < c then l else c)"
  using assms by auto

lemma DequeueBatch_correct:
  assumes inv: "ring_inv b" and deq: "DequeueBatch b limit = (xs, b')"
  shows "ring_inv b' \<and> xs = take (batch_size limit (length (contents b))) (contents b) \<and>
    contents b' = drop (batch_size limit (length (contents b))) (contents b)"
proof (cases "b_count b = 0 \<or> limit = 0")
  case True
  with deq inv show ?thesis by (auto simp: DequeueBatch_def contents_def batch_size_def)
next
  case False
  let ?n = "batch_size limit (length (contents b))"
  let ?bs = "if 0 < sint limit \<and> sint limit < sint (b_count b) then limit else b_count b"
  from inv obtain k where k: "k < 63" "ring_cap b = 2 ^ k" "unat (b_count b) \<le> 2 ^ k"
    by (rule ring_invE)
  have "(2::nat) ^ k < 2 ^ 63" using k(1) by (rule power_strict_increasing) simp
  then have sc: "sint (b_count b) = uint (b_count b)" using k(3) by (simp only: sint_unat_small)
  have l0: "sint limit \<noteq> 0" using False by (simp add: signed_eq_0_iff)
  have uc: "int (unat (b_count b)) = sint (b_count b)" by (simp add: sc)
  have n: "?n = nat (sint ?bs)"
    using batch_size_arith[OF l0 uc]
    by (simp only: batch_size_def length_contents if_distrib [of sint])
  have "0 \<le> sint (b_count b)" using sc uint_ge_0[of "b_count b"] by simp
  then have "0 \<le> sint ?bs" by simp
  then have bs: "nat (sint ?bs) = ?n" "?bs = of_nat ?n" using n by simp_all
  obtain ys b1 where l: "DequeueBatch_loop ?n b = (ys, b1)" by (cases "DequeueBatch_loop ?n b")
  have "?n \<le> unat (b_count b)" by (simp add: batch_size_def)
  note c = DequeueBatch_loop_correct[OF inv this l]
  have "xs = ys" "b' = b1\<lparr>b_count := b_count b - of_nat ?n, b_tailA := b_tail b1, b_cond := cond_Broadcast (b_cond b)\<rparr>"
    using deq False l bs by (auto simp: DequeueBatch_def Let_def)
  with c show ?thesis
    using ring_cond_frame[where b = "b1\<lparr>b_count := b_count b - of_nat ?n, b_tailA := b_tail b1\<rparr>" and c = "cond_Broadcast (b_cond b)"]
    by (elim conjE) simp
qed

lemma ring_Close_correct:
  "ring_inv (ring_Close b) \<longleftrightarrow> ring_inv b" "contents (ring_Close b) = contents b"
  "ring_cap (ring_Close b) = ring_cap b" "b_closed (ring_Close b)"
  "b_policy (ring_Close b) = b_policy b"
  using ring_cond_frame[where b = "b\<lparr>b_closed := True\<rparr>" and c = "cond_Broadcast (b_cond b)"]
  by (simp_all add: ring_Close_def)


section \<open>Construction\<close>

text \<open>
  Bit \<open>i\<close> of \<open>smear n x\<close> is set when one of the bits \<open>i .. i+n-1\<close> of \<open>x\<close> is: each
  \<open>v |= v >> n\<close> doubles \<open>n\<close>.
\<close>

lemma signed_drop_bit_pos:
  fixes w :: goint
  assumes "\<not> bit w 63"
  shows "signed_drop_bit n w = drop_bit n w"
  by (rule bit_word_eqI) (use assms in \<open>auto simp: bit_signed_drop_bit_iff bit_drop_bit_eq le_antisym
      dest: bit_imp_le_length\<close>)

lemma smear_double:
  fixes x y :: goint
  assumes "n + n = m" and "\<And>i. bit y i \<longleftrightarrow> (\<exists>j<n. bit x (i + j))" and "\<not> bit y 63"
  shows "bit (y OR signed_drop_bit n y) i \<longleftrightarrow> (\<exists>j<m. bit x (i + j))"
proof -
  have "bit (y OR signed_drop_bit n y) i \<longleftrightarrow> (\<exists>j<n. bit x (i + j)) \<or> (\<exists>j<n. bit x (n + i + j))"
    using assms by (simp add: signed_drop_bit_pos bit_or_iff bit_drop_bit_eq)
  also have "\<dots> \<longleftrightarrow> (\<exists>j<n + n. bit x (i + j))"
  proof (intro iffI)
    assume "\<exists>j<n + n. bit x (i + j)"
    then obtain j where j: "j < n + n" "bit x (i + j)" by blast
    show "(\<exists>j<n. bit x (i + j)) \<or> (\<exists>j<n. bit x (n + i + j))"
    proof (cases "j < n")
      case False
      with j have "j - n < n \<and> bit x (n + i + (j - n))" by (simp add: ac_simps)
      then show ?thesis by blast
    qed (use j in blast)
  next
    assume "(\<exists>j<n. bit x (i + j)) \<or> (\<exists>j<n. bit x (n + i + j))"
    then obtain j where "(j < n \<and> bit x (i + j)) \<or> (j < n \<and> bit x (i + (n + j)))"
      by (auto simp: ac_simps)
    then show "\<exists>j<n + n. bit x (i + j)" 
      by (metis add_strict_left_mono trans_less_add1)
  qed
  finally show ?thesis using assms(1) by simp
qed

lemma nextPowerOfTwo_smear: "1 < sint v \<Longrightarrow> nextPowerOfTwo v = smear (v - 1) + 1"
  by (simp add: nextPowerOfTwo_def smear_def Let_def)

lemma bit_smear:
  assumes small: "\<And>i. bit x i \<Longrightarrow> i < 32"
  shows "bit (smear x) i \<longleftrightarrow> (\<exists>j<32. bit x (i + j))"
proof -
  have top: "\<not> bit y 63" if "\<And>i. bit y i \<longleftrightarrow> (\<exists>j<n. bit x (i + j))" for n and y :: goint
    using that small by fastforce
  have e: "(1::nat) + 1 = 2" "(2::nat) + 2 = 4" "(4::nat) + 4 = 8" "(8::nat) + 8 = 16"
    "(16::nat) + 16 = 32" by simp_all
  have b1: "bit x i \<longleftrightarrow> (\<exists>j<1. bit x (i + j))" for i by simp
  note b2 = smear_double[OF e(1) b1 top[OF b1]]
  note b4 = smear_double[OF e(2) b2 top[OF b2]]
  note b8 = smear_double[OF e(3) b4 top[OF b4]]
  note b16 = smear_double[OF e(4) b8 top[OF b8]]
  note b32 = smear_double[OF e(5) b16 top[OF b16]]
  show ?thesis unfolding smear_def Let_def by (rule b32)
qed

lemma bit_top:
  fixes x :: goint
  assumes "2 ^ m \<le> unat x" and "unat x < 2 ^ Suc m"
  shows "bit x m" and "m < i \<Longrightarrow> \<not> bit x i"
proof -
  have b: "bit x i \<longleftrightarrow> odd (unat x div 2 ^ i)" for i
  proof -
    have "bit x i \<longleftrightarrow> bit (unat x) i" by (simp add: bit_unsigned_iff)
    then show ?thesis by (simp add: bit_iff_odd)
  qed
  have "unat x div 2 ^ m = 1"
    using assms by (simp add: div_nat_eqI)
  then show "bit x m" by (simp add: b)
  assume "m < i"
  then have "(2::nat) ^ Suc m \<le> 2 ^ i" by (intro power_increasing) auto
  then have "unat x div 2 ^ i = 0" using assms(2) by simp
  then show "\<not> bit x i" by (simp add: b)
qed

lemma smear_eq:
  assumes m: "2 ^ m \<le> unat x" "unat x < 2 ^ Suc m" and "m < 32"
  shows "smear x + 1 = 2 ^ Suc m"
proof -
  have small: "i < 32" if "bit x i" for i
    using bit_top(2)[OF m, of i] that assms(3) by (meson le_less_trans not_less)
  have "bit (smear x) i \<longleftrightarrow> i < Suc m" for i
  proof -
    have "(\<exists>j<32. bit x (i + j)) \<longleftrightarrow> i \<le> m"
    proof
      assume "i \<le> m"
      then have "m - i < 32 \<and> bit x (i + (m - i))" using bit_top(1)[OF m] assms(3) by simp
      then show "\<exists>j<32. bit x (i + j)" by blast
    next
      assume "\<exists>j<32. bit x (i + j)"
      then obtain j where "bit x (i + j)" by blast
      then have "i + j \<le> m" using bit_top(2)[OF m, of "i + j"] by (meson not_le)
      then show "i \<le> m" by simp
    qed
    then show ?thesis using bit_smear[OF small, where i = i] by (simp add: less_Suc_eq_le)
  qed
  then have "smear x = mask (Suc m)"
    using assms(3) by (intro bit_word_eqI) (simp add: bit_mask_iff)
  then show ?thesis by (simp only: mask_eq_exp_minus_1 diff_add_cancel)
qed

lemma int_unat_pred:
  fixes v :: goint
  assumes "1 < sint v"
  shows "int (unat (v - 1)) = sint v - 1"
proof -
  have lt: "sint v < 2 ^ 63" using sint_lt[of v] by simp
  have "v - 1 = word_of_int (sint v - 1)" by simp
  then have "uint (v - 1) = take_bit 64 (sint v - 1)" by (simp only: unsigned_of_int) simp
  also have "\<dots> = sint v - 1" using assms lt by (intro take_bit_int_eq_self) auto
  finally show ?thesis by simp
qed

lemma nextPowerOfTwo_correct:
  assumes "sint v \<le> 2 ^ 32"
  shows "\<exists>k\<le>32. nextPowerOfTwo v = 2 ^ k \<and> sint v \<le> 2 ^ k \<and> (\<forall>j. sint v \<le> 2 ^ j \<longrightarrow> k \<le> j)"
proof (cases "sint v \<le> 1")
  case True
  then have "nextPowerOfTwo v = 2 ^ 0 \<and> sint v \<le> 2 ^ 0 \<and> (\<forall>j. sint v \<le> 2 ^ j \<longrightarrow> 0 \<le> j)"
    by (simp add: nextPowerOfTwo_def)
  then show ?thesis by blast
next
  case False
  define n where "n = unat (v - 1)"
  have n: "int n = sint v - 1"
    unfolding n_def using False by (intro int_unat_pred) simp
  have "1 \<le> n" using n False by linarith
  then obtain m where m: "2 ^ m \<le> n" "n < 2 ^ Suc m"
    using ex_power_ivl1[of 2 n] by auto
  have "m < 32"
  proof (rule ccontr)
    assume "\<not> m < 32"
    then have "(2::nat) ^ 32 \<le> 2 ^ m" by (intro power_increasing) auto
    then have "2 ^ 32 \<le> n" using m(1) by linarith
    then show False using n assms by simp
  qed
  with m have eq: "nextPowerOfTwo v = 2 ^ Suc m"
    using smear_eq[of m "v - 1"] nextPowerOfTwo_smear[of v] False by (simp add: n_def del: power_Suc)
  have le: "sint v \<le> 2 ^ Suc m" 
  proof -
    have "int n < int (2 ^ Suc m)" using m(2) by (simp only: of_nat_less_iff)
    then show ?thesis using n by simp
  qed 
  have "Suc m \<le> j" if "sint v \<le> 2 ^ j" for j
  proof (rule ccontr)
    assume "\<not> Suc m \<le> j"
    then have "(2::nat) ^ j \<le> 2 ^ m" by (intro power_increasing) auto
    then have "2 ^ j \<le> n" using m(1) by linarith
    then have "int (2 ^ j) \<le> sint v - 1" using n by (metis of_nat_le_iff)
    with that show False by simp
  qed
  with eq le \<open>m < 32\<close> show ?thesis by (intro exI[of _ "Suc m"]) simp
qed

lemma ring_New_ok:
  assumes "sint c \<le> 2 ^ 32"
  shows "\<exists>(b :: 'a buffer) k. k \<le> 32 \<and> ring_New c p = Inr b \<and> ring_inv b \<and> contents b = [] \<and> ring_cap b = 2 ^ k \<and>
    sint c \<le> int (ring_cap b) \<and> b_policy b = p \<and> \<not> b_closed b \<and> b_cond b = cond_New"
proof -
  obtain k where k: "k \<le> 32" "nextPowerOfTwo c = 2 ^ k" "sint c \<le> 2 ^ k"
    using nextPowerOfTwo_correct[OF assms] by blast
  have unat: "unat (2 ^ k :: goint) = 2 ^ k" using k(1) by (intro unat_pow2) simp
  have "(2::nat) ^ k < 2 ^ 63" using k(1) by (intro power_strict_increasing) auto
  then have "sint (2 ^ k :: goint) = uint (2 ^ k :: goint)" by (intro sint_unat_small) (simp only: unat)
  then have "\<not> sint (2 ^ k :: goint) < 0" using uint_ge_0[of "2 ^ k :: goint"] by simp
  define b :: "'a buffer" where "b = \<lparr>b_items = replicate (2 ^ k) None, b_head = 0, b_tail = 0,
    b_count = 0, b_capacity = 2 ^ k, b_mask = 2 ^ k - 1, b_policy = p, b_closed = False,
    b_headA = 0, b_tailA = 0, b_cond = cond_New\<rparr>"
  have new: "ring_New c p = Inr b"
    using \<open>\<not> sint (2 ^ k :: goint) < 0\<close> k(2) unat by (simp add: ring_New_def b_def Let_def)
  have cap: "ring_cap b = 2 ^ k" using unat by (simp add: ring_cap_def b_def)
  have slot: "slot_of b w < 2 ^ k" for w
    using k(1) by (simp add: slot_of_def unat_and_mask b_def)
  have "ring_inv b"
    unfolding ring_inv_def using cap k(1) slot
    by (intro conjI exI[of _ k]) (simp_all add: ring_at_def b_def)
  moreover have "contents b = []" by (simp add: contents_def b_def)
  ultimately show ?thesis using new cap k by (intro exI[of _ b] exI[of _ k]) (simp add: b_def)
qed

lemma ring_New_Inr:
  fixes b :: "'a buffer"
  assumes "ring_New c p = Inr b" and "sint c \<le> 2 ^ 32"
  shows "ring_inv b" "contents b = []" "b_policy b = p" "\<not> b_closed b" "b_cond b = cond_New"
proof -
  obtain b' :: "'a buffer" where b': "ring_New c p = Inr b'" "ring_inv b'" "contents b' = []"
      "b_policy b' = p" "\<not> b_closed b'" "b_cond b' = cond_New"
    using ring_New_ok[OF assms(2), of p] by blast
  then have "b' = b" using assms(1) by simp
  with b' show "ring_inv b" "contents b = []" "b_policy b = p" "\<not> b_closed b" "b_cond b = cond_New"
    by simp_all
qed

lemma EnqueueBatch_from_correct:
  assumes "ring_inv b" and "\<not> b_closed b" and "b_policy b \<noteq> DropNewest" "b_policy b \<noteq> DropOldest"
    and "EnqueueBatch_from i b xs = (r, b')"
  shows "ring_inv b' \<and> (let free = ring_cap b - length (contents b) in
     contents b' = contents b @ take free xs \<and>
     r = (if length xs \<le> free then BatchReturned (i + length xs) None
          else if b_policy b = Block then BatchWaiting (i + free)
          else BatchReturned (i + free) (Some ErrBufferFull)))"
  using assms
proof (induction i b xs rule: EnqueueBatch_from.induct)
  case (2 i b x xs)
  obtain r1 b1 where e: "Enqueue b x = (r1, b1)" by (cases "Enqueue b x")
  note c = Enqueue_correct[OF "2.prems"(1) e]
  have fr: "b_policy b1 = b_policy b" "b_closed b1 = b_closed b" "ring_cap b1 = ring_cap b"
    using Enqueue_frame[of b x] e by simp_all
  show ?case
  proof (cases "length (contents b) < ring_cap b")
    case True
    then have r1: "r1 = Returned None" "contents b1 = contents b @ [x]" using c "2.prems"(2) by auto
    then have "EnqueueBatch_from (Suc i) b1 xs = (r, b')" using "2.prems"(5) e by simp
    from "2.IH"(1)[OF e[symmetric] r1(1) refl] c fr "2.prems"(2-4) this
    show ?thesis using True r1 fr by (auto simp: Let_def take_Cons' Suc_diff_Suc split: if_splits)
  next
    case False
    then have "contents b1 = contents b"
      "r1 = (if b_policy b = Block then Waiting else Returned (Some ErrBufferFull))"
      using c "2.prems"(2-4) by (cases "b_policy b"; simp)+
    with False c e "2.prems"(5) show ?thesis by (auto split: if_splits)
  qed
qed simp

lemma DequeueBatch_frame [frame_simps]:
  "b_policy (snd (DequeueBatch b n)) = b_policy b" "b_closed (snd (DequeueBatch b n)) = b_closed b"
  "b_capacity (snd (DequeueBatch b n)) = b_capacity b" "ring_cap (snd (DequeueBatch b n)) = ring_cap b"
proof -
  have "b_policy (snd (DequeueBatch_loop m b)) = b_policy b \<and>
    b_closed (snd (DequeueBatch_loop m b)) = b_closed b \<and>
    b_capacity (snd (DequeueBatch_loop m b)) = b_capacity b" for m
    by (induction m arbitrary: b) (simp_all add: Let_def split_def)
  then show "b_policy (snd (DequeueBatch b n)) = b_policy b" "b_closed (snd (DequeueBatch b n)) = b_closed b"
    "b_capacity (snd (DequeueBatch b n)) = b_capacity b" "ring_cap (snd (DequeueBatch b n)) = ring_cap b"
    by (simp_all add: DequeueBatch_def Let_def split_def ring_cap_def)
qed

interpretation ring: bounded_fifo ring_lossless contents ring_enq DequeueBatch ring_cap
proof
  fix b :: "'a buffer" and x n
  show "ring_cap (snd (ring_enq b x)) = ring_cap b"
    using Enqueue_frame[of b x] by (simp add: ring_enq_def split_def)
  show "ring_cap (snd (DequeueBatch b n)) = ring_cap b" by (rule DequeueBatch_frame)
  assume b: "ring_lossless b"
  then show "length (contents b) \<le> ring_cap b" using ring_inv_length by blast
  obtain r b' where e: "Enqueue b x = (r, b')" by (cases "Enqueue b x")
  note c = Enqueue_correct[OF _ e]
  show "ring_lossless (snd (ring_enq b x))"
    using b c e Enqueue_frame[of b x] by (simp add: ring_enq_def)
  show "fst (ring_enq b x) \<longleftrightarrow> length (contents b) < ring_cap b"
    and "contents (snd (ring_enq b x)) = (if fst (ring_enq b x) then contents b @ [x] else contents b)"
    using b c e by (cases "b_policy b"; auto simp: ring_enq_def split: if_splits)+
  obtain ys b'' where d: "DequeueBatch b n = (ys, b'')" by (cases "DequeueBatch b n")
  show "ring_lossless (snd (DequeueBatch b n))"
    using b DequeueBatch_correct[OF _ d] d DequeueBatch_frame[of b n] by simp
  show "fst (DequeueBatch b n) @ contents (snd (DequeueBatch b n)) = contents b"
    using b DequeueBatch_correct[OF _ d] d by simp
qed

text \<open>Blocked goroutines: an \<open>Enqueue\<close> adds itself when it has to wait, and nothing else does.\<close>

lemma cond_parked [simp]:
  "mset (waiting (cond_Signal c)) + mset (woken (cond_Signal c)) = mset (waiting c) + mset (woken c)"
  "mset (waiting (cond_Broadcast c)) + mset (woken (cond_Broadcast c)) = mset (waiting c) + mset (woken c)"
  "mset (waiting (cond_Wait c x)) + mset (woken (cond_Wait c x)) = add_mset x (mset (waiting c) + mset (woken c))"
  by (auto simp: cond_defs split: list.split)

lemma Enqueue_loop_parked:
  "parked (snd (Enqueue_loop b x)) = parked b + (if fst (Enqueue_loop b x) = Waiting then {#x#} else {#})"
  by (simp add: parked_def Enqueue_loop_def ring_put_def)

lemma Enqueue_parked:
  "parked (snd (Enqueue b x)) = parked b + (if fst (Enqueue b x) = Waiting then {#x#} else {#})"
  using Enqueue_loop_parked[of b x]
  by (auto simp: parked_def Enqueue_def ring_put_def split: OverflowPolicy.split)

lemma Enqueue_resume_parked:
  assumes "x \<in> set (woken (b_cond b))"
  shows "add_mset x (parked (snd (Enqueue_resume b x))) =
    parked b + (if fst (Enqueue_resume b x) = Waiting then {#x#} else {#})"
proof -
  have "add_mset x (parked (b\<lparr>b_cond := cond_Resume (b_cond b) x\<rparr>)) = parked b"
    using assms by (simp add: parked_def cond_Resume_def insert_DiffM)
  then show ?thesis
    using Enqueue_loop_parked[of "b\<lparr>b_cond := cond_Resume (b_cond b) x\<rparr>" x]
    by (simp add: Enqueue_resume_def flip: add_mset_add_single)
qed

lemma DequeueBatch_loop_cond: "b_cond (snd (DequeueBatch_loop n b)) = b_cond b"
  by (induction n arbitrary: b) (simp_all add: split_def Let_def)

lemma DequeueBatch_parked: "parked (snd (DequeueBatch b n)) = parked b"
  by (simp add: parked_def DequeueBatch_def split_def Let_def)

lemma ring_Close_parked: "parked (ring_Close b) = parked b"
  by (simp add: parked_def ring_Close_def)

lemma ring_Len_exact: "ring_inv b \<Longrightarrow> ring_Len b = of_nat (length (contents b))"
  by (simp add: ring_Len_def Len_loads_def ring_inv_def)

section \<open>Properties\<close>

lemma sample_wrapped_inv: "ring_inv sample_wrapped"
  unfolding ring_inv_def
  by (intro conjI exI[of _ "1::nat"])
    (auto simp: sample_wrapped_def ring_cap_def)

lemma sample_wrapped_contents: "contents sample_wrapped = [Some 10, Some 20]"
  by (simp add: contents_def sample_wrapped_def ring_at_def slot_of_def upt_rec)

text \<open>C16. \<open>Enqueue\<close> implements the bounded queue for every overflow policy: on any buffer that
  satisfies the invariant (cursors that have wrapped past \<open>2^64\<close> included) it keeps the
  invariant, and its result and the new contents are those of \<open>spec_enqueue\<close>: refused once
  closed, appended while there is room, and on a full buffer parked, ignored, replacing the
  oldest, or refused.\<close>

theorem enqueue_refines:
  assumes "ring_inv b" and "Enqueue b x = (r, b')"
  shows "ring_inv b' \<and>
    (r, contents b') = spec_enqueue (b_policy b) (b_closed b) (ring_cap b) (contents b) x"
  using assms by (rule Enqueue_correct)

theorem enqueue_refines_witness:
  "contents (snd (Enqueue sample_wrapped (Some 30))) = [Some 20, Some 30]"
proof -
  obtain r b' where e: "Enqueue sample_wrapped (Some 30) = (r, b')"
    by (cases "Enqueue sample_wrapped (Some 30)")
  from enqueue_refines[OF sample_wrapped_inv e] show ?thesis
    by (simp add: e sample_wrapped_contents) (simp add: sample_wrapped_def ring_cap_def)
qed

text \<open>\<open>DequeueBatch max\<close> removes the oldest \<open>max\<close> items in order (all of them when there
  are fewer or when \<open>max\<close> is negative, none when it is 0), leaves the rest in order, clears
  the slots it empties and keeps the invariant.\<close>

theorem dequeue_batch_refines:
  assumes "ring_inv b" and "DequeueBatch b limit = (xs, b')"
  shows "ring_inv b' \<and> xs = take (batch_size limit (length (contents b))) (contents b) \<and>
    contents b' = drop (batch_size limit (length (contents b))) (contents b)"
  using assms by (rule DequeueBatch_correct)

theorem dequeue_batch_refines_witness:
  "fst (DequeueBatch sample_wrapped (- 1)) = [Some 10, Some 20] \<and>
   contents (snd (DequeueBatch sample_wrapped (- 1))) = []"
proof -
  obtain xs b' where d: "DequeueBatch sample_wrapped (- 1) = (xs, b')"
    by (cases "DequeueBatch sample_wrapped (- 1)")
  from dequeue_batch_refines[OF sample_wrapped_inv d] show ?thesis
    by (simp add: d sample_wrapped_contents batch_size_def)
qed

text \<open>\<open>EnqueueBatch\<close> on an open buffer that does not drop: it inserts a prefix of the
  batch, exactly as many items as there are free slots, in order; it reports the whole batch
  when everything fits, and otherwise stops at the first item that does not fit, parked
  there (\<open>Block\<close>) or returning its index with \<open>ErrBufferFull\<close>.\<close>

theorem enqueue_batch_prefix:
  assumes "ring_inv b" and "\<not> b_closed b" and "b_policy b \<noteq> DropNewest" "b_policy b \<noteq> DropOldest"
    and "EnqueueBatch b xs = (r, b')"
  shows "ring_inv b' \<and> (let free = ring_cap b - length (contents b) in
     contents b' = contents b @ take free xs \<and>
     r = (if length xs \<le> free then BatchReturned (length xs) None
          else if b_policy b = Block then BatchWaiting free
          else BatchReturned free (Some ErrBufferFull)))"
  using EnqueueBatch_from_correct[OF assms(1-4), of 0 xs r b'] assms(5)
  unfolding EnqueueBatch_def by (simp only: add_0)

theorem enqueue_batch_prefix_witness:
  "\<exists>b r b'. ring_New 3 Reject = Inr b \<and> EnqueueBatch b (map Some [1::nat, 2, 3, 4, 5]) = (r, b') \<and>
     r = BatchReturned 4 (Some ErrBufferFull) \<and> contents b' = map Some [1, 2, 3, 4]"
proof -
  have n: "nextPowerOfTwo 3 = 4" by (simp add: nextPowerOfTwo_def)
  then obtain b :: "nat buffer" where b: "ring_New 3 Reject = Inr b" "ring_cap b = 4"
    by (simp add: ring_New_def Let_def ring_cap_def)
  note f = ring_New_Inr[OF b(1)]
  obtain r b' where e: "EnqueueBatch b (map Some [1, 2, 3, 4, 5]) = (r, b')"
    by (cases "EnqueueBatch b (map Some [1, 2, 3, 4, 5])")
  have "r = BatchReturned 4 (Some ErrBufferFull) \<and> contents b' = map Some [1, 2, 3, 4]"
    using enqueue_batch_prefix[OF _ _ _ _ e] f b by (simp add: Let_def)
  with b e show ?thesis by blast
qed

text \<open>\<open>nextPowerOfTwo\<close> returns, for every requested size up to \<open>2^32\<close> (zero and negative
  sizes included), the least power of two that is at least the requested size.\<close>

theorem next_power_of_two_least:
  assumes "sint v \<le> 2 ^ 32"
  shows "\<exists>k\<le>32. nextPowerOfTwo v = 2 ^ k \<and> sint v \<le> 2 ^ k \<and> (\<forall>j. sint v \<le> 2 ^ j \<longrightarrow> k \<le> j)"
  using assms by (rule nextPowerOfTwo_correct)

theorem next_power_of_two_least_witness:
  "nextPowerOfTwo 1000 = 1024 \<and> (\<exists>k\<le>32. nextPowerOfTwo 1000 = 2 ^ k \<and> (1000::int) \<le> 2 ^ k)"
proof -
  have h: "sint (1000 :: goint) \<le> 2 ^ 32" by simp
  show ?thesis using next_power_of_two_least[OF h] by (simp add: nextPowerOfTwo_def) blast
qed

text \<open>The shift cascade has no step for 32 bits, so beyond \<open>2^33\<close> the \<open>capacity\<close> need not
  be a power of two: a requested size of \<open>2^33 + 2\<close> gives \<open>2^34 - 2\<close>, whose mask aliases
  different cursors of one window to the same slot.\<close>

theorem next_power_of_two_large:
  "nextPowerOfTwo (2 ^ 33 + 2) = 2 ^ 34 - 2 \<and>
   (0::goint) AND (nextPowerOfTwo (2 ^ 33 + 2) - 1) = 2 AND (nextPowerOfTwo (2 ^ 33 + 2) - 1)"
  by (simp add: nextPowerOfTwo_def)

text \<open>Backpressure: on an open buffer that does not drop, for any sequence of \<open>Enqueue\<close> and
  \<open>DequeueBatch\<close> calls starting empty, the items accepted and not yet handed out never
  exceed the capacity, and the items handed out are a prefix of the accepted ones.\<close>

theorem ring_backlog_bounded:
  assumes "ring_inv b" "\<not> b_closed b" "b_policy b \<noteq> DropNewest" "b_policy b \<noteq> DropOldest"
    and "contents b = []" and "run_queue ring_enq DequeueBatch b ops = (acc, out, b')"
  shows "length acc \<le> length out + ring_cap b \<and> out = take (length out) acc"
  using assms ring.run_backlog[of b ops acc out b'] ring.run_prefix[of b ops acc out b'] by blast

theorem ring_backlog_bounded_witness:
  "\<exists>b acc out b'. ring_New 1 Reject = Inr b \<and>
     run_queue ring_enq DequeueBatch b [Put (Some (1::nat)), Put (Some 2), Take 5] = (acc, out, b') \<and>
     length acc \<le> length out + ring_cap b \<and> out = take (length out) acc"
proof -
  obtain b :: "nat buffer" where b: "ring_New 1 Reject = Inr b"
    by (simp add: ring_New_def nextPowerOfTwo_def Let_def)
  note n = ring_New_Inr[OF b]
  let ?run = "run_queue ring_enq DequeueBatch b [Put (Some 1), Put (Some 2), Take 5]"
  obtain acc out b' where r: "?run = (acc, out, b')" by (cases ?run)
  from ring_backlog_bounded[OF _ _ _ _ _ r] n have
    "length acc \<le> length out + ring_cap b \<and> out = take (length out) acc" by simp
  with b r show ?thesis by blast
qed

end
