(* ===== verification/Types.thy ===== *)
theory Types
  imports Ring_Buffer
begin

text \<open>
  The data the pipeline works on: \<open>src/ringq/types.go\<close>, \<open>config.go\<close>, \<open>hooks.go\<close>,
  \<open>transport.go\<close>, \<open>codec.go\<close> and \<open>handler.go\<close>.

  Structs are records with the source's field names behind a prefix, \<open>Action\<close> is the
  enumeration with one more constructor for the other values of its \<open>int\<close> type, \<open>error\<close>
  values are the datatype \<open>go_error\<close> (wrapped errors keep what they wrap). A
  \<open>map[string]string\<close> is \<open>smap\<close>: \<open>None\<close> is the nil map. User code (handlers, hooks,
  codecs) is a parameter: a handler is a function over a world \<open>'h\<close> it may change, a hook is
  present or nil and its calls are recorded as \<open>hook_event\<close>s.
\<close>

section \<open>Maps and errors\<close>

type_synonym smap = "(string \<rightharpoonup> string) option"

text \<open>\<open>v, ok := m[k]\<close>: reading a nil map finds nothing.\<close>

definition smap_get :: "smap \<Rightarrow> string \<Rightarrow> string option" where
  "smap_get m k = (case m of None \<Rightarrow> None | Some f \<Rightarrow> f k)"

text \<open>\<open>m[k]\<close>: the zero value where there is no entry.\<close>

definition smap_val :: "smap \<Rightarrow> string \<Rightarrow> string" where
  "smap_val m k = (case smap_get m k of None \<Rightarrow> '''' | Some v \<Rightarrow> v)"

text \<open>\<open>m[k] = v\<close>: writing a nil map panics.\<close>

definition smap_set :: "smap \<Rightarrow> string \<Rightarrow> string \<Rightarrow> smap go" where
  "smap_set m k v = (case m of None \<Rightarrow> Inl NilMapWrite | Some f \<Rightarrow> Inr (Some (f(k \<mapsto> v))))"

lemmas smap_defs [go_simps] = smap_get_def smap_val_def smap_set_def

datatype go_error =
    UserError string                             \<comment> \<open>returned by user code\<close>
  | DecodeError string                           \<comment> \<open>returned by a codec\<close>
  | ExternalError string                         \<comment> \<open>returned by a client library\<close>
  | ContextCanceled
  | RingError ring_error
  | ErrNoTransport
  | ErrNoHandlers
  | MaxRetriesExceeded int "go_error option"     \<comment> \<open>\<open>"retry: max retries (%d) exceeded: %w"\<close>\<close>
  | UnknownAction int                            \<comment> \<open>\<open>"retry: unknown action %v"\<close>\<close>
  | NoHandlerForTopic string                     \<comment> \<open>\<open>"ringq: no handler for topic %q"\<close>\<close>
  | DlqSendFailed go_error                       \<comment> \<open>\<open>"dlq: send failed: %w"\<close>\<close>
  | NoDLQConfigured                              \<comment> \<open>\<open>"sqs: no DLQ URL configured"\<close>\<close>
  | Wrapped string go_error                      \<comment> \<open>any other \<open>fmt.Errorf("...: %w", err)\<close>\<close>
  | KeyNotFound                                  \<comment> \<open>\<open>idempotency.ErrKeyNotFound\<close>\<close>

section \<open>Messages, results, outcomes\<close>

datatype Action = Ack | Retry | RetryWithDelay | DLQ
  | OtherAction int \<comment> \<open>any other value of the \<open>int\<close> type\<close>

record Result =
  r_Action :: Action
  r_Delay :: duration
  r_Err :: "go_error option"

record Message =
  m_ID :: string
  m_Topic :: string
  m_Payload :: bytes
  m_Attributes :: smap
  m_ReceiptHandle :: string
  m_Attempts :: int
  m_NotBefore :: duration

record RetryOutcome =
  o_Action :: Action
  o_Message :: Message
  o_Delay :: duration
  o_Err :: "go_error option"

section \<open>Configuration and hooks\<close>

record Config =
  cfg_Concurrency :: goint
  cfg_BufferSize :: goint

text \<open>Which hooks are set. A call of a hook that is set is recorded as an event.\<close>

record Hooks =
  h_OnReceive :: bool
  h_OnDispatch :: bool
  h_OnComplete :: bool
  h_OnError :: bool
  h_OnRetry :: bool
  h_OnDuplicate :: bool

datatype hook_event =
    OnReceive nat
  | OnDispatch string
  | OnComplete string
  | OnError string "go_error option"
  | OnRetry string Message int
  | OnDuplicate string

definition fire :: "bool \<Rightarrow> hook_event \<Rightarrow> hook_event list" where
  "fire set_p e = (if set_p then [e] else [])"

definition fireOnComplete :: "Hooks \<Rightarrow> string \<Rightarrow> hook_event list" where
  "fireOnComplete h topic = fire (h_OnComplete h) (OnComplete topic)"

definition fireOnError :: "Hooks \<Rightarrow> string \<Rightarrow> go_error option \<Rightarrow> hook_event list" where
  "fireOnError h topic err = fire (h_OnError h) (OnError topic err)"

definition fireOnRetry :: "Hooks \<Rightarrow> string \<Rightarrow> Message \<Rightarrow> int \<Rightarrow> hook_event list" where
  "fireOnRetry h topic msg attempt = fire (h_OnRetry h) (OnRetry topic msg attempt)"

lemmas fire_defs [go_simps] = fire_def fireOnComplete_def fireOnError_def fireOnRetry_def

section \<open>Codecs and handlers\<close>

text \<open>A codec of user code; \<open>Decode\<close> returns the value or the error.\<close>

record 't Codec =
  Encode :: "'t \<Rightarrow> go_error + bytes"
  Decode :: "bytes \<Rightarrow> go_error + 't"

text \<open>\<open>JSONCodec\<close> delegates to \<open>json.Marshal\<close> and \<open>json.Unmarshal\<close>, which are parameters.\<close>

definition JSONCodec :: "('t \<Rightarrow> go_error + bytes) \<Rightarrow> (bytes \<Rightarrow> go_error + 't) \<Rightarrow> 't Codec" where
  "JSONCodec marshal unmarshal = \<lparr>Encode = marshal, Decode = unmarshal\<rparr>"

type_synonym ('h, 't) Handler = "'h \<Rightarrow> 't \<Rightarrow> Result \<times> 'h"

type_synonym 'h DispatchFunc = "'h \<Rightarrow> bytes \<Rightarrow> Result \<times> 'h"

definition WrapWithCodec :: "('h, 't) Handler \<Rightarrow> 't Codec \<Rightarrow> 'h DispatchFunc" where
  "WrapWithCodec handler codec h raw =
     (case Decode codec raw of
        Inl err \<Rightarrow> (\<lparr>r_Action = DLQ, r_Delay = 0, r_Err = Some err\<rparr>, h)
      | Inr decoded \<Rightarrow> handler h decoded)"

definition Wrap :: "('t \<Rightarrow> go_error + bytes) \<Rightarrow> (bytes \<Rightarrow> go_error + 't) \<Rightarrow> ('h, 't) Handler
    \<Rightarrow> 'h DispatchFunc" where
  "Wrap marshal unmarshal handler h raw =
     (case Decode (JSONCodec marshal unmarshal) raw of
        Inl err \<Rightarrow> (\<lparr>r_Action = DLQ, r_Delay = 0, r_Err = Some err\<rparr>, h)
      | Inr decoded \<Rightarrow> handler h decoded)"

section \<open>The transport interface\<close>

text \<open>
  A value of the interface \<open>Transport\<close>: its methods over the state \<open>'t\<close> of the
  implementation. \<open>Subscribe\<close>'s loop is the transport's own; its iterations hand batches
  to the pipeline's consumer, so the interface here has the calls the pipeline makes.
  An error result is \<open>Some\<close>; \<open>Publish\<close> and \<open>Close\<close> of some implementations can panic.
\<close>

record 't Transport =
  t_Publish :: "'t \<Rightarrow> Message \<Rightarrow> (go_error option \<times> 't) go"
  t_Ack :: "'t \<Rightarrow> Message list \<Rightarrow> go_error option \<times> 't"
  t_Nack :: "'t \<Rightarrow> Message \<Rightarrow> duration \<Rightarrow> go_error option \<times> 't"
  t_SendToDLQ :: "'t \<Rightarrow> Message \<Rightarrow> go_error option \<times> 't"
  t_Close :: "'t \<Rightarrow> (go_error option \<times> 't) go"

section \<open>Wrapped handlers\<close>

lemma Wrap_eq: "Wrap marshal unmarshal handler = WrapWithCodec handler (JSONCodec marshal unmarshal)"
  by (simp add: fun_eq_iff Wrap_def WrapWithCodec_def)

end
