(* ===== verification/Retry.thy ===== *)
theory Retry
  imports Types
begin

text \<open>
  The retry coordinators: \<open>defaultRetryCoordinator\<close> of \<open>src/ringq/ringq.go\<close> (exponential
  backoff) and \<open>Coordinator\<close> of \<open>src/retry/retry.go\<close> (fixed delay, own hooks).

  Durations and attempt counters are \<open>int\<close>s kept in the \<open>int64\<close> range by \<open>wrap64\<close>. The
  backoff factor is \<open>int64(math.Pow(2, k))\<close>; the Go specification leaves the conversion of
  a float outside the \<open>int64\<close> range to the implementation, so it is the parameter
  \<open>conv\<close>.

  The locale \<open>retry_policy\<close> is the contract of the interface \<open>RetryCoordinator\<close>; both
  coordinators provide it, and from it follows that they decide alike.
\<close>

section \<open>The default coordinator\<close>

record defaultRetryCoordinator =
  d_maxRetries :: int
  d_baseDelay :: duration

definition maxRetryDelay :: duration where
  "maxRetryDelay = 5 * Minute"

text \<open>\<open>int64(math.Pow(2, float64(k)))\<close>: a negative exponent truncates to 0.\<close>

definition pow2_int64 :: "(int \<Rightarrow> int) \<Rightarrow> int \<Rightarrow> int" where
  "pow2_int64 conv k = (if k < 0 then 0 else if k < 63 then 2 ^ nat k else conv k)"

definition backoff :: "(int \<Rightarrow> int) \<Rightarrow> duration \<Rightarrow> int \<Rightarrow> duration" where
  "backoff conv baseDelay attempt =
     (let delay = wrap64 (baseDelay * pow2_int64 conv (wrap64 (attempt - 1)))
      in if delay > maxRetryDelay then maxRetryDelay else delay)"

definition default_retry :: "(int \<Rightarrow> int) \<Rightarrow> defaultRetryCoordinator \<Rightarrow> Message \<Rightarrow> Result \<Rightarrow> RetryOutcome" where
  "default_retry conv d msg result =
     (let attempt = wrap64 (m_Attempts msg + 1)
      in if attempt > d_maxRetries d
         then \<lparr>o_Action = DLQ, o_Message = msg, o_Delay = 0,
               o_Err = Some (MaxRetriesExceeded (d_maxRetries d) (r_Err result))\<rparr>
         else let delay = (if r_Delay result \<le> 0 then backoff conv (d_baseDelay d) attempt
                           else r_Delay result);
                  action = (if delay > 0 then RetryWithDelay else r_Action result)
              in \<lparr>o_Action = action, o_Message = msg\<lparr>m_Attempts := attempt\<rparr>,
                  o_Delay = delay, o_Err = None\<rparr>)"

definition default_Handle :: "(int \<Rightarrow> int) \<Rightarrow> defaultRetryCoordinator \<Rightarrow> Message \<Rightarrow> Result \<Rightarrow> RetryOutcome" where
  "default_Handle conv d msg result =
     (case r_Action result of
        Ack \<Rightarrow> \<lparr>o_Action = Ack, o_Message = msg, o_Delay = 0, o_Err = None\<rparr>
      | Retry \<Rightarrow> default_retry conv d msg result
      | RetryWithDelay \<Rightarrow> default_retry conv d msg result
      | DLQ \<Rightarrow> \<lparr>o_Action = DLQ, o_Message = msg, o_Delay = 0, o_Err = r_Err result\<rparr>
      | OtherAction a \<Rightarrow> \<lparr>o_Action = DLQ, o_Message = msg, o_Delay = 0,
                          o_Err = Some (UnknownAction a)\<rparr>)"

section \<open>The configurable coordinator\<close>

text \<open>The \<open>Config\<close> of package \<open>retry\<close>; the two hooks are present or nil.\<close>

record retry_Config =
  c_MaxRetries :: int
  c_BaseDelay :: duration
  c_OnRetry :: bool
  c_OnDLQ :: bool

datatype coord_event = CoordRetry Message int | CoordDLQ Message "go_error option"

definition retry_Defaults :: "retry_Config \<Rightarrow> retry_Config" where
  "retry_Defaults c =
     (let c = (if c_MaxRetries c = 0 then c\<lparr>c_MaxRetries := 3\<rparr> else c)
      in if c_BaseDelay c = 0 then c\<lparr>c_BaseDelay := 5 * Second\<rparr> else c)"

definition NewCoordinator :: "retry_Config \<Rightarrow> retry_Config" where
  "NewCoordinator cfg = retry_Defaults cfg"

definition coord_exhausted :: "retry_Config \<Rightarrow> Message \<Rightarrow> Result \<Rightarrow> RetryOutcome \<times> coord_event list" where
  "coord_exhausted c msg result =
     (let err = Some (MaxRetriesExceeded (c_MaxRetries c) (r_Err result))
      in (\<lparr>o_Action = DLQ, o_Message = msg, o_Delay = 0, o_Err = err\<rparr>,
          if c_OnDLQ c then [CoordDLQ msg err] else []))"

definition coord_Handle :: "retry_Config \<Rightarrow> Message \<Rightarrow> Result \<Rightarrow> RetryOutcome \<times> coord_event list" where
  "coord_Handle c msg result =
     (case r_Action result of
        Ack \<Rightarrow> (\<lparr>o_Action = Ack, o_Message = msg, o_Delay = 0, o_Err = None\<rparr>, [])
      | Retry \<Rightarrow>
          (let attempt = wrap64 (m_Attempts msg + 1)
           in if attempt > c_MaxRetries c then coord_exhausted c msg result
              else let msg = msg\<lparr>m_Attempts := attempt\<rparr>
                   in (\<lparr>o_Action = Retry, o_Message = msg, o_Delay = 0, o_Err = None\<rparr>,
                       if c_OnRetry c then [CoordRetry msg attempt] else []))
      | RetryWithDelay \<Rightarrow>
          (let attempt = wrap64 (m_Attempts msg + 1)
           in if attempt > c_MaxRetries c then coord_exhausted c msg result
              else let msg = msg\<lparr>m_Attempts := attempt\<rparr>;
                       delay = (if r_Delay result \<le> 0 then c_BaseDelay c else r_Delay result)
                   in (\<lparr>o_Action = RetryWithDelay, o_Message = msg, o_Delay = delay, o_Err = None\<rparr>,
                       if c_OnRetry c then [CoordRetry msg attempt] else []))
      | DLQ \<Rightarrow> (\<lparr>o_Action = DLQ, o_Message = msg, o_Delay = 0, o_Err = r_Err result\<rparr>,
                if c_OnDLQ c then [CoordDLQ msg (r_Err result)] else [])
      | OtherAction a \<Rightarrow> (\<lparr>o_Action = DLQ, o_Message = msg, o_Delay = 0,
                           o_Err = Some (UnknownAction a)\<rparr>, []))"

text \<open>The interface value \<open>RetryCoordinator\<close> the pipeline calls: the outcome alone.\<close>

definition coord_outcome :: "retry_Config \<Rightarrow> Message \<Rightarrow> Result \<Rightarrow> RetryOutcome" where
  "coord_outcome c msg result = fst (coord_Handle c msg result)"

section \<open>Examples\<close>

abbreviation is_retry :: "Action \<Rightarrow> bool" where
  "is_retry a \<equiv> a = Retry \<or> a = RetryWithDelay"

text \<open>What \<open>Pipeline.Handle\<close> configures: ten retries from a one-second base delay.\<close>

definition pipeline_default :: defaultRetryCoordinator where
  "pipeline_default = \<lparr>d_maxRetries = 10, d_baseDelay = 1 * Second\<rparr>"

text \<open>A message for the examples.\<close>

definition sample_msg :: "int \<Rightarrow> Message" where
  "sample_msg n = \<lparr>m_ID = ''1'', m_Topic = ''t'', m_Payload = ''p'', m_Attributes = None,
     m_ReceiptHandle = ''r'', m_Attempts = n, m_NotBefore = 0\<rparr>"

definition ask_retry :: Result where
  "ask_retry = \<lparr>r_Action = Retry, r_Delay = 0, r_Err = Some (UserError ''boom'')\<rparr>"

section \<open>The contract of a coordinator\<close>

locale retry_policy =
  fixes handle :: "Message \<Rightarrow> Result \<Rightarrow> RetryOutcome"
    and budget :: int
  assumes final: "\<not> is_retry (r_Action res) \<Longrightarrow>
      o_Action (handle msg res) = (if r_Action res = Ack then Ack else DLQ) \<and> o_Message (handle msg res) = msg"
    and exhausted: "is_retry (r_Action res) \<Longrightarrow> int64 (m_Attempts msg + 1) \<Longrightarrow> budget < m_Attempts msg + 1 \<Longrightarrow>
      o_Action (handle msg res) = DLQ \<and> o_Message (handle msg res) = msg"
    and again: "is_retry (r_Action res) \<Longrightarrow> int64 (m_Attempts msg + 1) \<Longrightarrow> m_Attempts msg + 1 \<le> budget \<Longrightarrow>
      is_retry (o_Action (handle msg res)) \<and>
      o_Message (handle msg res) = msg\<lparr>m_Attempts := m_Attempts msg + 1\<rparr>"
begin

text \<open>
  The decision: one more delivery, with the attempt counted, exactly when the handler asks for a
  retry and the budget has room for it; otherwise the message is final and unchanged.
\<close>

lemma decision:
  assumes "int64 (m_Attempts msg + 1)"
  shows "is_retry (o_Action (handle msg res)) \<longleftrightarrow> is_retry (r_Action res) \<and> m_Attempts msg < budget"
    and "o_Action (handle msg res) = Ack \<longleftrightarrow> r_Action res = Ack"
    and "o_Action (handle msg res) = DLQ \<longleftrightarrow> r_Action res \<noteq> Ack \<and> (is_retry (r_Action res) \<longrightarrow> budget \<le> m_Attempts msg)"
    and "o_Message (handle msg res) =
      (if is_retry (r_Action res) \<and> m_Attempts msg < budget then msg\<lparr>m_Attempts := m_Attempts msg + 1\<rparr> else msg)"
proof -
  have eq: "m_Attempts msg + 1 \<le> budget \<longleftrightarrow> m_Attempts msg < budget" by linarith
  have "(is_retry (o_Action (handle msg res)) \<longleftrightarrow> is_retry (r_Action res) \<and> m_Attempts msg < budget) \<and>
    (o_Action (handle msg res) = Ack \<longleftrightarrow> r_Action res = Ack) \<and>
    (o_Action (handle msg res) = DLQ \<longleftrightarrow> r_Action res \<noteq> Ack \<and> (is_retry (r_Action res) \<longrightarrow> budget \<le> m_Attempts msg)) \<and>
    o_Message (handle msg res) =
      (if is_retry (r_Action res) \<and> m_Attempts msg < budget then msg\<lparr>m_Attempts := m_Attempts msg + 1\<rparr> else msg)"
  proof (cases "is_retry (r_Action res)")
    case True
    then have "r_Action res \<noteq> Ack" by auto
    with True again[OF True assms] exhausted[OF True assms] show ?thesis
      by (cases "m_Attempts msg < budget") (auto simp: eq)
  next
    case False
    from final[OF this, of msg] show ?thesis
      by (cases "r_Action res = Ack") (use False in simp_all)
  qed
  then show "is_retry (o_Action (handle msg res)) \<longleftrightarrow> is_retry (r_Action res) \<and> m_Attempts msg < budget"
    and "o_Action (handle msg res) = Ack \<longleftrightarrow> r_Action res = Ack"
    and "o_Action (handle msg res) = DLQ \<longleftrightarrow> r_Action res \<noteq> Ack \<and> (is_retry (r_Action res) \<longrightarrow> budget \<le> m_Attempts msg)"
    and "o_Message (handle msg res) =
      (if is_retry (r_Action res) \<and> m_Attempts msg < budget then msg\<lparr>m_Attempts := m_Attempts msg + 1\<rparr> else msg)" by blast+
qed

end

section \<open>Both coordinators provide it\<close>

interpretation default: retry_policy "default_Handle conv d" "d_maxRetries d" for conv d
proof
  fix res msg
  show "\<not> is_retry (r_Action res) \<Longrightarrow>
    o_Action (default_Handle conv d msg res) = (if r_Action res = Ack then Ack else DLQ) \<and>
    o_Message (default_Handle conv d msg res) = msg"
    by (cases "r_Action res") (auto simp: default_Handle_def)
  assume r: "is_retry (r_Action res)" and i: "int64 (m_Attempts msg + 1)"
  then have eq: "default_Handle conv d msg res = default_retry conv d msg res"
    by (auto simp: default_Handle_def)
  show "d_maxRetries d < m_Attempts msg + 1 \<Longrightarrow>
    o_Action (default_Handle conv d msg res) = DLQ \<and> o_Message (default_Handle conv d msg res) = msg"
    using i by (simp add: eq default_retry_def Let_def wrap64_id)
  show "m_Attempts msg + 1 \<le> d_maxRetries d \<Longrightarrow> is_retry (o_Action (default_Handle conv d msg res)) \<and>
    o_Message (default_Handle conv d msg res) = msg\<lparr>m_Attempts := m_Attempts msg + 1\<rparr>"
    using i r by (simp add: eq default_retry_def Let_def wrap64_id)
qed

interpretation coord: retry_policy "coord_outcome c" "c_MaxRetries c" for c
proof
  fix res msg
  show "\<not> is_retry (r_Action res) \<Longrightarrow>
    o_Action (coord_outcome c msg res) = (if r_Action res = Ack then Ack else DLQ) \<and>
    o_Message (coord_outcome c msg res) = msg"
    by (cases "r_Action res") (auto simp: coord_outcome_def coord_Handle_def)
  assume r: "is_retry (r_Action res)" and i: "int64 (m_Attempts msg + 1)"
  then show "c_MaxRetries c < m_Attempts msg + 1 \<Longrightarrow>
    o_Action (coord_outcome c msg res) = DLQ \<and> o_Message (coord_outcome c msg res) = msg"
    by (auto simp: coord_outcome_def coord_Handle_def coord_exhausted_def Let_def wrap64_id)
  show "m_Attempts msg + 1 \<le> c_MaxRetries c \<Longrightarrow> is_retry (o_Action (coord_outcome c msg res)) \<and>
    o_Message (coord_outcome c msg res) = msg\<lparr>m_Attempts := m_Attempts msg + 1\<rparr>"
    using i r by (auto simp: coord_outcome_def coord_Handle_def Let_def wrap64_id)
qed

section \<open>The backoff\<close>

lemma backoff_exact:
  assumes "0 \<le> base" and "1 \<le> attempt" and "attempt \<le> 63" and "base * 2 ^ nat (attempt - 1) < 2 ^ 63"
  shows "backoff conv base attempt = min (base * 2 ^ nat (attempt - 1)) maxRetryDelay"
proof -
  have "wrap64 (attempt - 1) = attempt - 1" using assms(2,3) by (intro wrap64_id) (simp add: int64_def)
  moreover have "0 \<le> base * 2 ^ nat (attempt - 1)" using assms(1) by simp
  then have "wrap64 (base * 2 ^ nat (attempt - 1)) = base * 2 ^ nat (attempt - 1)"
    using assms(4) by (intro wrap64_id) (simp add: int64_def)
  ultimately show ?thesis
    using assms(2,3) by (simp add: backoff_def pow2_int64_def Let_def min_def)
qed

lemma default_retry_outcome:
  assumes "is_retry (r_Action res)" and "int64 (m_Attempts msg + 1)" and "m_Attempts msg + 1 \<le> d_maxRetries d"
    and "r_Delay res \<le> 0" and "0 < backoff conv (d_baseDelay d) (m_Attempts msg + 1)"
  shows "default_Handle conv d msg res =
    \<lparr>o_Action = RetryWithDelay, o_Message = msg\<lparr>m_Attempts := m_Attempts msg + 1\<rparr>,
     o_Delay = backoff conv (d_baseDelay d) (m_Attempts msg + 1), o_Err = None\<rparr>"
  using assms by (auto simp: default_Handle_def default_retry_def Let_def wrap64_id)

section \<open>Properties\<close>

text \<open>C28. The two coordinators, written separately, take the same decision: for equal budgets and as
  long as the attempt counter does not overflow, they deliver a message again, with the attempt
  counted and nothing else changed, exactly when the handler asks for a retry and the attempts
  made are below the budget; they acknowledge it exactly when the handler says so, and dead-letter
  it unchanged in all other cases. They may differ only in the kind and the delay of a retry.\<close>

theorem coordinators_agree:
  assumes "int64 (m_Attempts msg + 1)" and "d_maxRetries d = c_MaxRetries c"
    and "out = default_Handle conv d msg res" and "out' = coord_outcome c msg res"
  shows "is_retry (o_Action out) = is_retry (o_Action out') \<and> (o_Action out = Ack) = (o_Action out' = Ack) \<and>
    (o_Action out = DLQ) = (o_Action out' = DLQ) \<and> o_Message out = o_Message out' \<and>
    is_retry (o_Action out) = (is_retry (r_Action res) \<and> m_Attempts msg < d_maxRetries d) \<and>
    (o_Action out = Ack) = (r_Action res = Ack) \<and>
    (o_Action out = DLQ) = (r_Action res \<noteq> Ack \<and> (is_retry (r_Action res) \<longrightarrow> d_maxRetries d \<le> m_Attempts msg)) \<and>
    o_Message out = (if is_retry (o_Action out) then msg\<lparr>m_Attempts := m_Attempts msg + 1\<rparr> else msg)"
  unfolding assms(3,4) using default.decision[OF assms(1), of conv d res] coord.decision[OF assms(1), of c res]
  by (simp only: assms(2) simp_thms)

theorem coordinators_agree_witness:
  "is_retry (o_Action (default_Handle (\<lambda>_. 0) pipeline_default (sample_msg 9) ask_retry)) \<and>
   m_Attempts (o_Message (default_Handle (\<lambda>_. 0) pipeline_default (sample_msg 9) ask_retry)) = 10 \<and>
   o_Action (coord_outcome \<lparr>c_MaxRetries = 10, c_BaseDelay = 1, c_OnRetry = True, c_OnDLQ = True\<rparr> (sample_msg 10) ask_retry) = DLQ"
proof -
  let ?c = "\<lparr>c_MaxRetries = 10, c_BaseDelay = 1, c_OnRetry = True, c_OnDLQ = True\<rparr>"
  have m: "m_Attempts (sample_msg n) = n" for n by (simp add: sample_msg_def)
  have d: "d_maxRetries pipeline_default = c_MaxRetries ?c" "d_maxRetries pipeline_default = 10" "is_retry (r_Action ask_retry)"
    "r_Action ask_retry \<noteq> Ack" by (simp_all add: pipeline_default_def ask_retry_def)
  have i: "int64 (m_Attempts (sample_msg 9) + 1)" "int64 (m_Attempts (sample_msg 10) + 1)" by (simp_all add: m int64_def)
  define out where "out = default_Handle (\<lambda>_. 0) pipeline_default (sample_msg 9) ask_retry"
  define out' where "out' = coord_outcome ?c (sample_msg 10) ask_retry"
  note at9 = coordinators_agree[OF i(1) d(1) out_def refl, unfolded m d(2)]
  note at10 = coordinators_agree[OF i(2) d(1) refl out'_def, of "\<lambda>_. 0", unfolded m d(2)]
  have "is_retry (o_Action out) = (is_retry (r_Action ask_retry) \<and> (9::int) < 10)" using at9 by blast
  then have retry: "is_retry (o_Action out)" using d(3) by (simp only:) simp
  moreover have "m_Attempts (o_Message out) = 10"
  proof -
    have "o_Message out = (if is_retry (o_Action out) then (sample_msg 9)\<lparr>m_Attempts := 9 + 1\<rparr> else sample_msg 9)"
      using at9 by blast
    then show ?thesis unfolding if_P[OF retry] by simp
  qed
  moreover have "o_Action out' = DLQ" using at10 d(4) by (metis order.refl)
  ultimately show ?thesis unfolding out_def out'_def by blast
qed

text \<open>C32. The backoff formula: for a base delay and an attempt whose product fits in 64 bits, the
  default coordinator answers \<open>Retry\<close> and \<open>RetryWithDelay\<close> alike with \<open>RetryWithDelay\<close>,
  the attempt counted, and the delay \<open>min (baseDelay * 2^(attempt-1)) 5min\<close>.\<close>

theorem backoff_formula:
  assumes "r_Action res = Retry \<or> r_Action res = RetryWithDelay" and "r_Delay res \<le> 0"
    and "0 \<le> m_Attempts msg" and "m_Attempts msg + 1 \<le> d_maxRetries d" and "m_Attempts msg < 63"
    and "0 < d_baseDelay d" and "d_baseDelay d * 2 ^ nat (m_Attempts msg) < 2 ^ 63"
  shows "default_Handle conv d msg res =
    \<lparr>o_Action = RetryWithDelay, o_Message = msg\<lparr>m_Attempts := m_Attempts msg + 1\<rparr>,
     o_Delay = min (d_baseDelay d * 2 ^ nat (m_Attempts msg)) (5 * Minute), o_Err = None\<rparr>"
proof -
  have "backoff conv (d_baseDelay d) (m_Attempts msg + 1) =
      min (d_baseDelay d * 2 ^ nat (m_Attempts msg)) (5 * Minute)"
    using backoff_exact[of "d_baseDelay d" "m_Attempts msg + 1" conv] assms(3,5,6,7)
    by (simp add: maxRetryDelay_def)
  moreover have "0 < min (d_baseDelay d * 2 ^ nat (m_Attempts msg)) (5 * Minute)"
    using assms(6) by (simp add: duration_defs)
  moreover have "int64 (m_Attempts msg + 1)" using assms(3,5) by (simp add: int64_def)
  ultimately show ?thesis
    using default_retry_outcome[OF assms(1) _ assms(4,2), of conv] by simp
qed

theorem backoff_formula_witness:
  "map (\<lambda>n. o_Delay (default_Handle (\<lambda>_. 0) pipeline_default (sample_msg n) ask_retry) div Second)
     [0, 1, 2, 3, 4, 5, 6, 7, 8, 9] = [1, 2, 4, 8, 16, 32, 64, 128, 256, 300] \<and>
   o_Action (default_Handle (\<lambda>_. 0) pipeline_default (sample_msg 0) ask_retry) = RetryWithDelay"
proof -
  have "default_Handle (\<lambda>_. 0) pipeline_default (sample_msg n) ask_retry =
      \<lparr>o_Action = RetryWithDelay, o_Message = sample_msg (n + 1),
       o_Delay = min (Second * 2 ^ nat n) (5 * Minute), o_Err = None\<rparr>"
    if "0 \<le> n" "n \<le> 9" for n
  proof -
    have "nat n \<le> 9" using that by simp
    then have "(2::int) ^ nat n \<le> 2 ^ 9" by (intro power_increasing) auto
    then have "Second * 2 ^ nat n < 2 ^ 63" by (simp add: Second_def)
    then show ?thesis
      using backoff_formula[of ask_retry "sample_msg n" pipeline_default "\<lambda>_. 0"] that
      by (simp add: ask_retry_def sample_msg_def pipeline_default_def Second_def)
  qed
  then show ?thesis by (simp add: duration_defs)
qed

text \<open>Past that range the backoff wraps around: with a one-second base and a larger retry
  budget, attempt 35 computes a negative delay and attempt 56 a delay of 0, so neither the
  five-minute cap nor a delay applies and the message is retried at once, whatever the
  platform's float conversion.\<close>

theorem backoff_overflow:
  "let d = \<lparr>d_maxRetries = 100, d_baseDelay = 1 * Second\<rparr>;
       o35 = default_Handle conv d (sample_msg 34) ask_retry;
       o56 = default_Handle conv d (sample_msg 55) ask_retry
   in o_Action o35 = Retry \<and> o_Delay o35 < 0 \<and> o_Action o56 = Retry \<and> o_Delay o56 = 0"
  by (simp add: default_Handle_def default_retry_def backoff_def pow2_int64_def wrap64_def
      sample_msg_def ask_retry_def maxRetryDelay_def duration_defs Let_def)

end
