(* ===== verification/Idempotency.thy ===== *)
theory Idempotency
  imports Types
begin

text \<open>
  Duplicate suppression: the filter of the pipeline (\<open>src/ringq/filter.go\<close>), its exported
  twin (\<open>src/idempotency/idempotency.go\<close>) and the two stores
  (\<open>src/idempotency/store_memory.go\<close>, \<open>store_redis.go\<close>).

  A store is a value of the interface \<open>IdemStore\<close> over the state \<open>'s\<close> of its
  implementation; a call may panic (\<open>Inl\<close>), and otherwise returns its results and the new
  state. \<open>time.Now()\<close> is an argument of the calls that read it. The Redis client is a
  parameter (\<open>RedisCmdable\<close>).

  The locale \<open>idem_store\<close> is what the filter relies on; \<open>MemoryStore\<close> provides it for
  calls that do not overlap. \<open>ms_step\<close> interleaves the calls, with \<open>Exists\<close> in its two
  critical sections.
\<close>

section \<open>The store interface\<close>

record 's IdemStore =
  st_Exists :: "'s \<Rightarrow> gotime \<Rightarrow> string \<Rightarrow> ((bool \<times> go_error option) \<times> 's) go"
  st_Mark :: "'s \<Rightarrow> gotime \<Rightarrow> string \<Rightarrow> duration \<Rightarrow> (go_error option \<times> 's) go"
  st_Close :: "'s \<Rightarrow> (go_error option \<times> 's) go"

section \<open>The memory store\<close>

record memoryEntry =
  expiresAt :: gotime

record MemoryStore =
  ms_keys :: "(string \<rightharpoonup> memoryEntry) option"
  ms_stopClosed :: bool

definition NewMemoryStore :: MemoryStore where
  "NewMemoryStore = \<lparr>ms_keys = Some Map.empty, ms_stopClosed = False\<rparr>"

text \<open>The two critical sections of \<open>Exists\<close>: read the entry, and delete an expired one.\<close>

definition ms_read :: "MemoryStore \<Rightarrow> string \<Rightarrow> memoryEntry option" where
  "ms_read s key = (case ms_keys s of None \<Rightarrow> None | Some m \<Rightarrow> m key)"

definition ms_delete :: "MemoryStore \<Rightarrow> string \<Rightarrow> MemoryStore" where
  "ms_delete s key = (case ms_keys s of None \<Rightarrow> s | Some m \<Rightarrow> s\<lparr>ms_keys := Some (m(key := None))\<rparr>)"

definition ms_Exists :: "MemoryStore \<Rightarrow> gotime \<Rightarrow> string \<Rightarrow> ((bool \<times> go_error option) \<times> MemoryStore) go" where
  "ms_Exists s now key =
     (case ms_read s key of
        None \<Rightarrow> Inr ((False, None), s)
      | Some entry \<Rightarrow>
          if time_After now (expiresAt entry) then Inr ((False, None), ms_delete s key)
          else Inr ((True, None), s))"

definition ms_Mark :: "MemoryStore \<Rightarrow> gotime \<Rightarrow> string \<Rightarrow> duration \<Rightarrow> (go_error option \<times> MemoryStore) go" where
  "ms_Mark s now key ttl =
     (case ms_keys s of
        None \<Rightarrow> Inl NilMapWrite
      | Some m \<Rightarrow> Inr (None, s\<lparr>ms_keys := Some (m(key \<mapsto> \<lparr>expiresAt = time_Add now ttl\<rparr>))\<rparr>))"

definition ms_Close :: "MemoryStore \<Rightarrow> (go_error option \<times> MemoryStore) go" where
  "ms_Close s =
     (if ms_stopClosed s then Inl CloseOfClosedChannel
      else Inr (None, s\<lparr>ms_stopClosed := True, ms_keys := None\<rparr>))"

definition ms_evict :: "MemoryStore \<Rightarrow> gotime \<Rightarrow> MemoryStore" where
  "ms_evict s now =
     (case ms_keys s of
        None \<Rightarrow> s
      | Some m \<Rightarrow> s\<lparr>ms_keys := Some (\<lambda>k. case m k of None \<Rightarrow> None
            | Some entry \<Rightarrow> if time_After now (expiresAt entry) then None else Some entry)\<rparr>)"

definition MemoryIdemStore :: "MemoryStore IdemStore" where
  "MemoryIdemStore = \<lparr>st_Exists = ms_Exists, st_Mark = ms_Mark, st_Close = ms_Close\<rparr>"

text \<open>
  Interleaved calls. The second component holds the keys that calls of \<open>Exists\<close> have found
  expired and are about to delete; the eviction goroutine runs until the store is closed.
\<close>

datatype ms_event = MsExists string gotime bool | MsExpired string gotime | MsDelete string
  | MsMark string gotime duration | MsEvict gotime | MsClose

inductive ms_step :: "MemoryStore \<times> string list \<Rightarrow> ms_event \<Rightarrow> MemoryStore \<times> string list \<Rightarrow> bool" where
  miss: "ms_read s key = None \<Longrightarrow> ms_step (s, pend) (MsExists key now False) (s, pend)"
| hit: "ms_read s key = Some entry \<Longrightarrow> \<not> time_After now (expiresAt entry) \<Longrightarrow>
     ms_step (s, pend) (MsExists key now True) (s, pend)"
| expired: "ms_read s key = Some entry \<Longrightarrow> time_After now (expiresAt entry) \<Longrightarrow>
     ms_step (s, pend) (MsExpired key now) (s, key # pend)"
| delete: "key \<in> set pend \<Longrightarrow> ms_step (s, pend) (MsDelete key) (ms_delete s key, remove1 key pend)"
| mark: "ms_Mark s now key ttl = Inr (None, s') \<Longrightarrow> ms_step (s, pend) (MsMark key now ttl) (s', pend)"
| evict: "\<not> ms_stopClosed s \<Longrightarrow> ms_step (s, pend) (MsEvict now) (ms_evict s now, pend)"
| close: "ms_Close s = Inr (None, s') \<Longrightarrow> ms_step (s, pend) MsClose (s', pend)"

inductive ms_run :: "MemoryStore \<times> string list \<Rightarrow> ms_event list \<Rightarrow> MemoryStore \<times> string list \<Rightarrow> bool" where
  nil: "ms_run s [] s"
| cons: "ms_step s e t \<Longrightarrow> ms_run t es u \<Longrightarrow> ms_run s (e # es) u"

inductive_cases ms_stepE: "ms_step s e t"
inductive_cases ms_run_ConsE: "ms_run s (e # es) u"
inductive_cases ms_run_NilE: "ms_run s [] u"

section \<open>The Redis store\<close>

text \<open>The client interface over the client's own state, a parameter.\<close>

record 'c RedisCmdable =
  rc_Get :: "'c \<Rightarrow> gotime \<Rightarrow> string \<Rightarrow> (string \<times> go_error option) \<times> 'c"
  rc_SetNX :: "'c \<Rightarrow> gotime \<Rightarrow> string \<Rightarrow> string \<Rightarrow> duration \<Rightarrow> (bool \<times> go_error option) \<times> 'c"
  rc_Del :: "'c \<Rightarrow> string list \<Rightarrow> (int \<times> go_error option) \<times> 'c"
  rc_Close :: "'c \<Rightarrow> go_error option \<times> 'c"

record 'c RedisStore =
  rs_client :: "'c RedisCmdable option"
  rs_prefix :: string

definition NewRedisStore :: "'c RedisCmdable option \<Rightarrow> string \<Rightarrow> 'c RedisStore" where
  "NewRedisStore client prefix =
     \<lparr>rs_client = client, rs_prefix = (if prefix = '''' then ''idem:'' else prefix)\<rparr>"

text \<open>\<open>errors.Is(err, ErrKeyNotFound)\<close>: the error or one it wraps.\<close>

fun errors_Is_KeyNotFound :: "go_error \<Rightarrow> bool" where
  "errors_Is_KeyNotFound KeyNotFound = True"
| "errors_Is_KeyNotFound (Wrapped _ err) = errors_Is_KeyNotFound err"
| "errors_Is_KeyNotFound (DlqSendFailed err) = errors_Is_KeyNotFound err"
| "errors_Is_KeyNotFound (MaxRetriesExceeded _ (Some err)) = errors_Is_KeyNotFound err"
| "errors_Is_KeyNotFound _ = False"

definition rs_Exists :: "'c RedisStore \<Rightarrow> 'c \<Rightarrow> gotime \<Rightarrow> string \<Rightarrow> ((bool \<times> go_error option) \<times> 'c) go" where
  "rs_Exists s c now key =
     (case rs_client s of
        None \<Rightarrow> Inl NilDereference
      | Some client \<Rightarrow>
          (let ((_, err), c) = rc_Get client c now (rs_prefix s @ key)
           in Inr (case err of
                     None \<Rightarrow> ((True, None), c)
                   | Some e \<Rightarrow> if errors_Is_KeyNotFound e then ((False, None), c) else ((False, Some e), c))))"

definition rs_Mark :: "'c RedisStore \<Rightarrow> 'c \<Rightarrow> gotime \<Rightarrow> string \<Rightarrow> duration \<Rightarrow> (go_error option \<times> 'c) go" where
  "rs_Mark s c now key ttl =
     (case rs_client s of
        None \<Rightarrow> Inl NilDereference
      | Some client \<Rightarrow>
          (let ((_, err), c) = rc_SetNX client c now (rs_prefix s @ key) ''1'' ttl in Inr (err, c)))"

definition rs_Close :: "'c RedisStore \<Rightarrow> 'c \<Rightarrow> (go_error option \<times> 'c) go" where
  "rs_Close s c = (case rs_client s of None \<Rightarrow> Inr (None, c) | Some client \<Rightarrow> Inr (rc_Close client c))"

definition RedisIdemStore :: "'c RedisStore \<Rightarrow> 'c IdemStore" where
  "RedisIdemStore s = \<lparr>st_Exists = rs_Exists s, st_Mark = rs_Mark s, st_Close = rs_Close s\<rparr>"

section \<open>The filter of the pipeline\<close>

record 's IdempotencyConfig =
  ic_Store :: "'s IdemStore option"
  ic_AttributeKey :: string
  ic_TTL :: duration

record 's idemFilter =
  f_store :: "'s IdemStore option"
  f_attributeKey :: string
  f_ttl :: duration
  f_onDuplicate :: bool

definition newIdemFilter :: "'s IdempotencyConfig \<Rightarrow> bool \<Rightarrow> 's idemFilter" where
  "newIdemFilter cfg onDuplicate =
     \<lparr>f_store = ic_Store cfg,
      f_attributeKey = (if ic_AttributeKey cfg = '''' then ''IdempotencyKey'' else ic_AttributeKey cfg),
      f_ttl = (if ic_TTL cfg = 0 then 24 * Hour else ic_TTL cfg),
      f_onDuplicate = onDuplicate\<rparr>"

text \<open>
  The loop over the batch: kept messages, duplicates, hook calls and the store. \<open>now i\<close> is
  the clock at the \<open>i\<close>-th message.
\<close>

fun filter_loop :: "'s idemFilter \<Rightarrow> 's IdemStore \<Rightarrow> (nat \<Rightarrow> gotime) \<Rightarrow> 's \<Rightarrow> Message list
    \<Rightarrow> (Message list \<times> Message list \<times> hook_event list \<times> 's) go" where
  "filter_loop f store now s [] = Inr ([], [], [], s)"
| "filter_loop f store now s (msg # messages) =
     (case smap_get (m_Attributes msg) (f_attributeKey f) of
        None \<Rightarrow>
          (case filter_loop f store (\<lambda>i. now (Suc i)) s messages of
             Inl p \<Rightarrow> Inl p
           | Inr (kept, duplicates, evs, s') \<Rightarrow> Inr (msg # kept, duplicates, evs, s'))
      | Some key \<Rightarrow>
          (case st_Exists store s (now 0) key of
             Inl p \<Rightarrow> Inl p
           | Inr ((exists, err), s1) \<Rightarrow>
               (case filter_loop f store (\<lambda>i. now (Suc i)) s1 messages of
                  Inl p \<Rightarrow> Inl p
                | Inr (kept, duplicates, evs, s') \<Rightarrow>
                    if err \<noteq> None \<or> exists
                    then Inr (kept, msg # duplicates, fire (f_onDuplicate f) (OnDuplicate key) @ evs, s')
                    else Inr (msg # kept, duplicates, evs, s'))))"

definition filterDuplicates :: "'s idemFilter \<Rightarrow> (nat \<Rightarrow> gotime) \<Rightarrow> 's \<Rightarrow> Message list
    \<Rightarrow> (Message list \<times> Message list \<times> hook_event list \<times> 's) go" where
  "filterDuplicates f now s messages =
     (case f_store f of
        None \<Rightarrow> Inr (messages, [], [], s)
      | Some store \<Rightarrow> filter_loop f store now s messages)"

definition filter_mark :: "'s idemFilter \<Rightarrow> gotime \<Rightarrow> 's \<Rightarrow> Message \<Rightarrow> (go_error option \<times> 's) go" where
  "filter_mark f now s msg =
     (case f_store f of
        None \<Rightarrow> Inr (None, s)
      | Some store \<Rightarrow>
          (case smap_get (m_Attributes msg) (f_attributeKey f) of
             None \<Rightarrow> Inr (None, s)
           | Some key \<Rightarrow> st_Mark store s now key (f_ttl f)))"

definition filter_close :: "'s idemFilter \<Rightarrow> 's \<Rightarrow> (go_error option \<times> 's) go" where
  "filter_close f s = (case f_store f of None \<Rightarrow> Inr (None, s) | Some store \<Rightarrow> st_Close store s)"

section \<open>The exported filter\<close>

record 's Filter =
  xf_store :: "'s IdemStore option"
  xf_attributeKey :: string
  xf_ttl :: duration
  xf_onDuplicate :: bool

record 's Filter_Config =
  xc_Store :: "'s IdemStore option"
  xc_AttributeKey :: string
  xc_TTL :: duration
  xc_OnDuplicate :: bool

definition NewFilter :: "'s Filter_Config \<Rightarrow> 's Filter" where
  "NewFilter cfg =
     \<lparr>xf_store = xc_Store cfg,
      xf_attributeKey = (if xc_AttributeKey cfg = '''' then ''IdempotencyKey'' else xc_AttributeKey cfg),
      xf_ttl = (if xc_TTL cfg = 0 then 24 * Hour else xc_TTL cfg),
      xf_onDuplicate = xc_OnDuplicate cfg\<rparr>"

text \<open>The same loop, with the results accumulated from the front as the source does.\<close>

fun Filter_loop :: "'s Filter \<Rightarrow> 's IdemStore \<Rightarrow> (nat \<Rightarrow> gotime) \<Rightarrow> nat \<Rightarrow> 's \<Rightarrow> Message list
    \<Rightarrow> Message list \<Rightarrow> Message list \<Rightarrow> hook_event list
    \<Rightarrow> (Message list \<times> Message list \<times> hook_event list \<times> 's) go" where
  "Filter_loop f store now i s [] kept duplicates evs = Inr (kept, duplicates, evs, s)"
| "Filter_loop f store now i s (msg # messages) kept duplicates evs =
     (case smap_get (m_Attributes msg) (xf_attributeKey f) of
        None \<Rightarrow> Filter_loop f store now (Suc i) s messages (kept @ [msg]) duplicates evs
      | Some key \<Rightarrow>
          (case st_Exists store s (now i) key of
             Inl p \<Rightarrow> Inl p
           | Inr ((exists, err), s1) \<Rightarrow>
               if err \<noteq> None \<or> exists
               then Filter_loop f store now (Suc i) s1 messages kept (duplicates @ [msg])
                      (evs @ fire (xf_onDuplicate f) (OnDuplicate key))
               else Filter_loop f store now (Suc i) s1 messages (kept @ [msg]) duplicates evs))"

definition Filter_Filter :: "'s Filter \<Rightarrow> (nat \<Rightarrow> gotime) \<Rightarrow> 's \<Rightarrow> Message list
    \<Rightarrow> (Message list \<times> Message list \<times> hook_event list \<times> 's) go" where
  "Filter_Filter f now s messages =
     (case xf_store f of
        None \<Rightarrow> Inr (messages, [], [], s)
      | Some store \<Rightarrow> Filter_loop f store now 0 s messages [] [] [])"

definition Filter_Mark :: "'s Filter \<Rightarrow> gotime \<Rightarrow> 's \<Rightarrow> Message \<Rightarrow> (go_error option \<times> 's) go" where
  "Filter_Mark f now s msg =
     (case xf_store f of
        None \<Rightarrow> Inr (None, s)
      | Some store \<Rightarrow>
          (case smap_get (m_Attributes msg) (xf_attributeKey f) of
             None \<Rightarrow> Inr (None, s)
           | Some key \<Rightarrow> st_Mark store s now key (xf_ttl f)))"

definition Filter_Close :: "'s Filter \<Rightarrow> 's \<Rightarrow> (go_error option \<times> 's) go" where
  "Filter_Close f s = (case xf_store f of None \<Rightarrow> Inr (None, s) | Some store \<Rightarrow> st_Close store s)"

section \<open>What the filter relies on\<close>

text \<open>The key of a message, and whether a store that has seen the keys \<open>seen\<close> makes it a duplicate.\<close>

definition msg_key :: "'s idemFilter \<Rightarrow> Message \<Rightarrow> string option" where
  "msg_key f msg = smap_get (m_Attributes msg) (f_attributeKey f)"

definition is_dup :: "(gotime \<Rightarrow> string \<Rightarrow> bool) \<Rightarrow> 's idemFilter \<Rightarrow> gotime \<Rightarrow> Message \<Rightarrow> bool" where
  "is_dup seen f now msg = (case msg_key f msg of None \<Rightarrow> False | Some key \<Rightarrow> seen now key)"

definition dup_events :: "'s idemFilter \<Rightarrow> Message list \<Rightarrow> hook_event list" where
  "dup_events f dups = concat (map (\<lambda>m. case msg_key f m of None \<Rightarrow> []
     | Some key \<Rightarrow> fire (f_onDuplicate f) (OnDuplicate key)) dups)"

definition ms_seen :: "MemoryStore \<Rightarrow> gotime \<Rightarrow> string \<Rightarrow> bool" where
  "ms_seen s now key = (case ms_read s key of None \<Rightarrow> False | Some entry \<Rightarrow> \<not> time_After now (expiresAt entry))"

definition ms_inv :: "MemoryStore \<Rightarrow> bool" where
  "ms_inv s \<longleftrightarrow> ms_keys s \<noteq> None \<and> \<not> ms_stopClosed s"

definition clock_monotone :: "(nat \<Rightarrow> gotime) \<Rightarrow> bool" where
  "clock_monotone now \<longleftrightarrow> (\<forall>i j. i \<le> j \<longrightarrow> mono (now i) \<le> mono (now j))"

text \<open>Events that leave the mark of \<open>key\<close> expiring at \<open>entry\<close> alone.\<close>

definition keeps_mark :: "string \<Rightarrow> memoryEntry \<Rightarrow> ms_event \<Rightarrow> bool" where
  "keeps_mark key entry e = (case e of
     MsMark k now ttl \<Rightarrow> k \<noteq> key
   | MsExpired k now \<Rightarrow> \<not> time_After now (expiresAt entry)
   | MsExists k now b \<Rightarrow> \<not> time_After now (expiresAt entry)
   | MsEvict now \<Rightarrow> \<not> time_After now (expiresAt entry)
   | MsClose \<Rightarrow> False
   | MsDelete k \<Rightarrow> True)"

text \<open>Values for the examples.\<close>

definition keyed_msg :: "string \<Rightarrow> string \<Rightarrow> Message" where
  "keyed_msg ident key = \<lparr>m_ID = ident, m_Topic = ''t'', m_Payload = ''p'',
     m_Attributes = Some [''IdempotencyKey'' \<mapsto> key], m_ReceiptHandle = ident, m_Attempts = 0, m_NotBefore = 0\<rparr>"

definition memory_filter :: "MemoryStore idemFilter" where
  "memory_filter = newIdemFilter \<lparr>ic_Store = Some MemoryIdemStore, ic_AttributeKey = '''', ic_TTL = 0\<rparr> True"

definition at_second :: "int \<Rightarrow> gotime" where
  "at_second t = \<lparr>wall = t * Second, mono = t * Second\<rparr>"

locale idem_store =
  fixes inv :: "'s \<Rightarrow> bool"
    and seen :: "'s \<Rightarrow> gotime \<Rightarrow> string \<Rightarrow> bool"
    and store :: "'s IdemStore"
  assumes exists_answers: "inv s \<Longrightarrow> \<exists>s'. st_Exists store s now k = Inr ((seen s now k, None), s') \<and> inv s' \<and>
      (\<forall>now' k'. mono now \<le> mono now' \<longrightarrow> seen s' now' k' = seen s now' k')"
    and mark_records: "inv s \<Longrightarrow> \<exists>s'. st_Mark store s now k ttl = Inr (None, s') \<and> inv s' \<and>
      (\<forall>now' k'. seen s' now' k' = (if k' = k then \<not> time_After now' (time_Add now ttl) else seen s now' k'))"
begin

text \<open>The loop splits the batch by the store's answers, keeps the order and panics on nothing.\<close>

lemma loop_partitions:
  assumes "inv s" and "clock_monotone now"
  shows "\<exists>s'. filter_loop f store now s messages =
      Inr (nths messages {i. \<not> is_dup (seen s) f (now i) (messages ! i)},
           nths messages {i. is_dup (seen s) f (now i) (messages ! i)},
           dup_events f (nths messages {i. is_dup (seen s) f (now i) (messages ! i)}), s') \<and> inv s' \<and>
    (\<forall>now' k. (\<forall>i<length messages. mono (now i) \<le> mono now') \<longrightarrow> seen s' now' k = seen s now' k)"
  using assms
proof (induction messages arbitrary: s now)
  case Nil
  then show ?case by (auto simp: dup_events_def)
next
  case (Cons msg messages)
  let ?now = "\<lambda>i. now (Suc i)"
  have clock: "clock_monotone ?now" using Cons.prems(2) by (simp add: clock_monotone_def)
  show ?case
  proof (cases "msg_key f msg")
    case None
    with Cons.IH[OF Cons.prems(1) clock] show ?thesis
      by (fastforce simp: msg_key_def is_dup_def nths_Cons dup_events_def)
  next
    case (Some key)
    obtain s1 where e: "st_Exists store s (now 0) key = Inr ((seen s (now 0) key, None), s1)" and i1: "inv s1"
      and same: "\<And>now' k'. mono (now 0) \<le> mono now' \<Longrightarrow> seen s1 now' k' = seen s now' k'"
      using exists_answers[OF Cons.prems(1)] by metis
    have "mono (now 0) \<le> mono (now (Suc i))" for i using Cons.prems(2) by (simp add: clock_monotone_def)
    then have dup: "is_dup (seen s1) f (now (Suc i)) m = is_dup (seen s) f (now (Suc i)) m" for i m
      by (simp add: is_dup_def same split: option.split)
    show ?thesis
      using Cons.IH[OF i1 clock, unfolded dup] same e Some
      by (fastforce simp: msg_key_def is_dup_def[of _ _ "now 0"] nths_Cons dup_events_def)
  qed
qed

text \<open>Once a message is marked, its key is seen until the mark expires, and no other key changes.\<close>

lemma marked_seen:
  assumes "inv s" and "f_store f = Some store" and "msg_key f msg = Some key"
  shows "\<exists>s'. filter_mark f now s msg = Inr (None, s') \<and> inv s' \<and>
    (\<forall>now' m. is_dup (seen s') f now' m =
      (if msg_key f m = Some key then \<not> time_After now' (time_Add now (f_ttl f)) else is_dup (seen s) f now' m))"
proof -
  obtain s' where "st_Mark store s now key (f_ttl f) = Inr (None, s')" "inv s'"
    "\<And>now' k'. seen s' now' k' = (if k' = key then \<not> time_After now' (time_Add now (f_ttl f)) else seen s now' k')"
    using mark_records[OF assms(1)] by metis
  then show ?thesis using assms(2,3)
    by (auto simp: filter_mark_def msg_key_def is_dup_def split: option.splits)
qed

end

section \<open>The memory store provides it\<close>

lemma ms_read_delete: "ms_read (ms_delete s key) k = (if k = key then None else ms_read s k)"
  by (simp add: ms_read_def ms_delete_def split: option.split)

interpretation memory: idem_store ms_inv ms_seen MemoryIdemStore
proof
  fix s now k
  assume inv: "ms_inv s"
  show "\<exists>s'. st_Exists MemoryIdemStore s now k = Inr ((ms_seen s now k, None), s') \<and> ms_inv s' \<and>
      (\<forall>now' k'. mono now \<le> mono now' \<longrightarrow> ms_seen s' now' k' = ms_seen s now' k')"
  proof (cases "ms_read s k")
    case (Some entry)
    show ?thesis
    proof (cases "time_After now (expiresAt entry)")
      case True
      have "ms_seen (ms_delete s k) now' k' = ms_seen s now' k'" if "mono now \<le> mono now'" for now' k'
        using that Some True by (auto simp: ms_seen_def ms_read_delete time_After_def)
      moreover have "ms_inv (ms_delete s k)" using inv by (auto simp: ms_inv_def ms_delete_def)
      ultimately show ?thesis using Some True by (simp add: MemoryIdemStore_def ms_Exists_def ms_seen_def)
    qed (use Some inv in \<open>simp add: MemoryIdemStore_def ms_Exists_def ms_seen_def\<close>)
  qed (use inv in \<open>simp add: MemoryIdemStore_def ms_Exists_def ms_seen_def\<close>)
next
  fix s now k ttl
  assume inv: "ms_inv s"
  then obtain m where m: "ms_keys s = Some m" by (auto simp: ms_inv_def)
  let ?s = "s\<lparr>ms_keys := Some (m(k \<mapsto> \<lparr>expiresAt = time_Add now ttl\<rparr>))\<rparr>"
  have "st_Mark MemoryIdemStore s now k ttl = Inr (None, ?s)" using m by (simp add: MemoryIdemStore_def ms_Mark_def)
  moreover have "ms_inv ?s" using inv by (simp add: ms_inv_def)
  moreover have "ms_seen ?s now' k' = (if k' = k then \<not> time_After now' (time_Add now ttl) else ms_seen s now' k')"
    for now' k' using m by (simp add: ms_seen_def ms_read_def)
  ultimately show "\<exists>s'. st_Mark MemoryIdemStore s now k ttl = Inr (None, s') \<and> ms_inv s' \<and>
      (\<forall>now' k'. ms_seen s' now' k' = (if k' = k then \<not> time_After now' (time_Add now ttl) else ms_seen s now' k'))"
    by blast
qed

section \<open>The two filters agree\<close>

lemma Filter_loop_eq:
  assumes "xf_attributeKey xf = f_attributeKey f" and "xf_onDuplicate xf = f_onDuplicate f"
  shows "Filter_loop xf store now i s messages kept dups evs =
    (case filter_loop f store (\<lambda>j. now (i + j)) s messages of
       Inl p \<Rightarrow> Inl p
     | Inr (kept', dups', evs', s') \<Rightarrow> Inr (kept @ kept', dups @ dups', evs @ evs', s'))"
proof (induction messages arbitrary: i s kept dups evs)
  case (Cons msg messages)
  then show ?case using assms by (auto split: option.split sum.split prod.split)
qed simp

section \<open>Stores that fail\<close>

lemma filter_loop_failing:
  assumes "\<And>s now key. \<exists>b e s'. st_Exists store s now key = Inr ((b, Some e), s')"
  shows "\<exists>evs s'. filter_loop f store now s messages =
    Inr (filter (\<lambda>m. msg_key f m = None) messages, filter (\<lambda>m. msg_key f m \<noteq> None) messages, evs, s')"
proof (induction messages arbitrary: s now)
  case (Cons msg messages)
  show ?case
  proof (cases "msg_key f msg")
    case None
    with Cons.IH[of "\<lambda>i. now (Suc i)" s] show ?thesis by (auto simp: msg_key_def)
  next
    case (Some key)
    obtain b e s1 where "st_Exists store s (now 0) key = Inr ((b, Some e), s1)" using assms by blast
    with Cons.IH[of "\<lambda>i. now (Suc i)" s1] Some show ?thesis by (auto simp: msg_key_def)
  qed
qed simp

lemma rs_Exists_failing:
  assumes "snd (fst (rc_Get client c now (prefix @ key))) = Some e" and "\<not> errors_Is_KeyNotFound e"
  shows "\<exists>c'. rs_Exists \<lparr>rs_client = Some client, rs_prefix = prefix\<rparr> c now key = Inr ((False, Some e), c')"
  using assms by (cases "rc_Get client c now (prefix @ key)") (auto simp: rs_Exists_def)

section \<open>Interleaved calls\<close>

lemma ms_read_evict: "ms_read (ms_evict s now) k = (case ms_read s k of None \<Rightarrow> None
    | Some entry \<Rightarrow> if time_After now (expiresAt entry) then None else Some entry)"
  by (simp add: ms_read_def ms_evict_def split: option.split)

lemma ms_read_Mark: "ms_Mark s now key ttl = Inr (r, s') \<Longrightarrow>
    ms_read s' k = (if k = key then Some \<lparr>expiresAt = time_Add now ttl\<rparr> else ms_read s k)"
  by (auto simp: ms_read_def ms_Mark_def split: option.splits)

lemma mark_step:
  assumes "ms_step c e c'" and "ms_read (fst c) key = Some entry" and "key \<notin> set (snd c)"
    and "keeps_mark key entry e"
  shows "ms_read (fst c') key = Some entry \<and> key \<notin> set (snd c') \<and> (\<forall>now b. e = MsExists key now b \<longrightarrow> b)"
  using assms
  by (induction rule: ms_step.induct)
    (auto simp: keeps_mark_def ms_read_delete ms_read_evict ms_read_Mark notin_set_remove1)

lemma mark_run:
  assumes "ms_run c es c'" and "ms_read (fst c) key = Some entry" and "key \<notin> set (snd c)"
    and "\<forall>e\<in>set es. keeps_mark key entry e"
  shows "\<forall>now b. MsExists key now b \<in> set es \<longrightarrow> b"
  using assms
proof (induction rule: ms_run.induct)
  case (cons s e t es u)
  from mark_step[OF cons.hyps(1) cons.prems(1,2)] cons show ?case by auto
qed simp

section \<open>Properties\<close>

text \<open>With the memory store, the filter splits a batch exactly by what the store has seen:
  a message is a duplicate if and only if it has the key attribute and the key is marked
  and unexpired at the time it is looked up; both parts keep the order, every duplicate
  fires its hook once, and nothing panics.\<close>

theorem filter_partitions:
  assumes "ms_inv s" and "clock_monotone now" and "f_store f = Some MemoryIdemStore"
  shows "\<exists>s'. filterDuplicates f now s messages =
      Inr (nths messages {i. \<not> is_dup (ms_seen s) f (now i) (messages ! i)},
           nths messages {i. is_dup (ms_seen s) f (now i) (messages ! i)},
           dup_events f (nths messages {i. is_dup (ms_seen s) f (now i) (messages ! i)}), s') \<and> ms_inv s'"
  using memory.loop_partitions[OF assms(1,2), of f messages] assms(3)
  by (auto simp: filterDuplicates_def)

theorem filter_partitions_witness:
  "\<exists>s'. filterDuplicates memory_filter (\<lambda>_. at_second 1)
      \<lparr>ms_keys = Some [''k'' \<mapsto> \<lparr>expiresAt = at_second 9\<rparr>], ms_stopClosed = False\<rparr>
      [keyed_msg ''1'' ''k'', keyed_msg ''2'' ''j'', keyed_msg ''3'' ''j''] =
    Inr ([keyed_msg ''2'' ''j'', keyed_msg ''3'' ''j''], [keyed_msg ''1'' ''k''], [OnDuplicate ''k''], s')"
proof -
  let ?s = "\<lparr>ms_keys = Some [''k'' \<mapsto> \<lparr>expiresAt = at_second 9\<rparr>], ms_stopClosed = False\<rparr>"
  have "ms_inv ?s" "clock_monotone (\<lambda>_. at_second 1)" "f_store memory_filter = Some MemoryIdemStore"
    by (simp_all add: ms_inv_def clock_monotone_def memory_filter_def newIdemFilter_def)
  from filter_partitions[OF this, of "[keyed_msg ''1'' ''k'', keyed_msg ''2'' ''j'', keyed_msg ''3'' ''j'']"]
  show ?thesis
    by (auto simp: nths_Cons is_dup_def msg_key_def keyed_msg_def memory_filter_def newIdemFilter_def
        ms_seen_def ms_read_def dup_events_def go_simps at_second_def)
qed

text \<open>Marking works: after a processed message is marked, every message with the same key is a
  duplicate until the time-to-live has passed and is not one afterwards; messages with
  another key, or none, are classified as before.\<close>

theorem marked_is_dropped:
  assumes "ms_inv s" and "f_store f = Some MemoryIdemStore" and "msg_key f msg = Some key"
  shows "\<exists>s'. filter_mark f now s msg = Inr (None, s') \<and> ms_inv s' \<and>
    (\<forall>now' m. is_dup (ms_seen s') f now' m =
      (if msg_key f m = Some key then \<not> time_After now' (time_Add now (f_ttl f))
       else is_dup (ms_seen s) f now' m))"
  by (rule memory.marked_seen[OF assms])

theorem marked_is_dropped_witness:
  "\<exists>s'. filter_mark memory_filter (at_second 5) NewMemoryStore (keyed_msg ''1'' ''k'') = Inr (None, s') \<and>
     is_dup (ms_seen s') memory_filter (at_second (5 + 24 * 60 * 60)) (keyed_msg ''2'' ''k'')"
proof -
  have h: "ms_inv NewMemoryStore" "f_store memory_filter = Some MemoryIdemStore"
    "msg_key memory_filter (keyed_msg i ''k'') = Some ''k''" for i
    by (simp_all add: ms_inv_def NewMemoryStore_def memory_filter_def newIdemFilter_def msg_key_def keyed_msg_def
        go_simps)
  from marked_is_dropped[OF h(1,2) h(3)[of "''1''"], of "at_second 5"] h(3) show ?thesis
    by (auto simp: memory_filter_def newIdemFilter_def go_simps at_second_def)
qed

text \<open>A failing store makes every keyed message a duplicate: when the Redis client answers
  each \<open>Get\<close> with an error other than key-not-found, the filter returns as duplicates all
  messages that carry the key attribute, which the pipeline then acknowledges unprocessed.\<close>

theorem failing_store_drops_all:
  assumes "\<forall>c now k. \<exists>e. snd (fst (rc_Get client c now k)) = Some e \<and> \<not> errors_Is_KeyNotFound e"
    and "f_store f = Some (RedisIdemStore \<lparr>rs_client = Some client, rs_prefix = prefix\<rparr>)"
  shows "\<exists>evs c'. filterDuplicates f now c messages =
    Inr (filter (\<lambda>m. msg_key f m = None) messages, filter (\<lambda>m. msg_key f m \<noteq> None) messages, evs, c')"
proof -
  have "\<exists>b e c'. st_Exists (RedisIdemStore \<lparr>rs_client = Some client, rs_prefix = prefix\<rparr>) c now key =
      Inr ((b, Some e), c')" for c now key
    using assms(1) rs_Exists_failing[of client c now prefix key] by (fastforce simp: RedisIdemStore_def)
  from filter_loop_failing[OF this] show ?thesis using assms(2) by (simp add: filterDuplicates_def)
qed

theorem failing_store_drops_all_witness:
  "let client = \<lparr>rc_Get = \<lambda>c now k. (('''', Some (ExternalError ''connection refused'')), c),
         rc_SetNX = \<lambda>c now k v ttl. ((False, None), c), rc_Del = \<lambda>c ks. ((0, None), c), rc_Close = \<lambda>c. (None, c)\<rparr>;
       f = newIdemFilter \<lparr>ic_Store = Some (RedisIdemStore (NewRedisStore (Some client) '''')),
             ic_AttributeKey = '''', ic_TTL = 0\<rparr> False
   in \<exists>evs c'. filterDuplicates f (\<lambda>_. at_second 0) () [keyed_msg ''1'' ''k''] =
        Inr ([], [keyed_msg ''1'' ''k''], evs, c')"
  unfolding Let_def
proof (goal_cases)
  case 1
  let ?client = "\<lparr>rc_Get = \<lambda>(c::unit) now k. (('''', Some (ExternalError ''connection refused'')), c),
      rc_SetNX = \<lambda>c now k v ttl. ((False, None), c), rc_Del = \<lambda>c ks. ((0, None), c), rc_Close = \<lambda>c. (None, c)\<rparr>"
  let ?f = "newIdemFilter \<lparr>ic_Store = Some (RedisIdemStore (NewRedisStore (Some ?client) '''')),
      ic_AttributeKey = '''', ic_TTL = 0\<rparr> False"
  have "f_store ?f = Some (RedisIdemStore \<lparr>rs_client = Some ?client, rs_prefix = ''idem:''\<rparr>)"
    by (simp add: newIdemFilter_def NewRedisStore_def)
  from failing_store_drops_all[OF _ this, of "\<lambda>_. at_second 0" "()" "[keyed_msg ''1'' ''k'']"]
  show ?case by (simp add: msg_key_def keyed_msg_def newIdemFilter_def go_simps)
qed

text \<open>C39. The exported filter of package \<open>idempotency\<close> and the pipeline's own filter are the same
  function: for the same configuration they return the same kept messages, duplicates and
  hook calls, leave the store in the same state and panic in the same cases, for any
  store, and so do marking and closing.\<close>

theorem filters_equivalent:
  "let xf = NewFilter \<lparr>xc_Store = store, xc_AttributeKey = key, xc_TTL = ttl, xc_OnDuplicate = od\<rparr>;
       f = newIdemFilter \<lparr>ic_Store = store, ic_AttributeKey = key, ic_TTL = ttl\<rparr> od
   in Filter_Filter xf now s messages = filterDuplicates f now s messages \<and>
      Filter_Mark xf t s msg = filter_mark f t s msg \<and> Filter_Close xf s = filter_close f s"
  using Filter_loop_eq[of "NewFilter \<lparr>xc_Store = store, xc_AttributeKey = key, xc_TTL = ttl, xc_OnDuplicate = od\<rparr>"
      "newIdemFilter \<lparr>ic_Store = store, ic_AttributeKey = key, ic_TTL = ttl\<rparr> od" _ now 0 s messages "[]" "[]" "[]"]
  by (auto simp: NewFilter_def newIdemFilter_def Filter_Filter_def filterDuplicates_def Filter_Mark_def
      filter_mark_def Filter_Close_def filter_close_def Let_def split: option.split sum.split prod.split)

text \<open>Under concurrency an unexpired mark is found as long as no call has already decided to
  delete the key: in every interleaving that starts with the key marked, no deletion of it
  pending, and in which all clocks read before its expiry and the store is neither closed
  nor the key marked again, every \<open>Exists\<close> of the key answers true.\<close>

theorem mark_survives_interleaving:
  assumes "ms_run (s, pend) es c'" and "ms_read s key = Some entry" and "key \<notin> set pend"
    and "\<forall>e\<in>set es. keeps_mark key entry e"
  shows "\<forall>now b. MsExists key now b \<in> set es \<longrightarrow> b"
  using mark_run[OF assms(1)] assms(2-4) by simp

theorem mark_survives_interleaving_witness:
  "\<not> (\<exists>c'. ms_run (\<lparr>ms_keys = Some [''k'' \<mapsto> \<lparr>expiresAt = at_second 9\<rparr>], ms_stopClosed = False\<rparr>, [])
     [MsExists ''k'' (at_second 1) False] c')"
proof
  assume "\<exists>c'. ms_run (\<lparr>ms_keys = Some [''k'' \<mapsto> \<lparr>expiresAt = at_second 9\<rparr>], ms_stopClosed = False\<rparr>, [])
     [MsExists ''k'' (at_second 1) False] c'"
  then obtain c' where "ms_run (\<lparr>ms_keys = Some [''k'' \<mapsto> \<lparr>expiresAt = at_second 9\<rparr>], ms_stopClosed = False\<rparr>, [])
     [MsExists ''k'' (at_second 1) False] c'" ..
  from mark_survives_interleaving[OF this, of "''k''" "\<lparr>expiresAt = at_second 9\<rparr>"] show False
    by (auto simp: ms_read_def keeps_mark_def go_simps at_second_def)
qed

text \<open>The gap between the two critical sections of \<open>Exists\<close> can forget a fresh mark: a call
  finds the old entry expired, another call marks the key again, the first call then
  deletes the new entry, and a third call at once answers that the key does not exist.\<close>

theorem exists_race_forgets_mark:
  "\<exists>c. ms_run (\<lparr>ms_keys = Some [''k'' \<mapsto> \<lparr>expiresAt = at_second 1\<rparr>], ms_stopClosed = False\<rparr>, [])
     [MsExpired ''k'' (at_second 2), MsMark ''k'' (at_second 2) Hour, MsDelete ''k'',
      MsExists ''k'' (at_second 3) False] c"
proof -
  let ?s = "\<lparr>ms_keys = Some [''k'' \<mapsto> \<lparr>expiresAt = at_second 1\<rparr>], ms_stopClosed = False\<rparr>"
  obtain s' where m: "ms_Mark ?s (at_second 2) ''k'' Hour = Inr (None, s')" by (simp add: ms_Mark_def)
  have r: "ms_read ?s ''k'' = Some \<lparr>expiresAt = at_second 1\<rparr>"
    and t: "time_After (at_second 2) (expiresAt \<lparr>expiresAt = at_second 1\<rparr>)"
    by (simp_all add: ms_read_def at_second_def go_simps)
  have "ms_run (?s, []) [MsExpired ''k'' (at_second 2), MsMark ''k'' (at_second 2) Hour, MsDelete ''k'',
      MsExists ''k'' (at_second 3) False] (ms_delete s' ''k'', [])"
    by (rule ms_run.cons[OF ms_step.expired[OF r t]], rule ms_run.cons[OF ms_step.mark[OF m]],
        rule ms_run.cons[OF ms_step.delete], simp, simp, rule ms_run.cons[OF ms_step.miss])
      (simp_all add: ms_read_delete ms_run.nil)
  then show ?thesis by blast
qed

end
