(* ===== verification/Timer_Wheel.thy ===== *)
theory Timer_Wheel
  imports Prelude
begin

text \<open>
  The timer wheel that holds delayed messages: \<open>src/internal/timerwheel/wheel.go\<close>.

  \<open>wheel\<close> is the struct \<open>Wheel\<close>; \<open>w_buckets\<close> is the Go map from the second a slot is due
  to the slots of that second (\<open>None\<close> is the nil map that \<open>Drain\<close> and \<open>Close\<close> leave).
  Every operation is one critical section. The clock readings an operation takes
  (\<open>time.Now()\<close>, the tick of the ticker) are arguments. Go iterates over a map in an
  unspecified order, so the operations that range over the buckets take the order as an
  argument too; the theorems hold for every order that visits each bucket once.

  \<open>ticker_tick\<close> and \<open>Start_step\<close> are the goroutine \<open>Start\<close> spawns: one iteration
  of its loop, with the buffered channel it sends to.
\<close>

section \<open>The wheel and its operations\<close>

definition tickInterval :: duration where
  "tickInterval = Second"

record 'a slot =
  s_target :: gotime
  s_item :: 'a

record 'a wheel =
  w_buckets :: "(int \<rightharpoonup> 'a slot list) option"
  w_closed :: bool

definition wheel_New :: "'a wheel" where
  "wheel_New = \<lparr>w_buckets = Some Map.empty, w_closed = False\<rparr>"

text \<open>Reading the bucket of a second; a missing bucket and a nil map read as an empty slice.\<close>

definition bucket :: "'a wheel \<Rightarrow> int \<Rightarrow> 'a slot list" where
  "bucket w t = (case w_buckets w of None \<Rightarrow> []
     | Some m \<Rightarrow> (case m t of None \<Rightarrow> [] | Some slots \<Rightarrow> slots))"

definition wheel_Insert :: "'a wheel \<Rightarrow> 'a \<Rightarrow> duration \<Rightarrow> gotime \<Rightarrow> 'a wheel go" where
  "wheel_Insert w item delay now =
     (if w_closed w then Inr w
      else let target = time_Add now delay; tick = time_Unix target
           in case w_buckets w of
                None \<Rightarrow> Inl NilMapWrite
              | Some m \<Rightarrow> Inr (w\<lparr>w_buckets :=
                   Some (m(tick \<mapsto> bucket w tick @ [\<lparr>s_target = target, s_item = item\<rparr>]))\<rparr>))"

text \<open>The loop over the slots of one bucket: what is kept and what has expired.\<close>

fun split_slots :: "gotime \<Rightarrow> 'a slot list \<Rightarrow> 'a slot list \<times> 'a list" where
  "split_slots now [] = ([], [])"
| "split_slots now (s # slots) =
     (let (keep, result) = split_slots now slots
      in if time_After (s_target s) now then (s # keep, result) else (keep, s_item s # result))"

text \<open>The loop over the buckets, in the iteration order \<open>ts\<close>.\<close>

fun expire_loop :: "int \<Rightarrow> gotime \<Rightarrow> (int \<rightharpoonup> 'a slot list) \<Rightarrow> int list
    \<Rightarrow> 'a list \<times> (int \<rightharpoonup> 'a slot list)" where
  "expire_loop tick now m [] = ([], m)"
| "expire_loop tick now m (t # ts) =
     (if t > tick then expire_loop tick now m ts
      else let slots = (case m t of None \<Rightarrow> [] | Some slots \<Rightarrow> slots);
               (keep, expired) = split_slots now slots;
               m' = (if keep \<noteq> [] then m(t \<mapsto> keep) else m(t := None));
               (result, m'') = expire_loop tick now m' ts
           in (expired @ result, m''))"

definition expire :: "'a wheel \<Rightarrow> int \<Rightarrow> gotime \<Rightarrow> int list \<Rightarrow> 'a list \<times> 'a wheel" where
  "expire w tick now order =
     (case w_buckets w of
        None \<Rightarrow> ([], w)
      | Some m \<Rightarrow> (let (result, m') = expire_loop tick now m order
                   in (result, w\<lparr>w_buckets := Some m'\<rparr>)))"

text \<open>All slots, in the iteration order.\<close>

fun slots_in_order :: "'a wheel \<Rightarrow> int list \<Rightarrow> 'a slot list" where
  "slots_in_order w [] = []"
| "slots_in_order w (t # ts) = bucket w t @ slots_in_order w ts"

definition wheel_Len :: "'a wheel \<Rightarrow> int list \<Rightarrow> nat" where
  "wheel_Len w order = length (slots_in_order w order)"

definition wheel_Drain :: "'a wheel \<Rightarrow> int list \<Rightarrow> 'a list \<times> 'a wheel" where
  "wheel_Drain w order =
     (map s_item (slots_in_order w order), w\<lparr>w_closed := True, w_buckets := None\<rparr>)"

definition wheel_Close :: "'a wheel \<Rightarrow> 'a wheel" where
  "wheel_Close w = w\<lparr>w_closed := True, w_buckets := None\<rparr>"

section \<open>The ticker goroutine\<close>

text \<open>
  The goroutine's program counter, the channel of capacity 64 it sends to and whether its
  context is done. An iteration takes a tick, expires, and then selects between sending a
  non-empty batch and the context; which ready case a \<open>select\<close> takes is not determined.
\<close>

datatype 'a ticker_pc = Ticking | Sending "'a list" | Stopped

record 'a ticker =
  tk_pc :: "'a ticker_pc"
  tk_out :: "'a list list"
  tk_outClosed :: bool
  tk_ctxDone :: bool

definition out_capacity :: nat where
  "out_capacity = 64"

definition ticker_New :: "'a ticker" where
  "ticker_New = \<lparr>tk_pc = Ticking, tk_out = [], tk_outClosed = False, tk_ctxDone = False\<rparr>"

definition bucket_keys :: "'a wheel \<Rightarrow> int set" where
  "bucket_keys w = (case w_buckets w of None \<Rightarrow> {} | Some m \<Rightarrow> dom m)"

definition ticker_tick :: "'a wheel \<Rightarrow> 'a ticker \<Rightarrow> gotime \<Rightarrow> gotime \<Rightarrow> int list
    \<Rightarrow> 'a wheel \<times> 'a ticker" where
  "ticker_tick w tk tick_now expire_now order =
     (let (batch, w') = expire w (time_Unix tick_now) expire_now order
      in (w', tk\<lparr>tk_pc := if batch = [] then Ticking else Sending batch\<rparr>))"

text \<open>
  The receiver of the channel is the pipeline's \<open>runTimer\<close>; what it has received so far is
  the third component.
\<close>

datatype 'a tk_event = TkTick gotime gotime | TkSend | TkStop | TkReceive "'a list"
  | TkInsert 'a duration gotime | TkCancel

type_synonym 'a tk_state = "'a wheel \<times> 'a ticker \<times> 'a list"

inductive Start_step :: "'a tk_state \<Rightarrow> 'a tk_event \<Rightarrow> 'a tk_state \<Rightarrow> bool" where
  tick: "tk_pc tk = Ticking \<Longrightarrow> distinct order \<Longrightarrow> set order = bucket_keys w \<Longrightarrow>
     ticker_tick w tk tick_now expire_now order = (w', tk') \<Longrightarrow>
     Start_step (w, tk, rcv) (TkTick tick_now expire_now) (w', tk', rcv)"
| send: "tk_pc tk = Sending batch \<Longrightarrow> length (tk_out tk) < out_capacity \<Longrightarrow>
     Start_step (w, tk, rcv) TkSend (w, tk\<lparr>tk_pc := Ticking, tk_out := tk_out tk @ [batch]\<rparr>, rcv)"
| stop: "tk_ctxDone tk \<Longrightarrow> tk_pc tk \<noteq> Stopped \<Longrightarrow>
     Start_step (w, tk, rcv) TkStop (w, tk\<lparr>tk_pc := Stopped, tk_outClosed := True\<rparr>, rcv)"
| receive: "tk_out tk = batch # rest \<Longrightarrow>
     Start_step (w, tk, rcv) (TkReceive batch) (w, tk\<lparr>tk_out := rest\<rparr>, rcv @ batch)"
| insert: "wheel_Insert w item delay now = Inr w' \<Longrightarrow>
     Start_step (w, tk, rcv) (TkInsert item delay now) (w', tk, rcv)"
| cancel: "Start_step (w, tk, rcv) TkCancel (w, tk\<lparr>tk_ctxDone := True\<rparr>, rcv)"

inductive Start_run :: "'a tk_state \<Rightarrow> 'a tk_event list \<Rightarrow> 'a tk_state \<Rightarrow> bool" where
  nil: "Start_run s [] s"
| cons: "Start_step s e t \<Longrightarrow> Start_run t es u \<Longrightarrow> Start_run s (e # es) u"

fun inserted :: "'a tk_event list \<Rightarrow> 'a list" where
  "inserted [] = []"
| "inserted (TkInsert item delay now # es) = item # inserted es"
| "inserted (_ # es) = inserted es"

section \<open>Abstraction and invariant\<close>

text \<open>An order in which a \<open>range\<close> over the buckets may visit them.\<close>

definition iteration_order :: "'a wheel \<Rightarrow> int list \<Rightarrow> bool" where
  "iteration_order w order \<longleftrightarrow> distinct order \<and> set order = bucket_keys w"

definition wheel_slots :: "'a wheel \<Rightarrow> 'a slot multiset" where
  "wheel_slots w = (\<Sum>t\<in>bucket_keys w. mset (bucket w t))"

abbreviation wheel_items :: "'a wheel \<Rightarrow> 'a multiset" where
  "wheel_items w \<equiv> image_mset s_item (wheel_slots w)"

text \<open>Everything between \<open>Insert\<close> and the receiver.\<close>

fun tk_total :: "'a tk_state \<Rightarrow> 'a multiset" where
  "tk_total (w, tk, rcv) = wheel_items w +
     (case tk_pc tk of Sending batch \<Rightarrow> mset batch | _ \<Rightarrow> {#}) + mset (concat (tk_out tk)) + mset rcv"

definition wheel_inv :: "'a wheel \<Rightarrow> bool" where
  "wheel_inv w \<longleftrightarrow> (w_closed w \<longleftrightarrow> w_buckets w = None) \<and> finite (bucket_keys w) \<and>
     (\<forall>t\<in>bucket_keys w. bucket w t \<noteq> []) \<and>
     (\<forall>t. \<forall>s\<in>set (bucket w t). time_Unix (s_target s) = t)"

text \<open>A slot is due at a tick when the loop of \<open>expire\<close> takes it.\<close>

definition due :: "int \<Rightarrow> gotime \<Rightarrow> 'a slot \<Rightarrow> bool" where
  "due tick now s \<longleftrightarrow> time_Unix (s_target s) \<le> tick \<and> \<not> time_After (s_target s) now"

text \<open>What a pass over one bucket releases and what it keeps.\<close>

definition slots_at :: "(int \<rightharpoonup> 'a slot list) \<Rightarrow> int \<Rightarrow> 'a slot list" where
  "slots_at m t = (case m t of None \<Rightarrow> [] | Some slots \<Rightarrow> slots)"

definition released_at :: "int \<Rightarrow> gotime \<Rightarrow> (int \<rightharpoonup> 'a slot list) \<Rightarrow> int \<Rightarrow> 'a slot list" where
  "released_at tick now m t =
     (if t \<le> tick then filter (\<lambda>s. \<not> time_After (s_target s) now) (slots_at m t) else [])"

definition kept_at :: "int \<Rightarrow> gotime \<Rightarrow> (int \<rightharpoonup> 'a slot list) \<Rightarrow> int \<Rightarrow> 'a slot list" where
  "kept_at tick now m t =
     (if t \<le> tick then filter (\<lambda>s. time_After (s_target s) now) (slots_at m t) else slots_at m t)"

text \<open>A clock reading for the concrete examples.\<close>

definition sample_now :: "int \<Rightarrow> gotime" where
  "sample_now t = \<lparr>wall = t * Second, mono = t * Second\<rparr>"

section \<open>Expiry\<close>

lemma split_slots_eq:
  "split_slots now slots = (filter (\<lambda>s. time_After (s_target s) now) slots,
     map s_item (filter (\<lambda>s. \<not> time_After (s_target s) now) slots))"
  by (induction slots) auto

lemma expire_loop_out:
  assumes "distinct ts"
  shows "fst (expire_loop tick now m ts) = map s_item (concat (map (released_at tick now m) ts))"
  using assms
proof (induction ts arbitrary: m)
  case (Cons t ts)
  show ?case
  proof (cases "t > tick")
    case True
    with Cons show ?thesis by (simp add: released_at_def)
  next
    case False
    let ?keep = "filter (\<lambda>s. time_After (s_target s) now) (slots_at m t)"
    let ?m = "if ?keep \<noteq> [] then m(t \<mapsto> ?keep) else m(t := None)"
    have eq: "map (released_at tick now ?m) ts = map (released_at tick now m) ts"
      using Cons.prems by (auto simp: released_at_def slots_at_def)
    have d: "distinct ts" using Cons.prems by simp
    have IH: "fst (expire_loop tick now ?m ts) = map s_item (concat (map (released_at tick now m) ts))"
      by (simp only: Cons.IH[OF d] eq)
    have "fst (expire_loop tick now m (t # ts)) =
      map s_item (released_at tick now m t) @ fst (expire_loop tick now ?m ts)"
      using False
      by (simp add: split_slots_eq slots_at_def[symmetric] released_at_def Let_def split_def)
    with IH show ?thesis by simp
  qed
qed simp

lemma expire_loop_map:
  assumes "distinct ts"
  shows "snd (expire_loop tick now m ts) t = (if t \<in> set ts \<and> t \<le> tick then
    (if kept_at tick now m t = [] then None else Some (kept_at tick now m t)) else m t)"
  using assms
proof (induction ts arbitrary: m)
  case (Cons u ts)
  show ?case
  proof (cases "u > tick")
    case True
    with Cons show ?thesis by auto
  next
    case False
    let ?keep = "filter (\<lambda>s. time_After (s_target s) now) (slots_at m u)"
    let ?m = "if ?keep \<noteq> [] then m(u \<mapsto> ?keep) else m(u := None)"
    have "snd (expire_loop tick now m (u # ts)) t = snd (expire_loop tick now ?m ts) t"
      using False by (simp add: split_slots_eq slots_at_def[symmetric] Let_def split_def)
    also have "\<dots> = (if t \<in> set ts \<and> t \<le> tick then
      (if kept_at tick now ?m t = [] then None else Some (kept_at tick now ?m t)) else ?m t)"
      using Cons.IH[of ?m] Cons.prems by simp
    also have "\<dots> = (if t \<in> set (u # ts) \<and> t \<le> tick then
      (if kept_at tick now m t = [] then None else Some (kept_at tick now m t)) else m t)"
      using False Cons.prems by (auto simp: kept_at_def slots_at_def)
    finally show ?thesis .
  qed
qed simp

lemma bucket_slots_at: "w_buckets w = Some m \<Longrightarrow> bucket w t = slots_at m t"
  by (simp add: bucket_def slots_at_def)

lemma bucket_keys_Some: "w_buckets w = Some m \<Longrightarrow> bucket_keys w = dom m"
  by (simp add: bucket_keys_def)

text \<open>The buckets after a pass.\<close>

lemma expire_bucket:
  assumes "iteration_order w order" and "expire w tick now order = (out, w')"
  shows "bucket w' t = (if t \<le> tick then filter (\<lambda>s. time_After (s_target s) now) (bucket w t) else bucket w t)"
    and "w_closed w' = w_closed w" and "w_buckets w' = None \<longleftrightarrow> w_buckets w = None"
    and "bucket_keys w' = {t \<in> bucket_keys w. t \<le> tick \<longrightarrow> bucket w' t \<noteq> []}"
proof -
  have "bucket w' t = (if t \<le> tick then filter (\<lambda>s. time_After (s_target s) now) (bucket w t) else bucket w t) \<and>
    w_closed w' = w_closed w \<and> (w_buckets w' = None \<longleftrightarrow> w_buckets w = None) \<and>
    bucket_keys w' = {t \<in> bucket_keys w. t \<le> tick \<longrightarrow> bucket w' t \<noteq> []}" for t
  proof (cases "w_buckets w")
    case None
    with assms(2) show ?thesis by (auto simp: expire_def bucket_def bucket_keys_def)
  next
    case (Some m)
    then have ord: "distinct order" "set order = dom m"
      using assms(1) by (simp_all add: iteration_order_def bucket_keys_Some)
    obtain m' where m': "w' = w\<lparr>w_buckets := Some m'\<rparr>" "m' = snd (expire_loop tick now m order)"
      using assms(2) Some by (auto simp: expire_def split: prod.splits)
    have at: "m' t = (if t \<in> dom m \<and> t \<le> tick then
      (if kept_at tick now m t = [] then None else Some (kept_at tick now m t)) else m t)" for t
      by (simp only: m'(2) expire_loop_map[OF ord(1)] ord(2))
    have b': "bucket w' t = slots_at m' t" for t using m'(1) by (simp add: bucket_def slots_at_def)
    have "slots_at m' t = kept_at tick now m t" for t
      using at[of t] by (auto simp: slots_at_def kept_at_def split: option.splits)
    moreover have "dom m' = {t \<in> dom m. t \<le> tick \<longrightarrow> kept_at tick now m t \<noteq> []}"
      using at by (auto simp: domIff split: if_splits)
    ultimately show ?thesis
      using m'(1) b' Some by (simp add: bucket_slots_at[OF Some] kept_at_def bucket_keys_def)
  qed
  then show "bucket w' t = (if t \<le> tick then filter (\<lambda>s. time_After (s_target s) now) (bucket w t) else bucket w t)"
    and "w_closed w' = w_closed w" and "w_buckets w' = None \<longleftrightarrow> w_buckets w = None"
    and "bucket_keys w' = {t \<in> bucket_keys w. t \<le> tick \<longrightarrow> bucket w' t \<noteq> []}"
    by blast+
qed

lemma expire_out:
  assumes "iteration_order w order" and "expire w tick now order = (out, w')"
  shows "out = map s_item (concat (map (\<lambda>t. if t \<le> tick
    then filter (\<lambda>s. \<not> time_After (s_target s) now) (bucket w t) else []) order))"
proof (cases "w_buckets w")
  case None
  with assms show ?thesis
    by (simp add: expire_def iteration_order_def bucket_keys_def)
next
  case (Some m)
  then have "out = fst (expire_loop tick now m order)"
    using assms(2) by (auto simp: expire_def split: prod.splits)
  moreover have "(\<lambda>t. if t \<le> tick then filter (\<lambda>s. \<not> time_After (s_target s) now) (bucket w t) else [])
      = released_at tick now m"
    by (simp add: fun_eq_iff released_at_def bucket_slots_at[OF Some])
  ultimately show ?thesis
    using expire_loop_out[of order tick now m] assms(1) by (simp only: iteration_order_def)
qed

section \<open>Nothing is lost or duplicated\<close>

lemma filter_split_mset: "mset (filter P xs) + mset (filter (\<lambda>x. \<not> P x) xs) = mset xs"
  by (metis multiset_partition mset_filter)

lemma mset_concat_distinct:
  "distinct ts \<Longrightarrow> mset (concat (map f ts)) = (\<Sum>t\<in>set ts. mset (f t))"
  by (induction ts) auto

lemma expire_conserves:
  assumes inv: "wheel_inv w" and ord: "iteration_order w order" and e: "expire w tick now order = (out, w')"
  shows "wheel_items w = mset out + wheel_items w'"
proof -
  let ?rel = "\<lambda>t. if t \<le> tick then filter (\<lambda>s. \<not> time_After (s_target s) now) (bucket w t) else []"
  have fin: "finite (bucket_keys w)" using inv by (simp add: wheel_inv_def)
  have keys: "bucket_keys w' \<subseteq> bucket_keys w" "\<forall>t\<in>bucket_keys w - bucket_keys w'. mset (bucket w' t) = {#}"
    using expire_bucket(4)[OF ord e] by auto
  have "wheel_slots w' = (\<Sum>t\<in>bucket_keys w. mset (bucket w' t))"
    unfolding wheel_slots_def by (rule sum.mono_neutral_left[OF fin keys])
  moreover have "mset (concat (map ?rel order)) = (\<Sum>t\<in>bucket_keys w. mset (?rel t))"
    using mset_concat_distinct[of order ?rel] ord by (simp only: iteration_order_def)
  moreover have "mset (bucket w t) = mset (?rel t) + mset (bucket w' t)" for t
    using expire_bucket(1)[OF ord e, of t]
      filter_split_mset[of "\<lambda>s. time_After (s_target s) now" "bucket w t"] by (simp add: add.commute)
  ultimately have "wheel_slots w = mset (concat (map ?rel order)) + wheel_slots w'"
    by (simp add: wheel_slots_def sum.distrib)
  then show ?thesis by (simp add: expire_out[OF ord e])
qed

lemma expire_inv [inv_intros]:
  assumes "wheel_inv w" and "iteration_order w order" and "expire w tick now order = (out, w')"
  shows "wheel_inv w'"
  using assms(1) expire_bucket[OF assms(2,3)]
  unfolding wheel_inv_def by (auto split: if_splits)

lemma Insert_bucket:
  assumes "\<not> w_closed w" and "wheel_Insert w item delay now = Inr w'"
  shows "bucket w' t = bucket w t @ (if t = time_Unix (time_Add now delay)
      then [\<lparr>s_target = time_Add now delay, s_item = item\<rparr>] else [])"
    and "bucket_keys w' = insert (time_Unix (time_Add now delay)) (bucket_keys w)"
    and "w_closed w' = w_closed w" and "w_buckets w' \<noteq> None"
  using assms by (auto simp: wheel_Insert_def Let_def bucket_def bucket_keys_def split: option.splits)

lemma Insert_inv [inv_intros]:
  assumes "wheel_inv w" and "wheel_Insert w item delay now = Inr w'"
  shows "wheel_inv w'"
proof (cases "w_closed w")
  case True
  with assms show ?thesis by (simp add: wheel_Insert_def)
next
  case False
  with assms(1) Insert_bucket[OF False assms(2)] show ?thesis
    unfolding wheel_inv_def by auto
qed

lemma Insert_ok: "wheel_inv w \<Longrightarrow> \<exists>w'. wheel_Insert w item delay now = Inr w'"
  by (auto simp: wheel_Insert_def wheel_inv_def Let_def split: option.splits)

lemma Insert_items:
  assumes inv: "wheel_inv w" and open_: "\<not> w_closed w" and i: "wheel_Insert w item delay now = Inr w'"
  shows "wheel_items w' = add_mset item (wheel_items w)"
proof -
  let ?t = "time_Unix (time_Add now delay)" and ?s = "\<lparr>s_target = time_Add now delay, s_item = item\<rparr>"
  note b = Insert_bucket[OF open_ i]
  have fin: "finite (bucket_keys w)" using inv by (simp add: wheel_inv_def)
  have empty: "bucket w t = []" if "t \<notin> bucket_keys w" for t
    using that by (auto simp: bucket_def bucket_keys_def split: option.splits)
  have "wheel_slots w = (\<Sum>t\<in>insert ?t (bucket_keys w). mset (bucket w t))"
    unfolding wheel_slots_def using fin empty by (intro sum.mono_neutral_left) auto
  moreover have "wheel_slots w' = (\<Sum>t\<in>insert ?t (bucket_keys w). mset (bucket w t) + (if t = ?t then {#?s#} else {#}))"
    unfolding wheel_slots_def b(2) by (rule sum.cong) (auto simp: b(1))
  moreover have "(\<Sum>t\<in>insert ?t (bucket_keys w). if t = ?t then {#?s#} else {#}) = {#?s#}"
    using fin by (simp add: sum.delta)
  ultimately have "wheel_slots w' = wheel_slots w + {#?s#}"
    by (simp only: sum.distrib)
  then show ?thesis by simp
qed

lemma wheel_New_inv: "wheel_inv wheel_New"
  by (simp add: wheel_inv_def wheel_New_def bucket_keys_def bucket_def)

lemma wheel_New_open: "\<not> w_closed wheel_New"
  by (simp add: wheel_New_def)

lemma wheel_New_items: "wheel_items wheel_New = {#}"
  by (simp add: wheel_slots_def bucket_keys_def wheel_New_def)

lemma slots_in_order_eq: "slots_in_order w order = concat (map (bucket w) order)"
  by (induction order) auto

lemma Drain_items:
  assumes "iteration_order w order"
  shows "mset (slots_in_order w order) = wheel_slots w"
  using assms mset_concat_distinct[of order "bucket w"]
  by (simp add: slots_in_order_eq iteration_order_def wheel_slots_def)

lemma Drain_inv [inv_intros]: "wheel_inv (snd (wheel_Drain w order))"
  by (simp add: wheel_Drain_def wheel_inv_def bucket_keys_def bucket_def)

section \<open>What a pass releases\<close>

lemma filter_mset_sum: "finite A \<Longrightarrow> filter_mset P (\<Sum>t\<in>A. f t) = (\<Sum>t\<in>A. filter_mset P (f t))"
  by (induction A rule: finite_induct) auto

lemma expire_slots:
  assumes inv: "wheel_inv w" and ord: "iteration_order w order" and e: "expire w tick now order = (out, w')"
  shows "mset out = image_mset s_item (filter_mset (due tick now) (wheel_slots w))"
    and "wheel_slots w' = filter_mset (\<lambda>s. \<not> due tick now s) (wheel_slots w)"
proof -
  let ?rel = "\<lambda>t. if t \<le> tick then filter (\<lambda>s. \<not> time_After (s_target s) now) (bucket w t) else []"
  have fin: "finite (bucket_keys w)" using inv by (simp add: wheel_inv_def)
  have at: "time_Unix (s_target s) = t" if "s \<in> set (bucket w t)" for s t
    using inv that by (simp add: wheel_inv_def)
  have "filter_mset (due tick now) (mset (bucket w t)) = mset (?rel t)" for t
    using at[of _ t] by (auto simp: due_def mset_filter intro: filter_mset_cong)
  then have "mset (concat (map ?rel order)) = filter_mset (due tick now) (wheel_slots w)"
    using mset_concat_distinct[of order ?rel] ord
    by (simp only: iteration_order_def wheel_slots_def filter_mset_sum[OF fin])
  then show "mset out = image_mset s_item (filter_mset (due tick now) (wheel_slots w))"
    by (simp only: expire_out[OF ord e] mset_map)
  have keys: "bucket_keys w' \<subseteq> bucket_keys w" "\<forall>t\<in>bucket_keys w - bucket_keys w'. mset (bucket w' t) = {#}"
    using expire_bucket(4)[OF ord e] by auto
  have "wheel_slots w' = (\<Sum>t\<in>bucket_keys w. mset (bucket w' t))"
    unfolding wheel_slots_def by (rule sum.mono_neutral_left[OF fin keys])
  moreover have "filter_mset (\<lambda>s. \<not> due tick now s) (mset (bucket w t)) = mset (bucket w' t)" for t
  proof -
    have "filter (\<lambda>s. \<not> due tick now s) (bucket w t) = bucket w' t"
      using at[of _ t] expire_bucket(1)[OF ord e, of t]
      by (auto simp: due_def filter_id_conv intro!: filter_cong)
    then show ?thesis by (simp flip: mset_filter)
  qed
  ultimately show "wheel_slots w' = filter_mset (\<lambda>s. \<not> due tick now s) (wheel_slots w)"
    by (simp only: wheel_slots_def filter_mset_sum[OF fin])
qed

section \<open>Runs of the ticker goroutine\<close>

lemma Start_step_total:
  assumes "Start_step s e t" and "e \<noteq> TkStop" and "wheel_inv (fst s)" and "\<not> w_closed (fst s)"
  shows "tk_total t = tk_total s + mset (inserted [e]) \<and> wheel_inv (fst t) \<and> \<not> w_closed (fst t)"
  using assms
proof (induction rule: Start_step.induct)
  case (tick tk order w tick_now expire_now w' tk' rcv)
  obtain batch where e: "expire w (time_Unix tick_now) expire_now order = (batch, w')"
    and tk': "tk' = tk\<lparr>tk_pc := if batch = [] then Ticking else Sending batch\<rparr>"
    using tick(4) by (auto simp: ticker_tick_def split: prod.splits)
  have ord: "iteration_order w order" using tick(2,3) by (simp add: iteration_order_def)
  show ?case
    using expire_conserves[OF _ ord e] expire_inv[OF _ ord e] expire_bucket(2)[OF ord e] tick tk'
    by (simp add: ac_simps)
next
  case (insert w item delay now w' tk rcv)
  then show ?case
    using Insert_items[of w item delay now w'] Insert_inv[of w item delay now w']
      Insert_bucket(3)[of w item delay now w']
    by simp
qed (simp_all add: ac_simps)

lemma inserted_Cons: "inserted (e # es) = inserted [e] @ inserted es"
  by (cases e) auto

lemma Start_run_total:
  assumes "Start_run s es t" and "TkStop \<notin> set es" and "wheel_inv (fst s)" and "\<not> w_closed (fst s)"
  shows "tk_total t = tk_total s + mset (inserted es)"
  using assms
proof (induction rule: Start_run.induct)
  case (cons s e t es u)
  have "e \<noteq> TkStop" using cons.prems(1) by auto
  from Start_step_total[OF cons.hyps(1) this cons.prems(2,3)] cons
  show ?case by (simp add: inserted_Cons[of e es] add.assoc)
qed simp

section \<open>Properties\<close>

text \<open>C21. A pass of \<open>expire\<close> releases exactly the due slots, whatever order the Go map is visited
  in: an item comes out if and only if its bucket's second has been reached by the tick and
  its target time is not after the clock read by the pass (so never early, and at the first
  pass that finds it due), each once, and every other slot stays in the wheel.\<close>

theorem expire_releases_exactly_due:
  assumes "wheel_inv w" and "iteration_order w order" and "expire w tick now order = (out, w')"
  shows "wheel_inv w' \<and>
    mset out = image_mset s_item (filter_mset (due tick now) (wheel_slots w)) \<and>
    wheel_slots w' = filter_mset (\<lambda>s. \<not> due tick now s) (wheel_slots w)"
  using expire_slots[OF assms] expire_inv[OF assms] by blast

theorem expire_releases_exactly_due_witness:
  "\<exists>w w'. wheel_Insert wheel_New ''late'' (9 * Second) (sample_now 100) = Inr w \<and>
     wheel_Insert w ''soon'' (2 * Second) (sample_now 100) = Inr w' \<and>
     mset (fst (expire w' 102 (sample_now 102) [109, 102])) = {#''soon''#}"
proof -
  obtain w :: "string wheel" where w: "wheel_Insert wheel_New ''late'' (9 * Second) (sample_now 100) = Inr w"
    using Insert_ok[OF wheel_New_inv[where 'a = string]] by metis
  obtain w' where w': "wheel_Insert w ''soon'' (2 * Second) (sample_now 100) = Inr w'"
    using Insert_ok[OF Insert_inv[OF wheel_New_inv w]] by blast
  have eq: "w_buckets w' = Some [109 \<mapsto> [\<lparr>s_target = sample_now 109, s_item = ''late''\<rparr>],
      102 \<mapsto> [\<lparr>s_target = sample_now 102, s_item = ''soon''\<rparr>]]"
    using w w' by (auto simp: wheel_Insert_def wheel_New_def time_defs Let_def sample_now_def bucket_def
        Second_def)
  have inv: "wheel_inv w'" using Insert_inv[OF Insert_inv[OF wheel_New_inv w] w'] .
  have ord: "iteration_order w' [109, 102]"
    using eq by (auto simp: iteration_order_def bucket_keys_def)
  obtain out w'' where e: "expire w' 102 (sample_now 102) [109, 102] = (out, w'')"
    by (cases "expire w' 102 (sample_now 102) [109, 102]")
  have keys: "bucket_keys w' = {109, 102}" using eq by (auto simp: bucket_keys_def)
  have "wheel_slots w' = {#\<lparr>s_target = sample_now 109, s_item = ''late''\<rparr>,
      \<lparr>s_target = sample_now 102, s_item = ''soon''\<rparr>#}"
    using eq by (simp add: wheel_slots_def keys bucket_def)
  then have "mset out = {#''soon''#}"
    using expire_releases_exactly_due[OF inv ord e]
    by (simp add: due_def time_defs sample_now_def Second_def)
  with w w' e show ?thesis by auto
qed

text \<open>While the timer goroutine runs (any interleaving of inserts, ticks with any clock
  readings, sends to the bounded channel and receives), every inserted item is in exactly one
  place: still in the wheel, in the batch being sent, in the channel, or received.\<close>

theorem timer_conserves_items:
  assumes "Start_run (wheel_New, ticker_New, []) es (w, tk, rcv)" and "TkStop \<notin> set es"
  shows "wheel_items w + (case tk_pc tk of Sending batch \<Rightarrow> mset batch | _ \<Rightarrow> {#})
    + mset (concat (tk_out tk)) + mset rcv = mset (inserted es)"
  using Start_run_total[OF assms] wheel_New_inv[where 'a = 'a] wheel_New_open[where 'a = 'a]
    wheel_New_items[where 'a = 'a]
  by (simp add: ticker_New_def)

theorem timer_conserves_items_witness:
  "\<exists>w. Start_run (wheel_New, ticker_New, []) [TkInsert ''a'' Second (sample_now 5)] (w, ticker_New, []) \<and>
     wheel_items w = {#''a''#}"
proof -
  obtain w :: "string wheel" where w: "wheel_Insert wheel_New ''a'' Second (sample_now 5) = Inr w"
    using Insert_ok[OF wheel_New_inv[where 'a = string]] by metis
  have run: "Start_run (wheel_New, ticker_New, []) [TkInsert ''a'' Second (sample_now 5)] (w, ticker_New, [])"
    using w by (auto intro!: Start_run.intros Start_step.intros)
  from timer_conserves_items[OF run] run show ?thesis by (auto simp: ticker_New_def)
qed

text \<open>Stopping the timer can lose a batch: a message that has expired is taken out of the
  wheel first, and when the context is done before the batch is sent the goroutine returns;
  the message is then in neither the wheel nor the channel nor the receiver.\<close>

theorem timer_stop_loses_batch:
  "\<exists>w tk. Start_run (wheel_New, ticker_New, [])
      [TkInsert ''a'' Second (sample_now 5), TkTick (sample_now 7) (sample_now 7), TkCancel, TkStop] (w, tk, []) \<and>
    wheel_items w = {#} \<and> tk_out tk = [] \<and> tk_pc tk = Stopped"
proof -
  obtain w :: "string wheel" where w: "wheel_Insert wheel_New ''a'' Second (sample_now 5) = Inr w"
    using Insert_ok[OF wheel_New_inv[where 'a = string]] by metis
  have eq: "w_buckets w = Some [6 \<mapsto> [\<lparr>s_target = sample_now 6, s_item = ''a''\<rparr>]]"
    using w by (auto simp: wheel_Insert_def wheel_New_def time_defs Let_def sample_now_def bucket_def Second_def)
  have e: "expire w 7 (sample_now 7) [6] = ([''a''], w\<lparr>w_buckets := Some Map.empty\<rparr>)"
    using eq by (simp add: expire_def time_defs sample_now_def Second_def)
  have keys: "bucket_keys w = {6}" using eq by (simp add: bucket_keys_def)
  have u: "time_Unix (sample_now 7) = 7" by (simp add: time_defs sample_now_def Second_def)
  let ?w = "w\<lparr>w_buckets := Some Map.empty\<rparr>" and ?tk = "ticker_New\<lparr>tk_pc := Sending [''a'']\<rparr>"
  have tick: "ticker_tick w ticker_New (sample_now 7) (sample_now 7) [6] = (?w, ?tk)"
    by (simp add: ticker_tick_def u e)
  let ?fin = "?tk\<lparr>tk_ctxDone := True, tk_pc := Stopped, tk_outClosed := True\<rparr>"
  have "Start_run (wheel_New, ticker_New, [])
      [TkInsert ''a'' Second (sample_now 5), TkTick (sample_now 7) (sample_now 7), TkCancel, TkStop] (?w, ?fin, [])"
    by (rule Start_run.cons[OF Start_step.insert[OF w]],
        rule Start_run.cons[OF Start_step.tick[OF _ _ _ tick]])
      (auto simp: keys ticker_New_def intro!: Start_run.intros Start_step.intros)
  moreover have "wheel_items ?w = {#}" by (simp add: wheel_slots_def bucket_keys_def)
  ultimately show ?thesis by (intro exI[of _ ?w] exI[of _ ?fin]) (simp add: ticker_New_def)
qed

text \<open>\<open>Drain\<close> hands back every pending item, each once, and closes the wheel: it is empty
  afterwards and a later \<open>Insert\<close> is ignored instead of writing the nil map.\<close>

theorem drain_returns_all:
  assumes "wheel_inv w" and "iteration_order w order" and "wheel_Drain w order = (out, w')"
  shows "mset out = wheel_items w \<and> length out = wheel_Len w order \<and> wheel_inv w' \<and> wheel_Len w' [] = 0 \<and>
    wheel_items w' = {#} \<and> wheel_Insert w' item delay now = Inr w'"
proof -
  have "mset out = wheel_items w"
    using assms Drain_items[OF assms(2)] by (auto simp: wheel_Drain_def)
  with assms Drain_inv[of w order] show ?thesis
    by (auto simp: wheel_Drain_def wheel_Len_def wheel_Insert_def wheel_slots_def bucket_keys_def)
qed

theorem drain_returns_all_witness:
  "\<exists>w. wheel_Insert wheel_New ''a'' Second (sample_now 5) = Inr w \<and> mset (fst (wheel_Drain w [6])) = {#''a''#}"
proof -
  obtain w :: "string wheel" where w: "wheel_Insert wheel_New ''a'' Second (sample_now 5) = Inr w"
    using Insert_ok[OF wheel_New_inv[where 'a = string]] by metis
  have "bucket_keys w = {6}"
    using w by (auto simp: wheel_Insert_def wheel_New_def time_defs Let_def sample_now_def bucket_keys_def Second_def)
  then have ord: "iteration_order w [6]" by (simp add: iteration_order_def)
  obtain out w' where d: "wheel_Drain w [6] = (out, w')" by (cases "wheel_Drain w [6]")
  from drain_returns_all[OF Insert_inv[OF wheel_New_inv w] ord d]
    Insert_items[OF wheel_New_inv _ w] wheel_New_items[where 'a = string]
  show ?thesis using w d by (auto simp: wheel_New_def)
qed

end
