(* ===== verification/Memory_Transport.thy ===== *)
theory Memory_Transport
  imports Types
begin

text \<open>
  The in-memory transport: \<open>src/transport/memory/memory.go\<close>.

  \<open>mem\<close> is the struct \<open>Transport\<close>; its condition variable keeps the subscribers blocked in
  \<open>Subscribe\<close>, each by its number. \<open>Subscribe\<close> is cut at the points where it gives up the
  mutex: \<open>Subscribe_top\<close> is the start of an iteration, \<open>Subscribe_wake\<close> the return from
  \<open>cond.Wait\<close>, \<open>Subscribe_deliver\<close> the call of the consumer. The other methods are one
  critical section. \<open>mem_step\<close> interleaves publishers, closers and any number of
  subscribers.
\<close>

section \<open>The transport and its operations\<close>

record mem =
  mt_messages :: "Message list"
  mt_closed :: bool
  mt_cond :: "nat cond"

definition mem_New :: mem where
  "mem_New = \<lparr>mt_messages = [], mt_closed = False, mt_cond = cond_New\<rparr>"

definition mem_Publish :: "mem \<Rightarrow> Message \<Rightarrow> go_error option \<times> mem" where
  "mem_Publish t msg =
     (if mt_closed t then (None, t)
      else (None, t\<lparr>mt_messages := mt_messages t @ [msg], mt_cond := cond_Signal (mt_cond t)\<rparr>))"

datatype sub_pc = SubTop | SubWait | SubDeliver "Message list" | SubReturn "go_error option"

text \<open>The loop test of \<open>Subscribe\<close>, with the mutex held, up to the next unlock.\<close>

definition Subscribe_check :: "mem \<Rightarrow> nat \<Rightarrow> sub_pc \<times> mem" where
  "Subscribe_check t i =
     (if mt_messages t = [] \<and> \<not> mt_closed t
      then (SubWait, t\<lparr>mt_cond := cond_Wait (mt_cond t) (Some i)\<rparr>)
      else if mt_closed t \<and> mt_messages t = [] then (SubReturn None, t)
      else (SubDeliver (mt_messages t), t\<lparr>mt_messages := []\<rparr>))"

definition Subscribe_top :: "bool \<Rightarrow> mem \<Rightarrow> nat \<Rightarrow> sub_pc \<times> mem" where
  "Subscribe_top ctxDone t i =
     (if ctxDone then (SubReturn (Some ContextCanceled), t) else Subscribe_check t i)"

definition Subscribe_wake :: "bool \<Rightarrow> mem \<Rightarrow> nat \<Rightarrow> sub_pc \<times> mem" where
  "Subscribe_wake ctxDone t i =
     (let t = t\<lparr>mt_cond := cond_Resume (mt_cond t) (Some i)\<rparr>
      in if ctxDone then (SubReturn (Some ContextCanceled), t) else Subscribe_check t i)"

text \<open>After the consumer: next iteration, or return its error.\<close>

definition Subscribe_deliver :: "go_error option \<Rightarrow> sub_pc" where
  "Subscribe_deliver err = (case err of None \<Rightarrow> SubTop | Some e \<Rightarrow> SubReturn (Some e))"

definition mem_Ack :: "mem \<Rightarrow> Message list \<Rightarrow> go_error option \<times> mem" where
  "mem_Ack t msgs = (None, t)"

definition mem_Nack :: "mem \<Rightarrow> Message \<Rightarrow> duration \<Rightarrow> go_error option \<times> mem" where
  "mem_Nack t msg delay = mem_Publish t msg"

definition mem_SendToDLQ :: "mem \<Rightarrow> Message \<Rightarrow> go_error option \<times> mem" where
  "mem_SendToDLQ t msg = (None, t)"

definition mem_Close :: "mem \<Rightarrow> go_error option \<times> mem" where
  "mem_Close t = (None, t\<lparr>mt_closed := True, mt_cond := cond_Broadcast (mt_cond t)\<rparr>)"

definition MemoryTransport :: "mem Transport" where
  "MemoryTransport = \<lparr>t_Publish = \<lambda>t msg. Inr (mem_Publish t msg), t_Ack = mem_Ack, t_Nack = mem_Nack,
     t_SendToDLQ = mem_SendToDLQ, t_Close = \<lambda>t. Inr (mem_Close t)\<rparr>"

section \<open>Interleavings\<close>

text \<open>
  The transport, the program counter of each subscriber, whether its context is done, and
  the messages handed to consumers so far.
\<close>

record mem_sys =
  y_mem :: mem
  y_pc :: "nat \<Rightarrow> sub_pc"
  y_done :: "nat \<Rightarrow> bool"
  y_taken :: "Message list"

fun batch_of :: "sub_pc \<Rightarrow> Message list" where
  "batch_of (SubDeliver batch) = batch"
| "batch_of _ = []"

definition set_sub :: "mem_sys \<Rightarrow> nat \<Rightarrow> sub_pc \<times> mem \<Rightarrow> mem_sys" where
  "set_sub y i r = y\<lparr>y_mem := snd r, y_pc := (y_pc y)(i := fst r), y_taken := y_taken y @ batch_of (fst r)\<rparr>"

datatype mem_event = MPublish Message | MNack Message duration | MClose | MTop nat | MWake nat
  | MDeliver nat "go_error option" | MCancel nat

inductive mem_step :: "mem_sys \<Rightarrow> mem_event \<Rightarrow> mem_sys \<Rightarrow> bool" where
  publish: "mem_step y (MPublish msg) (y\<lparr>y_mem := snd (mem_Publish (y_mem y) msg)\<rparr>)"
| nack: "mem_step y (MNack msg delay) (y\<lparr>y_mem := snd (mem_Nack (y_mem y) msg delay)\<rparr>)"
| close: "mem_step y MClose (y\<lparr>y_mem := snd (mem_Close (y_mem y))\<rparr>)"
| top: "y_pc y i = SubTop \<Longrightarrow> mem_step y (MTop i) (set_sub y i (Subscribe_top (y_done y i) (y_mem y) i))"
| wake: "Some i \<in> set (woken (mt_cond (y_mem y))) \<Longrightarrow>
     mem_step y (MWake i) (set_sub y i (Subscribe_wake (y_done y i) (y_mem y) i))"
| deliver: "y_pc y i = SubDeliver batch \<Longrightarrow>
     mem_step y (MDeliver i err) (y\<lparr>y_pc := (y_pc y)(i := Subscribe_deliver err)\<rparr>)"
| cancel: "mem_step y (MCancel i) (y\<lparr>y_done := (y_done y)(i := True)\<rparr>)"

inductive mem_run :: "mem_sys \<Rightarrow> mem_event list \<Rightarrow> mem_sys \<Rightarrow> bool" where
  nil: "mem_run y [] y"
| cons: "mem_step y e y1 \<Longrightarrow> mem_run y1 es y' \<Longrightarrow> mem_run y (e # es) y'"

definition mem_sys_New :: mem_sys where
  "mem_sys_New = \<lparr>y_mem = mem_New, y_pc = \<lambda>_. SubTop, y_done = \<lambda>_. False, y_taken = []\<rparr>"

text \<open>What a run publishes while the transport is open.\<close>

fun published :: "bool \<Rightarrow> mem_event list \<Rightarrow> Message list" where
  "published closed [] = []"
| "published closed (MPublish msg # es) = (if closed then [] else [msg]) @ published closed es"
| "published closed (MNack msg d # es) = (if closed then [] else [msg]) @ published closed es"
| "published closed (MClose # es) = published True es"
| "published closed (_ # es) = published closed es"

text \<open>The transport as a queue whose receive takes the whole backlog.\<close>

definition mem_enq :: "mem \<Rightarrow> Message \<Rightarrow> bool \<times> mem" where
  "mem_enq t msg = (\<not> mt_closed t, snd (mem_Publish t msg))"

definition mem_deq :: "mem \<Rightarrow> nat \<Rightarrow> Message list \<times> mem" where
  "mem_deq t i = (batch_of (fst (Subscribe_check t i)), snd (Subscribe_check t i))"

text \<open>
  Wake-ups: a closed transport has no sleeper, and somebody sleeping next to queued
  messages implies that somebody else has been woken.
\<close>

definition mem_wake_inv :: "mem \<Rightarrow> bool" where
  "mem_wake_inv t \<longleftrightarrow> (mt_closed t \<longrightarrow> waiting (mt_cond t) = []) \<and>
     (mt_messages t \<noteq> [] \<longrightarrow> waiting (mt_cond t) = [] \<or> woken (mt_cond t) \<noteq> [])"

fun is_cancel :: "mem_event \<Rightarrow> bool" where
  "is_cancel (MCancel i) = True"
| "is_cancel _ = False"

definition mem_msg :: "string \<Rightarrow> Message" where
  "mem_msg i = \<lparr>m_ID = i, m_Topic = ''t'', m_Payload = ''p'', m_Attributes = None,
     m_ReceiptHandle = '''', m_Attempts = 0, m_NotBefore = 0\<rparr>"

lemmas mem_defs = mem_Publish_def mem_Nack_def mem_Close_def Subscribe_check_def Subscribe_top_def
  Subscribe_wake_def set_sub_def Let_def

section \<open>The transport is a queue\<close>

lemma Subscribe_check_messages:
  "batch_of (fst (Subscribe_check t i)) @ mt_messages (snd (Subscribe_check t i)) = mt_messages t"
  "mt_closed (snd (Subscribe_check t i)) = mt_closed t"
  by (auto simp: Subscribe_check_def)

interpretation memq: fifo_queue "\<lambda>_. True" mt_messages mem_enq mem_deq
  by unfold_locales (auto simp: mem_enq_def mem_deq_def mem_Publish_def Subscribe_check_messages)

lemma published_Cons: "published c (e # es) = published c [e] @ published (c \<or> e = MClose) es"
  by (cases e) auto

lemma mem_step_messages:
  assumes "mem_step y e y'"
  shows "y_taken y' @ mt_messages (y_mem y') = y_taken y @ mt_messages (y_mem y) @ published (mt_closed (y_mem y)) [e] \<and>
    mt_closed (y_mem y') = (mt_closed (y_mem y) \<or> e = MClose)"
  using assms by (induction rule: mem_step.induct) (auto simp: mem_defs)

lemma mem_run_messages:
  assumes "mem_run y es y'"
  shows "y_taken y' @ mt_messages (y_mem y') = y_taken y @ mt_messages (y_mem y) @ published (mt_closed (y_mem y)) es"
  using assms
proof (induction rule: mem_run.induct)
  case (cons y e y1 es y')
  from mem_step_messages[OF cons.hyps(1)] cons.IH show ?case
    by (subst published_Cons) simp
qed simp

section \<open>Wake-ups\<close>

lemma mem_step_wake:
  assumes "mem_step y e y'" and "mem_wake_inv (y_mem y)" and "\<forall>i. \<not> y_done y i" and "\<not> is_cancel e"
  shows "mem_wake_inv (y_mem y') \<and> (\<forall>i. \<not> y_done y' i)"
  using assms
  by (induction rule: mem_step.induct)
    (auto simp: mem_wake_inv_def mem_defs go_simps split: list.splits)

lemma mem_run_wake:
  assumes "mem_run y es y'" and "mem_wake_inv (y_mem y)" and "\<forall>i. \<not> y_done y i"
    and "\<forall>e\<in>set es. \<not> is_cancel e"
  shows "mem_wake_inv (y_mem y') \<and> (\<forall>i. \<not> y_done y' i)"
  using assms by (induction rule: mem_run.induct) (auto dest: mem_step_wake)

lemma mem_New_wake: "mem_wake_inv mem_New"
  by (simp add: mem_wake_inv_def mem_New_def go_simps)

section \<open>Properties\<close>

text \<open>C33. The in-memory transport hands out every message published (or nacked) before the close
  exactly once and in order, to one subscriber: whatever the interleaving of publishers and
  subscribers, what consumers have been given, followed by what is still queued, is the
  sequence of accepted publications.\<close>

theorem memory_transport_fifo:
  assumes "mem_run mem_sys_New es y"
  shows "y_taken y @ mt_messages (y_mem y) = published False es"
  using mem_run_messages[OF assms] by (simp add: mem_sys_New_def mem_New_def)

theorem memory_transport_fifo_witness:
  "\<exists>y. mem_run mem_sys_New [MTop 0, MPublish (mem_msg ''a''), MPublish (mem_msg ''b''), MWake 0, MClose,
      MPublish (mem_msg ''c'')] y \<and> y_taken y @ mt_messages (y_mem y) = [mem_msg ''a'', mem_msg ''b'']"
proof -
  have "\<exists>y. mem_run mem_sys_New [MTop 0, MPublish (mem_msg ''a''), MPublish (mem_msg ''b''), MWake 0, MClose,
      MPublish (mem_msg ''c'')] y"
    by (intro exI) (rule mem_run.intros mem_step.intros
      | simp add: mem_sys_New_def mem_New_def mem_defs go_simps)+
  then obtain y where run: "mem_run mem_sys_New [MTop 0, MPublish (mem_msg ''a''), MPublish (mem_msg ''b''), MWake 0, MClose,
      MPublish (mem_msg ''c'')] y" ..
  from memory_transport_fifo[OF run] run show ?thesis by auto
qed

text \<open>No subscriber sleeps on a backlog: as long as no context is cancelled, whenever messages
  are queued while a subscriber is asleep, another one has been woken, and when it runs it
  takes the whole backlog; a closed transport has no sleeper.\<close>

theorem memory_no_lost_wakeup:
  assumes "mem_run mem_sys_New es y" and "\<forall>e\<in>set es. \<not> is_cancel e"
  shows "(mt_closed (y_mem y) \<longrightarrow> waiting (mt_cond (y_mem y)) = []) \<and>
    (mt_messages (y_mem y) \<noteq> [] \<longrightarrow> waiting (mt_cond (y_mem y)) \<noteq> [] \<longrightarrow> woken (mt_cond (y_mem y)) \<noteq> [] \<and>
      (\<forall>i. fst (Subscribe_wake (y_done y i) (y_mem y) i) = SubDeliver (mt_messages (y_mem y))))"
  using mem_run_wake[OF assms(1) _ _ assms(2)] mem_New_wake
  by (auto simp: mem_sys_New_def mem_wake_inv_def Subscribe_wake_def Subscribe_check_def Let_def)

theorem memory_no_lost_wakeup_witness:
  "\<exists>y. mem_run mem_sys_New [MTop 0, MTop 1, MPublish (mem_msg ''a'')] y \<and> woken (mt_cond (y_mem y)) \<noteq> []"
proof -
  have "\<exists>y. mem_run mem_sys_New [MTop 0, MTop 1, MPublish (mem_msg ''a'')] y \<and>
      mt_messages (y_mem y) \<noteq> [] \<and> waiting (mt_cond (y_mem y)) \<noteq> []"
    by (rule exI, rule conjI, rule mem_run.cons, rule mem_step.top, simp add: mem_sys_New_def,
        rule mem_run.cons, rule mem_step.top, simp add: mem_sys_New_def mem_New_def mem_defs go_simps,
        rule mem_run.cons, rule mem_step.publish, rule mem_run.nil)
      (simp add: mem_sys_New_def mem_New_def mem_defs go_simps)
  then obtain y where "mem_run mem_sys_New [MTop 0, MTop 1, MPublish (mem_msg ''a'')] y"
    "mt_messages (y_mem y) \<noteq> []" "waiting (mt_cond (y_mem y)) \<noteq> []" by blast
  with memory_no_lost_wakeup[OF this(1)] show ?thesis by auto
qed

text \<open>With several subscribers a cancelled one can swallow a wake-up: it is signalled for a
  message, finds its context done and returns without taking the message or signalling
  again, so the message stays queued while the other subscriber sleeps and nobody is woken.\<close>

theorem memory_cancel_swallows_wakeup:
  "\<exists>y. mem_run mem_sys_New [MTop 0, MTop 1, MCancel 0, MPublish (mem_msg ''a''), MWake 0] y \<and>
     mt_messages (y_mem y) = [mem_msg ''a''] \<and> y_pc y 0 = SubReturn (Some ContextCanceled) \<and>
     waiting (mt_cond (y_mem y)) = [Some 1] \<and> woken (mt_cond (y_mem y)) = []"
  by (rule exI, rule conjI, rule mem_run.cons, rule mem_step.top, simp add: mem_sys_New_def,
      rule mem_run.cons, rule mem_step.top, simp add: mem_sys_New_def mem_New_def mem_defs go_simps,
      rule mem_run.cons, rule mem_step.cancel, rule mem_run.cons, rule mem_step.publish,
      rule mem_run.cons, rule mem_step.wake, simp add: mem_sys_New_def mem_New_def mem_defs go_simps,
      rule mem_run.nil)
    (simp add: mem_sys_New_def mem_New_def mem_defs go_simps)

end
