(* ===== verification/Dispatch.thy ===== *)
theory Dispatch
  imports Retry Idempotency Timer_Wheel Memory_Transport
begin

text \<open>
  What the pipeline does with a message: \<open>processMessage\<close>, \<open>resolveOutcome\<close>,
  \<open>handleUnknownTopic\<close>, \<open>dispatchBatch\<close>, the consumer that \<open>runPoller\<close> hands to the
  transport and the loop body of \<open>runTimer\<close>, all of \<open>src/ringq/ringq.go\<close>.

  \<open>runtime\<close> is the struct of the same name, less its mutable parts: those are the \<open>world\<close>
  (ring buffer, transport, idempotency store, timer wheel, user state and the hook calls so
  far). Handlers and coordinators of user code are functions over the user state. A call that
  blocks in \<open>ringBuf.Enqueue\<close> ends with \<open>Blocked\<close> and the item it is parked with; panics are
  \<open>Inl\<close>. The tasks of a batch are values (\<open>task\<close>); \<open>run_task\<close> is the body of the closure.
\<close>

section \<open>The runtime and its state\<close>

record 'h handlerEntry =
  e_fn :: "'h DispatchFunc"
  e_maxRetries :: int
  e_baseDelay :: duration
  e_coordinator :: "('h \<Rightarrow> Message \<Rightarrow> Result \<Rightarrow> RetryOutcome \<times> 'h) option"

record ('t, 's, 'h) runtime =
  rt_handlers :: "string \<rightharpoonup> 'h handlerEntry"
  rt_transport :: "'t Transport"
  rt_hooks :: Hooks
  rt_idemFilter :: "'s idemFilter option"
  rt_conv :: "int \<Rightarrow> int"

record ('t, 's, 'h) world =
  x_ring :: "Message buffer"
  x_transport :: 't
  x_store :: 's
  x_wheel :: "Message wheel"
  x_user :: 'h
  x_events :: "hook_event list"

datatype proc_result = Finished | Blocked Message

definition log_events :: "hook_event list \<Rightarrow> ('t, 's, 'h) world \<Rightarrow> ('t, 's, 'h) world" where
  "log_events evs w = w\<lparr>x_events := x_events w @ evs\<rparr>"

text \<open>A call of a method of the transport: its error and the new state.\<close>

definition call_transport :: "('t \<Rightarrow> go_error option \<times> 't) \<Rightarrow> ('t, 's, 'h) world
    \<Rightarrow> go_error option \<times> ('t, 's, 'h) world" where
  "call_transport f w = (let (err, t) = f (x_transport w) in (err, w\<lparr>x_transport := t\<rparr>))"

text \<open>\<open>r.ringBuf.Enqueue(msg)\<close> with its error dropped.\<close>

definition enqueue_msg :: "Message \<Rightarrow> ('t, 's, 'h) world \<Rightarrow> proc_result \<times> ('t, 's, 'h) world" where
  "enqueue_msg msg w =
     (let (r, b) = Enqueue (x_ring w) (Some msg)
      in (case r of Returned _ \<Rightarrow> Finished | Waiting \<Rightarrow> Blocked msg, w\<lparr>x_ring := b\<rparr>))"

section \<open>One message\<close>

definition resolveOutcome :: "('t, 's, 'h) runtime \<Rightarrow> 'h \<Rightarrow> Message \<Rightarrow> 'h handlerEntry \<Rightarrow> Result
    \<Rightarrow> RetryOutcome \<times> 'h" where
  "resolveOutcome r h msg entry result =
     (case e_coordinator entry of
        Some coordinator \<Rightarrow> coordinator h msg result
      | None \<Rightarrow> (default_Handle (rt_conv r)
                   \<lparr>d_maxRetries = e_maxRetries entry, d_baseDelay = e_baseDelay entry\<rparr> msg result, h))"

text \<open>The branches of the switch on the outcome's action.\<close>

definition settle_Ack :: "('t, 's, 'h) runtime \<Rightarrow> gotime \<Rightarrow> Message \<Rightarrow> RetryOutcome \<Rightarrow> ('t, 's, 'h) world
    \<Rightarrow> (proc_result \<times> ('t, 's, 'h) world) go" where
  "settle_Ack r now msg outcome w =
     (let (err, w) = call_transport (\<lambda>t. t_Ack (rt_transport r) t [o_Message outcome]) w;
          w = (case err of None \<Rightarrow> w | Some _ \<Rightarrow> log_events (fireOnError (rt_hooks r) (m_Topic msg) err) w)
      in case rt_idemFilter r of
           None \<Rightarrow> Inr (Finished, w)
         | Some f \<Rightarrow> (case filter_mark f now (x_store w) (o_Message outcome) of
               Inl p \<Rightarrow> Inl p
             | Inr (_, s) \<Rightarrow> Inr (Finished, w\<lparr>x_store := s\<rparr>)))"

definition settle_Retry :: "('t, 's, 'h) runtime \<Rightarrow> Message \<Rightarrow> RetryOutcome \<Rightarrow> ('t, 's, 'h) world
    \<Rightarrow> proc_result \<times> ('t, 's, 'h) world" where
  "settle_Retry r msg outcome w =
     enqueue_msg (o_Message outcome)
       (log_events (fireOnRetry (rt_hooks r) (m_Topic msg) (o_Message outcome) (m_Attempts (o_Message outcome))) w)"

definition settle_RetryWithDelay :: "('t, 's, 'h) runtime \<Rightarrow> Message \<Rightarrow> RetryOutcome \<Rightarrow> ('t, 's, 'h) world
    \<Rightarrow> ('t, 's, 'h) world" where
  "settle_RetryWithDelay r msg outcome w =
     snd (call_transport (\<lambda>t. t_Nack (rt_transport r) t (o_Message outcome) (o_Delay outcome))
       (log_events (fireOnRetry (rt_hooks r) (m_Topic msg) (o_Message outcome) (m_Attempts (o_Message outcome))) w))"

definition settle_DLQ :: "('t, 's, 'h) runtime \<Rightarrow> string \<Rightarrow> Message \<Rightarrow> go_error option \<Rightarrow> ('t, 's, 'h) world
    \<Rightarrow> ('t, 's, 'h) world" where
  "settle_DLQ r topic msg err w =
     (let w = log_events (fireOnError (rt_hooks r) topic err) w;
          (dlqErr, w) = call_transport (\<lambda>t. t_SendToDLQ (rt_transport r) t msg) w
      in case dlqErr of
           Some e \<Rightarrow> log_events (fireOnError (rt_hooks r) topic (Some (DlqSendFailed e))) w
         | None \<Rightarrow> snd (call_transport (\<lambda>t. t_Ack (rt_transport r) t [msg]) w))"

definition process_switch :: "('t, 's, 'h) runtime \<Rightarrow> gotime \<Rightarrow> Message \<Rightarrow> RetryOutcome
    \<Rightarrow> ('t, 's, 'h) world \<Rightarrow> (proc_result \<times> ('t, 's, 'h) world) go" where
  "process_switch r now msg outcome w =
     (case o_Action outcome of
        Ack \<Rightarrow> settle_Ack r now msg outcome w
      | Retry \<Rightarrow> Inr (settle_Retry r msg outcome w)
      | RetryWithDelay \<Rightarrow> Inr (Finished, settle_RetryWithDelay r msg outcome w)
      | DLQ \<Rightarrow> Inr (Finished, settle_DLQ r (m_Topic msg) (o_Message outcome) (o_Err outcome) w)
      | OtherAction _ \<Rightarrow> Inr (Finished, w))"

definition processMessage :: "('t, 's, 'h) runtime \<Rightarrow> gotime \<Rightarrow> Message \<Rightarrow> 'h handlerEntry
    \<Rightarrow> ('t, 's, 'h) world \<Rightarrow> (proc_result \<times> ('t, 's, 'h) world) go" where
  "processMessage r now msg entry w =
     (let (result, h) = e_fn entry (x_user w) (m_Payload msg);
          w = log_events (fireOnComplete (rt_hooks r) (m_Topic msg)) (w\<lparr>x_user := h\<rparr>);
          (outcome, h) = resolveOutcome r (x_user w) msg entry result
      in process_switch r now msg outcome (w\<lparr>x_user := h\<rparr>))"

definition handleUnknownTopic :: "('t, 's, 'h) runtime \<Rightarrow> Message \<Rightarrow> ('t, 's, 'h) world \<Rightarrow> ('t, 's, 'h) world" where
  "handleUnknownTopic r msg w = settle_DLQ r (m_Topic msg) msg (Some (NoHandlerForTopic (m_Topic msg))) w"

section \<open>One batch\<close>

text \<open>The closures submitted to the pool.\<close>

datatype 'h task = Process Message "'h handlerEntry" | Unknown Message

fun run_task :: "('t, 's, 'h) runtime \<Rightarrow> gotime \<Rightarrow> 'h task \<Rightarrow> ('t, 's, 'h) world
    \<Rightarrow> (proc_result \<times> ('t, 's, 'h) world) go" where
  "run_task r now (Process msg entry) w = processMessage r now msg entry w"
| "run_task r now (Unknown msg) w = Inr (Finished, handleUnknownTopic r msg w)"

text \<open>The type assertion \<open>item.(Message)\<close>: items that are not messages are skipped.\<close>

fun assert_messages :: "Message iface list \<Rightarrow> Message list" where
  "assert_messages [] = []"
| "assert_messages (None # items) = assert_messages items"
| "assert_messages (Some msg # items) = msg # assert_messages items"

fun ack_each :: "('t, 's, 'h) runtime \<Rightarrow> Message list \<Rightarrow> ('t, 's, 'h) world \<Rightarrow> ('t, 's, 'h) world" where
  "ack_each r [] w = w"
| "ack_each r (dup # dups) w = ack_each r dups (snd (call_transport (\<lambda>t. t_Ack (rt_transport r) t [dup]) w))"

definition task_of :: "('t, 's, 'h) runtime \<Rightarrow> Message \<Rightarrow> 'h task" where
  "task_of r msg = (case rt_handlers r (m_Topic msg) of None \<Rightarrow> Unknown msg | Some entry \<Rightarrow> Process msg entry)"

text \<open>
  \<open>dispatchBatch\<close> up to the submissions: the tasks it submits, in order, and the world after
  the duplicates have been filtered and acknowledged.
\<close>

definition dispatchBatch :: "('t, 's, 'h) runtime \<Rightarrow> (nat \<Rightarrow> gotime) \<Rightarrow> Message iface list \<Rightarrow> ('t, 's, 'h) world
    \<Rightarrow> ('h task list \<times> ('t, 's, 'h) world) go" where
  "dispatchBatch r now batch w =
     (let messages = assert_messages batch
      in case rt_idemFilter r of
           None \<Rightarrow> Inr (map (task_of r) messages, w)
         | Some f \<Rightarrow> (case filterDuplicates f now (x_store w) messages of
               Inl p \<Rightarrow> Inl p
             | Inr (filtered, duplicates, evs, s) \<Rightarrow>
                 Inr (map (task_of r) filtered, ack_each r duplicates (log_events evs (w\<lparr>x_store := s\<rparr>)))))"

section \<open>The poller and the timer\<close>

text \<open>
  The consumer \<open>runPoller\<close> subscribes with. It handles a batch message by message; when the
  ring is full it is parked with the current message, and the rest of the batch is still
  to do: \<open>PollBlocked\<close>. \<open>now i\<close> is the clock at the \<open>i\<close>-th message.
\<close>

datatype poll_result = PollDone | PollBlocked Message "Message list"

definition poll_one :: "('t, 's, 'h) runtime \<Rightarrow> gotime \<Rightarrow> Message \<Rightarrow> ('t, 's, 'h) world
    \<Rightarrow> (proc_result \<times> ('t, 's, 'h) world) go" where
  "poll_one r now m w =
     (let w = log_events (fire (h_OnDispatch (rt_hooks r)) (OnDispatch (m_Topic m))) w
      in if m_NotBefore m > 0
         then (case wheel_Insert (x_wheel w) m (m_NotBefore m) now of
                 Inl p \<Rightarrow> Inl p
               | Inr wheel \<Rightarrow> Inr (Finished, w\<lparr>x_wheel := wheel\<rparr>))
         else Inr (enqueue_msg m w))"

fun poll_loop :: "('t, 's, 'h) runtime \<Rightarrow> (nat \<Rightarrow> gotime) \<Rightarrow> Message list \<Rightarrow> ('t, 's, 'h) world
    \<Rightarrow> (poll_result \<times> ('t, 's, 'h) world) go" where
  "poll_loop r now [] w = Inr (PollDone, w)"
| "poll_loop r now (m # msgs) w =
     (case poll_one r (now 0) m w of
        Inl p \<Rightarrow> Inl p
      | Inr (Blocked _, w) \<Rightarrow> Inr (PollBlocked m msgs, w)
      | Inr (Finished, w) \<Rightarrow> poll_loop r (\<lambda>i. now (Suc i)) msgs w)"

definition consume :: "('t, 's, 'h) runtime \<Rightarrow> (nat \<Rightarrow> gotime) \<Rightarrow> Message list \<Rightarrow> ('t, 's, 'h) world
    \<Rightarrow> (poll_result \<times> ('t, 's, 'h) world) go" where
  "consume r now msgs w =
     poll_loop r now msgs (log_events (fire (h_OnReceive (rt_hooks r)) (OnReceive (length msgs))) w)"

text \<open>The inner loop of \<open>runTimer\<close> over a batch of expired items.\<close>

fun timer_batch :: "Message list \<Rightarrow> ('t, 's, 'h) world \<Rightarrow> poll_result \<times> ('t, 's, 'h) world" where
  "timer_batch [] w = (PollDone, w)"
| "timer_batch (msg # batch) w =
     (case enqueue_msg msg w of
        (Blocked _, w) \<Rightarrow> (PollBlocked msg batch, w)
      | (Finished, w) \<Rightarrow> timer_batch batch w)"

text \<open>The loop of \<open>Run\<close> that re-enqueues what \<open>Drain\<close> returned, after \<open>ringBuf.Close()\<close>.\<close>

definition shutdown_drain :: "int list \<Rightarrow> ('t, 's, 'h) world \<Rightarrow> poll_result \<times> ('t, 's, 'h) world" where
  "shutdown_drain order w =
     (let w = w\<lparr>x_ring := ring_Close (x_ring w)\<rparr>;
          (items, wheel) = wheel_Drain (x_wheel w) order
      in timer_batch items (w\<lparr>x_wheel := wheel\<rparr>))"

section \<open>What is settled, and how\<close>

text \<open>A transport that also records the calls it gets.\<close>

datatype t_call = CPublish Message | CAck "Message list" | CNack Message duration | CDLQ Message | CClose

definition recorded :: "t_call \<Rightarrow> ('t \<Rightarrow> go_error option \<times> 't) \<Rightarrow> 't \<times> t_call list
    \<Rightarrow> go_error option \<times> ('t \<times> t_call list)" where
  "recorded c f s = (let (err, t) = f (fst s) in (err, (t, snd s @ [c])))"

definition recorded_go :: "t_call \<Rightarrow> ('t \<Rightarrow> (go_error option \<times> 't) go) \<Rightarrow> 't \<times> t_call list
    \<Rightarrow> (go_error option \<times> ('t \<times> t_call list)) go" where
  "recorded_go c f s = map_sum id (\<lambda>(err, t). (err, (t, snd s @ [c]))) (f (fst s))"

definition logged :: "'t Transport \<Rightarrow> ('t \<times> t_call list) Transport" where
  "logged T = \<lparr>t_Publish = \<lambda>s m. recorded_go (CPublish m) (\<lambda>t. t_Publish T t m) s,
     t_Ack = \<lambda>s ms. recorded (CAck ms) (\<lambda>t. t_Ack T t ms) s,
     t_Nack = \<lambda>s m d. recorded (CNack m d) (\<lambda>t. t_Nack T t m d) s,
     t_SendToDLQ = \<lambda>s m. recorded (CDLQ m) (\<lambda>t. t_SendToDLQ T t m) s,
     t_Close = \<lambda>s. recorded_go CClose (t_Close T) s\<rparr>"

abbreviation calls :: "('t \<times> t_call list, 's, 'h) world \<Rightarrow> t_call list" where
  "calls w \<equiv> snd (x_transport w)"

text \<open>The ways a processed message can be settled.\<close>

datatype fate =
    Acked                 \<comment> \<open>acknowledged\<close>
  | Nacked duration       \<comment> \<open>handed back to the transport\<close>
  | DeadLettered          \<comment> \<open>sent to the dead-letter queue and acknowledged\<close>
  | DLQFailed             \<comment> \<open>the dead-letter queue refused; left to redelivery\<close>
  | Requeued              \<comment> \<open>back in the ring\<close>
  | Parked                \<comment> \<open>waiting for room in the ring\<close>
  | Refused               \<comment> \<open>the ring is closed\<close>
  | Ignored               \<comment> \<open>an action the pipeline does not know\<close>

fun fate_calls :: "Message \<Rightarrow> fate \<Rightarrow> t_call list" where
  "fate_calls m Acked = [CAck [m]]"
| "fate_calls m (Nacked d) = [CNack m d]"
| "fate_calls m DeadLettered = [CDLQ m, CAck [m]]"
| "fate_calls m DLQFailed = [CDLQ m]"
| "fate_calls m _ = []"

fun fate_queue :: "Message \<Rightarrow> fate \<Rightarrow> Message iface list" where
  "fate_queue m Requeued = [Some m]"
| "fate_queue m _ = []"

fun fate_waiting :: "Message \<Rightarrow> fate \<Rightarrow> Message iface list" where
  "fate_waiting m Parked = [Some m]"
| "fate_waiting m _ = []"

text \<open>
  \<open>settled m fate w res w'\<close>: from \<open>w\<close> to \<open>w'\<close> exactly the calls, the queued item and the parked
  item of the fate have been added, and the task is blocked only when it is parked.
\<close>

definition settled :: "Message \<Rightarrow> fate \<Rightarrow> ('t \<times> t_call list, 's, 'h) world \<Rightarrow> proc_result
    \<Rightarrow> ('t \<times> t_call list, 's, 'h) world \<Rightarrow> bool" where
  "settled m fate w res w' \<longleftrightarrow>
     calls w' = calls w @ fate_calls m fate \<and>
     contents (x_ring w') = contents (x_ring w) @ fate_queue m fate \<and>
     parked (x_ring w') = parked (x_ring w) + mset (fate_waiting m fate) \<and>
     x_wheel w' = x_wheel w \<and> ring_inv (x_ring w') \<and> (res = Finished \<longleftrightarrow> fate \<noteq> Parked)"

text \<open>Messages of the batch that are immediate, and those that are delayed.\<close>

abbreviation immediate :: "Message list \<Rightarrow> Message list" where
  "immediate msgs \<equiv> filter (\<lambda>m. m_NotBefore m \<le> 0) msgs"

abbreviation delayed :: "Message list \<Rightarrow> Message list" where
  "delayed msgs \<equiv> filter (\<lambda>m. m_NotBefore m > 0) msgs"

fun poll_rest :: "poll_result \<Rightarrow> Message list" where
  "poll_rest PollDone = []"
| "poll_rest (PollBlocked m rest) = rest"

text \<open>Everything the process holds for later: queued, parked, delayed.\<close>

definition holdings :: "('t, 's, 'h) world \<Rightarrow> Message iface multiset" where
  "holdings w = mset (contents (x_ring w)) + parked (x_ring w) + image_mset Some (wheel_items (x_wheel w))"

definition open_world :: "('t, 's, 'h) world \<Rightarrow> bool" where
  "open_world w \<longleftrightarrow> ring_inv (x_ring w) \<and> \<not> b_closed (x_ring w) \<and> b_policy (x_ring w) = Block \<and>
     wheel_inv (x_wheel w) \<and> \<not> w_closed (x_wheel w)"

text \<open>The outcome a message gets, and the fate the specification gives it.\<close>

definition outcome_of :: "('t, 's, 'h) runtime \<Rightarrow> 'h \<Rightarrow> Message \<Rightarrow> 'h handlerEntry \<Rightarrow> RetryOutcome" where
  "outcome_of r h msg entry =
     fst (resolveOutcome r (snd (e_fn entry h (m_Payload msg))) msg entry (fst (e_fn entry h (m_Payload msg))))"

fun dlq_fate :: "'t Transport \<Rightarrow> 't \<Rightarrow> Message \<Rightarrow> fate" where
  "dlq_fate T t m = (if fst (t_SendToDLQ T t m) = None then DeadLettered else DLQFailed)"

fun queue_fate :: "Message buffer \<Rightarrow> fate" where
  "queue_fate b = (if b_closed b then Refused else if length (contents b) < ring_cap b then Requeued else Parked)"

definition fate_of :: "'t Transport \<Rightarrow> 't \<Rightarrow> Message buffer \<Rightarrow> RetryOutcome \<Rightarrow> fate" where
  "fate_of T t b outcome = (case o_Action outcome of
     Ack \<Rightarrow> Acked
   | Retry \<Rightarrow> queue_fate b
   | RetryWithDelay \<Rightarrow> Nacked (o_Delay outcome)
   | DLQ \<Rightarrow> dlq_fate T t (o_Message outcome)
   | OtherAction _ \<Rightarrow> Ignored)"

text \<open>
  One round of the pipeline on the in-memory transport with nothing else going on: the
  subscriber takes the backlog, the consumer queues it, the dispatcher takes a batch of 10
  and its tasks run one after the other.
\<close>

fun run_tasks :: "('t, 's, 'h) runtime \<Rightarrow> gotime \<Rightarrow> 'h task list \<Rightarrow> ('t, 's, 'h) world
    \<Rightarrow> ('t, 's, 'h) world go" where
  "run_tasks r now [] w = Inr w"
| "run_tasks r now (task # tasks) w =
     (case run_task r now task w of Inl p \<Rightarrow> Inl p | Inr (_, w') \<Rightarrow> run_tasks r now tasks w')"

definition memory_round :: "(mem \<times> t_call list, 's, 'h) runtime \<Rightarrow> gotime \<Rightarrow> (mem \<times> t_call list, 's, 'h) world
    \<Rightarrow> (mem \<times> t_call list, 's, 'h) world go" where
  "memory_round r now w =
     (let (pc, t) = Subscribe_check (fst (x_transport w)) 0
      in case consume r (\<lambda>_. now) (batch_of pc) (w\<lparr>x_transport := (t, calls w)\<rparr>) of
           Inl p \<Rightarrow> Inl p
         | Inr (_, w) \<Rightarrow>
             (let (batch, b) = DequeueBatch (x_ring w) 10
              in case dispatchBatch r (\<lambda>_. now) batch (w\<lparr>x_ring := b\<rparr>) of
                   Inl p \<Rightarrow> Inl p
                 | Inr (tasks, w) \<Rightarrow> run_tasks r now tasks w))"

fun memory_rounds :: "nat \<Rightarrow> (mem \<times> t_call list, 's, 'h) runtime \<Rightarrow> gotime
    \<Rightarrow> (mem \<times> t_call list, 's, 'h) world \<Rightarrow> (mem \<times> t_call list, 's, 'h) world go" where
  "memory_rounds 0 r now w = Inr w"
| "memory_rounds (Suc n) r now w =
     (case memory_round r now w of Inl p \<Rightarrow> Inl p | Inr w' \<Rightarrow> memory_rounds n r now w')"

text \<open>A world with nothing in it but the messages queued in the transport.\<close>

definition idle_world :: "(mem \<times> t_call list, 's, 'h) world \<Rightarrow> Message list \<Rightarrow> bool" where
  "idle_world w msgs \<longleftrightarrow> open_world w \<and> contents (x_ring w) = [] \<and>
     mt_messages (fst (x_transport w)) = msgs \<and> \<not> mt_closed (fst (x_transport w))"

text \<open>The calls a message makes whose handler asks for a retry every time, from attempt \<open>a\<close> on.\<close>

definition retry_delay :: "duration \<Rightarrow> nat \<Rightarrow> duration" where
  "retry_delay base a = min (base * 2 ^ a) maxRetryDelay"

definition poison_calls :: "duration \<Rightarrow> Message \<Rightarrow> nat \<Rightarrow> nat \<Rightarrow> t_call list" where
  "poison_calls base msg a n =
     map (\<lambda>k. CNack (msg\<lparr>m_Attempts := int k + 1\<rparr>) (retry_delay base k)) [a..<n] @
     [CDLQ (msg\<lparr>m_Attempts := int n\<rparr>), CAck [msg\<lparr>m_Attempts := int n\<rparr>]]"

text \<open>The calls a message makes whose handler asks for a retry until attempt \<open>n\<close> and then succeeds.\<close>

definition success_calls :: "duration \<Rightarrow> Message \<Rightarrow> nat \<Rightarrow> nat \<Rightarrow> t_call list" where
  "success_calls base msg a n =
     map (\<lambda>k. CNack (msg\<lparr>m_Attempts := int k + 1\<rparr>) (retry_delay base k)) [a..<n] @ [CAck [msg\<lparr>m_Attempts := int n\<rparr>]]"

text \<open>A runtime and a world for the examples: one topic, whose handler always asks for a retry.\<close>

definition no_hooks :: Hooks where
  "no_hooks = \<lparr>h_OnReceive = False, h_OnDispatch = False, h_OnComplete = False, h_OnError = False,
     h_OnRetry = False, h_OnDuplicate = False\<rparr>"

definition poison_entry :: "unit handlerEntry" where
  "poison_entry = \<lparr>e_fn = \<lambda>h raw. (ask_retry, h), e_maxRetries = 2, e_baseDelay = 1 * Second, e_coordinator = None\<rparr>"

definition sample_runtime :: "(mem \<times> t_call list, MemoryStore, unit) runtime" where
  "sample_runtime = \<lparr>rt_handlers = [''t'' \<mapsto> poison_entry], rt_transport = logged MemoryTransport,
     rt_hooks = no_hooks, rt_idemFilter = None, rt_conv = \<lambda>_. 0\<rparr>"

definition sample_ring :: "Message buffer" where
  "sample_ring = \<lparr>b_items = [None], b_head = 0, b_tail = 0, b_count = 0, b_capacity = 1, b_mask = 0,
     b_policy = Block, b_closed = False, b_headA = 0, b_tailA = 0, b_cond = cond_New\<rparr>"

definition sample_world :: "Message list \<Rightarrow> (mem \<times> t_call list, MemoryStore, unit) world" where
  "sample_world msgs = \<lparr>x_ring = sample_ring, x_transport = (mem_New\<lparr>mt_messages := msgs\<rparr>, []),
     x_store = NewMemoryStore, x_wheel = wheel_New, x_user = (), x_events = []\<rparr>"

section \<open>Frames\<close>

lemma recorded_fst: "fst (recorded c f s) = fst (f (fst s))"
  by (simp add: recorded_def split_def Let_def)

lemma recorded_snd: "snd (snd (recorded c f s)) = snd s @ [c]"
  by (simp add: recorded_def split_def Let_def)

lemma call_transport_sel [frame_simps]:
  "fst (call_transport f w) = fst (f (x_transport w))"
  "x_transport (snd (call_transport f w)) = snd (f (x_transport w))"
  "x_ring (snd (call_transport f w)) = x_ring w"
  "x_store (snd (call_transport f w)) = x_store w"
  "x_wheel (snd (call_transport f w)) = x_wheel w"
  "x_user (snd (call_transport f w)) = x_user w"
  "x_events (snd (call_transport f w)) = x_events w"
  by (simp_all add: call_transport_def split_def Let_def)

lemma log_events_sel [frame_simps]:
  "x_transport (log_events evs w) = x_transport w" "x_ring (log_events evs w) = x_ring w"
  "x_store (log_events evs w) = x_store w" "x_wheel (log_events evs w) = x_wheel w"
  "x_user (log_events evs w) = x_user w" "x_events (log_events evs w) = x_events w @ evs"
  by (simp_all add: log_events_def)

lemma logged_sel [frame_simps]:
  "t_Ack (logged T) s ms = recorded (CAck ms) (\<lambda>t. t_Ack T t ms) s"
  "t_Nack (logged T) s m d = recorded (CNack m d) (\<lambda>t. t_Nack T t m d) s"
  "t_SendToDLQ (logged T) s m = recorded (CDLQ m) (\<lambda>t. t_SendToDLQ T t m) s"
  by (simp_all add: logged_def)

lemmas dispatch_frames = frame_simps recorded_fst recorded_snd

lemma enqueue_msg_frame [frame_simps]:
  "x_transport (snd (enqueue_msg m w)) = x_transport w" "x_store (snd (enqueue_msg m w)) = x_store w"
  "x_wheel (snd (enqueue_msg m w)) = x_wheel w" "x_user (snd (enqueue_msg m w)) = x_user w"
  "x_events (snd (enqueue_msg m w)) = x_events w"
  by (simp_all add: enqueue_msg_def split_def Let_def)

lemma assert_messages_append [simp]: "assert_messages (xs @ ys) = assert_messages xs @ assert_messages ys"
  by (induction xs rule: assert_messages.induct) auto

section \<open>One message\<close>

lemma enqueue_msg_fate:
  assumes "ring_inv (x_ring w)" and "b_policy (x_ring w) = Block" and "enqueue_msg m w = (res, w')"
  shows "settled m (queue_fate (x_ring w)) w res w'"
proof -
  obtain e b where e: "Enqueue (x_ring w) (Some m) = (e, b)" by fastforce
  have w': "w' = w\<lparr>x_ring := b\<rparr>" and res: "res = (case e of Returned _ \<Rightarrow> Finished | Waiting \<Rightarrow> Blocked m)"
    using assms(3) e by (auto simp: enqueue_msg_def)
  from Enqueue_correct[OF assms(1) e] Enqueue_parked[of "x_ring w" "Some m"] assms(2) e w' res
  show ?thesis by (cases "b_closed (x_ring w)") (auto simp: settled_def split: if_splits)
qed

lemma settle_DLQ_fate:
  assumes "rt_transport r = logged T" and "ring_inv (x_ring w)"
  shows "settled m (dlq_fate T (fst (x_transport w)) m) w Finished (settle_DLQ r topic m err w)"
  using assms by (auto simp: settle_DLQ_def settled_def split_def Let_def dispatch_frames split: option.split)

lemma settle_Ack_fate:
  assumes "rt_transport r = logged T" and "ring_inv (x_ring w)" and "settle_Ack r now msg outcome w = Inr (res, w')"
  shows "settled (o_Message outcome) Acked w res w'"
  using assms
  by (auto simp: settle_Ack_def settled_def split_def Let_def dispatch_frames split: option.splits sum.splits)

lemma settle_RetryWithDelay_fate:
  assumes "rt_transport r = logged T" and "ring_inv (x_ring w)"
  shows "settled (o_Message outcome) (Nacked (o_Delay outcome)) w Finished (settle_RetryWithDelay r msg outcome w)"
  using assms by (simp add: settle_RetryWithDelay_def settled_def dispatch_frames)

lemma settled_cong:
  assumes "settled m fate w1 res w'" and "x_ring w1 = x_ring w" and "x_transport w1 = x_transport w"
    and "x_wheel w1 = x_wheel w"
  shows "settled m fate w res w'"
  using assms by (simp add: settled_def)

text \<open>The world the switch on the outcome starts from.\<close>

lemma processMessage_switch:
  obtains w1 where "x_ring w1 = x_ring w" "x_transport w1 = x_transport w" "x_wheel w1 = x_wheel w"
    "x_store w1 = x_store w"
    and "processMessage r now msg entry w = process_switch r now msg (outcome_of r (x_user w) msg entry) w1"
proof -
  let ?h = "snd (e_fn entry (x_user w) (m_Payload msg))" and ?res = "fst (e_fn entry (x_user w) (m_Payload msg))"
  let ?w = "(log_events (fireOnComplete (rt_hooks r) (m_Topic msg)) (w\<lparr>x_user := ?h\<rparr>))
    \<lparr>x_user := snd (resolveOutcome r ?h msg entry ?res)\<rparr>"
  show thesis
    by (rule that[of ?w]) (simp_all add: frame_simps processMessage_def split_def Let_def outcome_of_def)
qed

lemma processMessage_fate:
  assumes T: "rt_transport r = logged T" and inv: "ring_inv (x_ring w)" and pol: "b_policy (x_ring w) = Block"
    and p: "processMessage r now msg entry w = Inr (res, w')"
  shows "settled (o_Message (outcome_of r (x_user w) msg entry))
    (fate_of T (fst (x_transport w)) (x_ring w) (outcome_of r (x_user w) msg entry)) w res w'"
proof -
  let ?o = "outcome_of r (x_user w) msg entry"
  obtain w1 where same: "x_ring w1 = x_ring w" "x_transport w1 = x_transport w" "x_wheel w1 = x_wheel w"
    and "processMessage r now msg entry w = process_switch r now msg ?o w1"
    by (rule processMessage_switch)
  with p have sw: "process_switch r now msg ?o w1 = Inr (res, w')" by simp
  have "settled (o_Message ?o) (fate_of T (fst (x_transport w)) (x_ring w) ?o) w1 res w'"
  proof (cases "o_Action ?o")
    case Ack
    with sw settle_Ack_fate[OF T, of w1 now msg ?o res w'] inv same show ?thesis by (auto simp: fate_of_def process_switch_def)
  next
    case Retry
    let ?w = "log_events (fireOnRetry (rt_hooks r) (m_Topic msg) (o_Message ?o) (m_Attempts (o_Message ?o))) w1"
    have "settled (o_Message ?o) (queue_fate (x_ring ?w)) ?w res w'"
      by (rule enqueue_msg_fate) (use sw Retry inv pol same in \<open>simp_all add: frame_simps settle_Retry_def process_switch_def\<close>)
    then show ?thesis using Retry same by (simp add: fate_of_def settled_def frame_simps)
  next
    case RetryWithDelay
    with sw settle_RetryWithDelay_fate[OF T, of w1 ?o msg] inv same show ?thesis by (auto simp: fate_of_def process_switch_def)
  next
    case DLQ
    with sw settle_DLQ_fate[OF T, of w1 "o_Message ?o" "m_Topic msg" "o_Err ?o"] inv same
    show ?thesis by (auto simp: fate_of_def process_switch_def simp del: dlq_fate.simps)
  next
    case (OtherAction a)
    with sw inv same show ?thesis by (auto simp: fate_of_def settled_def process_switch_def)
  qed
  then show ?thesis by (rule settled_cong) (simp_all add: same)
qed

section \<open>One batch\<close>

lemma ack_each_calls:
  assumes "rt_transport r = logged T"
  shows "calls (ack_each r dups w) = calls w @ map (\<lambda>d. CAck [d]) dups"
    and "x_ring (ack_each r dups w) = x_ring w" and "x_wheel (ack_each r dups w) = x_wheel w"
    and "x_store (ack_each r dups w) = x_store w" and "x_user (ack_each r dups w) = x_user w"
    and "x_events (ack_each r dups w) = x_events w"
  using assms by (induction dups arbitrary: w) (simp_all add: dispatch_frames)

section \<open>The poller and the timer\<close>

lemma enqueue_msg_open:
  assumes "open_world w" and "enqueue_msg m w = (res, w')"
  shows "open_world w' \<and> holdings w' = add_mset (Some m) (holdings w) \<and> x_transport w' = x_transport w \<and>
    (res = Finished \<or> res = Blocked m)"
proof -
  obtain e b where e: "Enqueue (x_ring w) (Some m) = (e, b)" by fastforce
  have w': "w' = w\<lparr>x_ring := b\<rparr>" and res: "res = (case e of Returned _ \<Rightarrow> Finished | Waiting \<Rightarrow> Blocked m)"
    using assms(2) e by (auto simp: enqueue_msg_def)
  from assms(1) have ring: "ring_inv (x_ring w)" "\<not> b_closed (x_ring w)" "b_policy (x_ring w) = Block"
    by (simp_all add: open_world_def)
  from Enqueue_correct[OF ring(1) e] Enqueue_parked[of "x_ring w" "Some m"] Enqueue_frame[of "x_ring w" "Some m"]
    e w' ring assms(1) res
  show ?thesis by (auto simp: open_world_def holdings_def split: if_splits)
qed

lemma poll_one_open:
  assumes "open_world w" and "poll_one r now m w = Inr (res, w')"
  shows "open_world w' \<and> holdings w' = add_mset (Some m) (holdings w) \<and> x_transport w' = x_transport w"
proof -
  let ?w = "log_events (fire (h_OnDispatch (rt_hooks r)) (OnDispatch (m_Topic m))) w"
  have w: "open_world ?w" "holdings ?w = holdings w" "x_transport ?w = x_transport w"
    using assms(1) by (simp_all add: open_world_def holdings_def frame_simps)
  show ?thesis
  proof (cases "m_NotBefore m > 0")
    case True
    then obtain wheel where ins: "wheel_Insert (x_wheel w) m (m_NotBefore m) now = Inr wheel"
      and w': "w' = ?w\<lparr>x_wheel := wheel\<rparr>"
      using assms(2) by (auto simp: poll_one_def Let_def frame_simps split: sum.splits)
    from assms(1) have wheel: "wheel_inv (x_wheel w)" "\<not> w_closed (x_wheel w)" by (simp_all add: open_world_def)
    have "open_world w'"
      using w(1) Insert_inv[OF wheel(1) ins] Insert_bucket(3)[OF wheel(2) ins] wheel(2)
      by (simp add: open_world_def w')
    moreover have "holdings w' = add_mset (Some m) (holdings w)"
      using Insert_items[OF wheel ins] by (simp add: holdings_def w' log_events_sel)
    ultimately show ?thesis by (simp add: w' log_events_sel)
  next
    case False
    with assms(2) have "enqueue_msg m ?w = (res, w')" by (simp add: poll_one_def Let_def)
    from enqueue_msg_open[OF w(1) this] w show ?thesis by simp
  qed
qed

lemma poll_one_ok: "open_world w \<Longrightarrow> \<exists>res w'. poll_one r now m w = Inr (res, w')"
  using Insert_ok[of "x_wheel w" m "m_NotBefore m" now]
  by (auto simp: poll_one_def Let_def frame_simps open_world_def split: sum.splits)

lemma poll_loop_conserves:
  assumes "open_world w"
  shows "\<exists>res w'. poll_loop r now msgs w = Inr (res, w') \<and> open_world w' \<and> x_transport w' = x_transport w \<and>
    holdings w' + image_mset Some (mset (poll_rest res)) = holdings w + image_mset Some (mset msgs)"
  using assms
proof (induction msgs arbitrary: w now)
  case (Cons m msgs)
  obtain res w1 where p: "poll_one r (now 0) m w = Inr (res, w1)" using poll_one_ok[OF Cons.prems] by blast
  note one = poll_one_open[OF Cons.prems p]
  show ?case
  proof (cases res)
    case Finished
    with one Cons.IH[of w1 "\<lambda>i. now (Suc i)"] p show ?thesis by auto
  next
    case (Blocked m')
    with one p show ?thesis by simp
  qed
qed simp

lemma timer_batch_conserves:
  assumes "open_world w" and "timer_batch batch w = (res, w')"
  shows "open_world w' \<and> x_transport w' = x_transport w \<and>
    holdings w' + image_mset Some (mset (poll_rest res)) = holdings w + image_mset Some (mset batch)"
  using assms
proof (induction batch arbitrary: w)
  case (Cons m batch)
  obtain r w1 where e: "enqueue_msg m w = (r, w1)" by fastforce
  note one = enqueue_msg_open[OF Cons.prems(1) e]
  then show ?case using Cons.prems(2) Cons.IH[of w1] e by (cases r) (auto simp: ac_simps)
qed simp

text \<open>A closed ring takes nothing.\<close>

lemma enqueue_msg_closed: "b_closed (x_ring w) \<Longrightarrow> enqueue_msg m w = (Finished, w)"
  by (simp add: enqueue_msg_def Enqueue_def)

lemma timer_batch_closed: "b_closed (x_ring w) \<Longrightarrow> timer_batch batch w = (PollDone, w)"
  by (induction batch) (simp_all add: enqueue_msg_closed)

section \<open>The default coordinator\<close>

text \<open>Arguments for which the backoff stays within 64 bits.\<close>

lemma default_outcome:
  assumes "e_coordinator entry = None" and "0 \<le> m_Attempts msg" and "m_Attempts msg < 63"
    and "0 < e_baseDelay entry" and "e_baseDelay entry * 2 ^ nat (m_Attempts msg) < 2 ^ 63"
    and "e_fn entry h (m_Payload msg) = (result, h')"
  shows "\<exists>err. outcome_of r h msg entry =
    (if r_Action result = Ack then \<lparr>o_Action = Ack, o_Message = msg, o_Delay = 0, o_Err = None\<rparr>
     else if is_retry (r_Action result) \<and> m_Attempts msg + 1 \<le> e_maxRetries entry
     then \<lparr>o_Action = RetryWithDelay, o_Message = msg\<lparr>m_Attempts := m_Attempts msg + 1\<rparr>,
           o_Delay = (if r_Delay result > 0 then r_Delay result
                      else retry_delay (e_baseDelay entry) (nat (m_Attempts msg))), o_Err = None\<rparr>
     else \<lparr>o_Action = DLQ, o_Message = msg, o_Delay = 0, o_Err = err\<rparr>)"
proof -
  have b: "backoff conv (e_baseDelay entry) (m_Attempts msg + 1) =
      retry_delay (e_baseDelay entry) (nat (m_Attempts msg))" for conv
    using backoff_exact[of "e_baseDelay entry" "m_Attempts msg + 1" conv] assms(2-5)
    by (simp add: retry_delay_def)
  have pos: "0 < retry_delay (e_baseDelay entry) (nat (m_Attempts msg))"
    using assms(4) by (simp add: retry_delay_def maxRetryDelay_def duration_defs)
  have att: "wrap64 (m_Attempts msg + 1) = m_Attempts msg + 1"
    using assms(2,3) by (intro wrap64_id) (simp add: int64_def)
  show ?thesis
    using assms(1,6) pos
    by (cases "r_Action result")
      (simp_all add: outcome_of_def resolveOutcome_def default_Handle_def default_retry_def b att Let_def)
qed

section \<open>Rounds on the in-memory transport\<close>

lemma enqueue_msg_empty:
  assumes "open_world w" and "contents (x_ring w) = []"
  obtains b where "enqueue_msg m w = (Finished, w\<lparr>x_ring := b\<rparr>)" "ring_inv b" "contents b = [Some m]"
    "\<not> b_closed b" "b_policy b = Block"
proof -
  obtain e b where e: "Enqueue (x_ring w) (Some m) = (e, b)" by fastforce
  from assms(1) have ring: "ring_inv (x_ring w)" "\<not> b_closed (x_ring w)" "b_policy (x_ring w) = Block"
    by (simp_all add: open_world_def)
  from Enqueue_correct[OF ring(1) e] ring assms(2) ring_cap_pos[OF ring(1)]
  have "e = Returned None" "ring_inv b" "contents b = [Some m]" by (auto simp: unat_eq_zero split: if_splits)
  moreover have "\<not> b_closed b" "b_policy b = Block" using Enqueue_frame[of "x_ring w" "Some m"] e ring by auto
  ultimately show thesis by (intro that[of b]) (simp_all add: enqueue_msg_def e)
qed

lemma dequeue_single:
  assumes "ring_inv b" and "contents b = [x]" and "DequeueBatch b 10 = (xs, b')"
  shows "xs = [x] \<and> ring_inv b' \<and> contents b' = [] \<and> b_closed b' = b_closed b \<and> b_policy b' = b_policy b"
  using DequeueBatch_correct[OF assms(1,3)] DequeueBatch_frame[of b 10] assms(2,3)
  by (simp add: batch_size_def)

lemma memory_round_dispatch:
  assumes idle: "idle_world w [msg]" and nb: "m_NotBefore msg \<le> 0"
  obtains w1 where "idle_world w1 []" "x_user w1 = x_user w" "x_store w1 = x_store w" "calls w1 = calls w"
    "memory_round r now w = (case dispatchBatch r (\<lambda>_. now) [Some msg] w1 of Inl p \<Rightarrow> Inl p
       | Inr (tasks, w') \<Rightarrow> run_tasks r now tasks w')"
proof -
  let ?t = "(fst (x_transport w))\<lparr>mt_messages := []\<rparr>"
  have sub: "Subscribe_check (fst (x_transport w)) 0 = (SubDeliver [msg], ?t)"
    using idle by (simp add: idle_world_def Subscribe_check_def)
  let ?evs = "fire (h_OnReceive (rt_hooks r)) (OnReceive 1) @ fire (h_OnDispatch (rt_hooks r)) (OnDispatch (m_Topic msg))"
  let ?w = "w\<lparr>x_transport := (?t, calls w), x_events := x_events w @ ?evs\<rparr>"
  have open_: "open_world ?w" "contents (x_ring ?w) = []" using idle by (simp_all add: idle_world_def open_world_def)
  then obtain b where b: "enqueue_msg msg ?w = (Finished, ?w\<lparr>x_ring := b\<rparr>)" "ring_inv b" "contents b = [Some msg]"
    "\<not> b_closed b" "b_policy b = Block" by (rule enqueue_msg_empty)
  have c: "consume r (\<lambda>_. now) [msg] (w\<lparr>x_transport := (?t, calls w)\<rparr>) = Inr (PollDone, ?w\<lparr>x_ring := b\<rparr>)"
    using nb b(1) by (simp add: consume_def poll_one_def log_events_def Let_def)
  obtain xs b' where d: "DequeueBatch b 10 = (xs, b')" by fastforce
  note deq = dequeue_single[OF b(2,3) d]
  let ?w1 = "?w\<lparr>x_ring := b'\<rparr>"
  have "memory_round r now w = (case dispatchBatch r (\<lambda>_. now) [Some msg] ?w1 of Inl p \<Rightarrow> Inl p
       | Inr (tasks, w') \<Rightarrow> run_tasks r now tasks w')"
    using d deq by (simp add: memory_round_def sub c)
  moreover have "idle_world ?w1 []" using open_ deq b idle by (simp add: open_world_def idle_world_def)
  ultimately show thesis using that[of ?w1] by simp
qed

lemma memory_round_one:
  assumes idle: "idle_world w [msg]" and nb: "m_NotBefore msg \<le> 0" and r: "rt_idemFilter r = None"
    "rt_handlers r (m_Topic msg) = Some entry"
  obtains w1 where "idle_world w1 []" "x_user w1 = x_user w" "calls w1 = calls w"
    "memory_round r now w = (case processMessage r now msg entry w1 of Inl p \<Rightarrow> Inl p | Inr (_, w') \<Rightarrow> Inr w')"
proof -
  obtain w1 where w1: "idle_world w1 []" "x_user w1 = x_user w" "calls w1 = calls w"
    "memory_round r now w = (case dispatchBatch r (\<lambda>_. now) [Some msg] w1 of Inl p \<Rightarrow> Inl p
       | Inr (tasks, w') \<Rightarrow> run_tasks r now tasks w')"
    using memory_round_dispatch[OF idle nb] by metis
  with that[of w1] r show thesis by (simp add: dispatchBatch_def task_of_def split: sum.split prod.split)
qed

lemma processMessage_default:
  assumes "e_coordinator entry = None" and "e_fn entry (x_user w) (m_Payload msg) = (result, h)"
  obtains w1 where "x_ring w1 = x_ring w" "x_transport w1 = x_transport w" "x_wheel w1 = x_wheel w" "x_store w1 = x_store w" "x_user w1 = h"
    and "processMessage r now msg entry w = process_switch r now msg (outcome_of r (x_user w) msg entry) w1"
  by (rule that[of "log_events (fireOnComplete (rt_hooks r) (m_Topic msg)) (w\<lparr>x_user := h\<rparr>)"])
    (use assms in \<open>simp_all add: log_events_def processMessage_def resolveOutcome_def split_def Let_def outcome_of_def\<close>)

lemma scaled_delay:
  fixes base :: int
  assumes "0 < base" and "a \<le> n" and "base * 2 ^ n < 2 ^ 63"
  shows "base * 2 ^ a < 2 ^ 63"
proof -
  have "base * 2 ^ a \<le> base * 2 ^ n" using assms by (intro mult_left_mono power_increasing) auto
  with assms(3) show ?thesis by simp
qed

lemma memory_settles:
  assumes r: "rt_transport r = logged MemoryTransport" and w: "idle_world w1 []"
  shows "idle_world (settle_RetryWithDelay r m outcome w1) [o_Message outcome]"
    and "calls (settle_RetryWithDelay r m outcome w1) = calls w1 @ [CNack (o_Message outcome) (o_Delay outcome)]"
    and "x_user (settle_RetryWithDelay r m outcome w1) = x_user w1"
    and "idle_world (settle_DLQ r topic msg err w1) []"
    and "calls (settle_DLQ r topic msg err w1) = calls w1 @ [CDLQ msg, CAck [msg]]"
    and "x_user (settle_DLQ r topic msg err w1) = x_user w1"
    and "rt_idemFilter r = None \<Longrightarrow> \<exists>w2. settle_Ack r now m outcome w1 = Inr (Finished, w2) \<and> idle_world w2 [] \<and>
      calls w2 = calls w1 @ [CAck [o_Message outcome]] \<and> x_user w2 = x_user w1"
  using assms
  by (simp_all add: idle_world_def open_world_def settle_RetryWithDelay_def settle_DLQ_def settle_Ack_def split_def Let_def
      dispatch_frames recorded_def MemoryTransport_def mem_Nack_def mem_Publish_def mem_SendToDLQ_def mem_Ack_def)

text \<open>What one round does with a message under the default coordinator.\<close>

lemma default_round:
  assumes r: "rt_transport r = logged MemoryTransport" "rt_idemFilter r = None"
      "rt_handlers r (m_Topic msg) = Some entry"
    and e: "e_coordinator entry = None" "0 < e_baseDelay entry" "e_baseDelay entry * 2 ^ a < 2 ^ 63"
    and fn: "e_fn entry (x_user w) (m_Payload msg) = (result, h)"
    and m: "m_NotBefore msg \<le> 0" "m_Attempts msg = int a" "a < 63" and w: "idle_world w [msg]"
  shows "\<exists>w'. memory_round r now w = Inr w' \<and> x_user w' = h \<and>
    (if r_Action result = Ack then idle_world w' [] \<and> calls w' = calls w @ [CAck [msg]]
     else if is_retry (r_Action result) \<and> int a + 1 \<le> e_maxRetries entry
     then idle_world w' [msg\<lparr>m_Attempts := int a + 1\<rparr>] \<and>
       calls w' = calls w @ [CNack (msg\<lparr>m_Attempts := int a + 1\<rparr>)
         (if r_Delay result > 0 then r_Delay result else retry_delay (e_baseDelay entry) a)]
     else idle_world w' [] \<and> calls w' = calls w @ [CDLQ msg, CAck [msg]])"
proof -
  obtain w1 where w1: "idle_world w1 []" "x_user w1 = x_user w" "calls w1 = calls w"
    and round: "memory_round r now w = (case processMessage r now msg entry w1 of Inl p \<Rightarrow> Inl p | Inr (_, w') \<Rightarrow> Inr w')"
    using memory_round_one[OF w m(1) r(2,3)] by metis
  have att: "0 \<le> int a" "int a < 63" using m(3) by simp_all
  obtain err where out: "outcome_of r (x_user w) msg entry =
    (if r_Action result = Ack then \<lparr>o_Action = Ack, o_Message = msg, o_Delay = 0, o_Err = None\<rparr>
     else if is_retry (r_Action result) \<and> int a + 1 \<le> e_maxRetries entry
     then \<lparr>o_Action = RetryWithDelay, o_Message = msg\<lparr>m_Attempts := int a + 1\<rparr>,
           o_Delay = (if r_Delay result > 0 then r_Delay result else retry_delay (e_baseDelay entry) a), o_Err = None\<rparr>
     else \<lparr>o_Action = DLQ, o_Message = msg, o_Delay = 0, o_Err = err\<rparr>)" (is "_ = ?o")
    using default_outcome[OF e(1) _ _ e(2) _ fn, of r, unfolded m(2) nat_int, OF att e(3)] by blast
  obtain w2 where same: "x_ring w2 = x_ring w1" "x_transport w2 = x_transport w1" "x_wheel w2 = x_wheel w1" "x_user w2 = h"
    and pm: "processMessage r now msg entry w1 = process_switch r now msg (outcome_of r (x_user w1) msg entry) w2"
    using processMessage_default[OF e(1) fn[folded w1(2)]] by metis
  have "idle_world w2 []" using w1(1) same by (simp add: idle_world_def open_world_def)
  note settles = memory_settles[OF r(1) this, unfolded same]
  show ?thesis
    using settles(1-3)[of msg ?o] settles(4-6)[of "m_Topic msg" msg err] settles(7)[OF r(2), of now msg ?o] w1(3)
    by (auto simp: round pm w1(2) out process_switch_def)
qed

text \<open>What one round does with a message whose handler asks for a retry.\<close>

lemma poison_round:
  assumes r: "rt_transport r = logged MemoryTransport" "rt_idemFilter r = None"
      "rt_handlers r (m_Topic msg) = Some entry"
    and e: "e_coordinator entry = None" "e_maxRetries entry = int n" "n \<le> 62" "0 < e_baseDelay entry"
      "e_baseDelay entry * 2 ^ n < 2 ^ 63"
    and p: "\<And>h raw. fst (e_fn entry h raw) = ask_retry"
    and m: "m_NotBefore msg \<le> 0" "m_Attempts msg = int a" "a \<le> n" and w: "idle_world w [msg]"
  shows "\<exists>w'. memory_round r now w = Inr w' \<and>
    (if a < n then idle_world w' [msg\<lparr>m_Attempts := int a + 1\<rparr>] \<and>
       calls w' = calls w @ [CNack (msg\<lparr>m_Attempts := int a + 1\<rparr>) (retry_delay (e_baseDelay entry) a)]
     else idle_world w' [] \<and> calls w' = calls w @ [CDLQ msg, CAck [msg]])"
proof -
  obtain h where fn: "e_fn entry (x_user w) (m_Payload msg) = (ask_retry, h)" using p by (metis prod.collapse)
  have "a < 63" using m(3) e(3) by simp
  from default_round[OF r e(1,4) scaled_delay[OF e(4) m(3) e(5)] fn m(1,2) this w, of now] e(2) show ?thesis
    by (auto simp: ask_retry_def split: if_splits)
qed

lemma poison_rounds:
  assumes r: "rt_transport r = logged MemoryTransport" "rt_idemFilter r = None"
      "rt_handlers r (m_Topic msg) = Some entry"
    and e: "e_coordinator entry = None" "e_maxRetries entry = int n" "n \<le> 62" "0 < e_baseDelay entry"
      "e_baseDelay entry * 2 ^ n < 2 ^ 63"
    and p: "\<And>h raw. fst (e_fn entry h raw) = ask_retry"
    and m: "m_NotBefore msg \<le> 0" and "m_Attempts msg = int a" "a \<le> n" and "idle_world w [msg]"
  shows "\<exists>w'. memory_rounds (Suc (n - a)) r now w = Inr w' \<and> idle_world w' [] \<and>
    calls w' = calls w @ poison_calls (e_baseDelay entry) msg a n"
  using assms(3,10-13)
proof (induction "n - a" arbitrary: a msg w)
  case 0
  then have "a = n" by simp
  with poison_round[OF r(1,2) 0(2) e p 0(3-6), of now] 0 show ?case
    by (auto simp: poison_calls_def)
next
  case (Suc k)
  then have lt: "a < n" and k: "k = n - Suc a" by simp_all
  let ?msg = "msg\<lparr>m_Attempts := int a + 1\<rparr>"
  obtain w1 where w1: "memory_round r now w = Inr w1" "idle_world w1 [?msg]"
    "calls w1 = calls w @ [CNack ?msg (retry_delay (e_baseDelay entry) a)]"
    using poison_round[OF r(1,2) Suc(3) e p Suc(4-7), of now] lt by auto
  have "\<exists>w'. memory_rounds (Suc (n - Suc a)) r now w1 = Inr w' \<and> idle_world w' [] \<and>
      calls w' = calls w1 @ poison_calls (e_baseDelay entry) ?msg (Suc a) n"
    by (rule Suc(1)[OF k]) (use Suc(3,4) w1(2) lt in simp_all)
  moreover have "memory_rounds (Suc (n - a)) r now w = memory_rounds (Suc (n - Suc a)) r now w1"
    using w1(1) lt by (simp add: Suc_diff_Suc flip: Suc(2) k)
  moreover have "poison_calls (e_baseDelay entry) msg a n =
      CNack ?msg (retry_delay (e_baseDelay entry) a) # poison_calls (e_baseDelay entry) ?msg (Suc a) n"
    using lt by (simp add: poison_calls_def upt_conv_Cons)
  ultimately show ?case using w1(3) by simp
qed

lemma success_rounds:
  assumes r: "rt_transport r = logged MemoryTransport" "rt_idemFilter r = None"
      "rt_handlers r (m_Topic msg) = Some entry"
    and e: "e_coordinator entry = None" "int n \<le> e_maxRetries entry" "n \<le> 62" "0 < e_baseDelay entry"
      "e_baseDelay entry * 2 ^ n < 2 ^ 63"
    and run: "\<And>k. k \<le> n \<Longrightarrow> e_fn entry (hs k) raw = (result k, hs (Suc k))"
      "\<And>k. k < n \<Longrightarrow> is_retry (r_Action (result k)) \<and> r_Delay (result k) \<le> 0" "r_Action (result n) = Ack"
    and "m_NotBefore msg \<le> 0" and "m_Payload msg = raw" and "m_Attempts msg = int a" "a \<le> n"
    and "idle_world w [msg]" and "x_user w = hs a"
  shows "\<exists>w'. memory_rounds (Suc (n - a)) r now w = Inr w' \<and> idle_world w' [] \<and> x_user w' = hs (Suc n) \<and>
    calls w' = calls w @ success_calls (e_baseDelay entry) msg a n"
  using assms(3,12-17)
proof (induction "n - a" arbitrary: a msg w)
  case 0
  then have "a = n" by simp
  with 0 run(1)[of n] have fn: "e_fn entry (x_user w) (m_Payload msg) = (result n, hs (Suc n))" by simp
  from default_round[OF r(1,2) 0(2) e(1,4,5) fn 0(3) _ _ 0(7), of now] 0 \<open>a = n\<close> e(3) run(3)
  show ?case by (auto simp: success_calls_def)
next
  case (Suc k)
  then have lt: "a < n" and k: "k = n - Suc a" by simp_all
  let ?msg = "msg\<lparr>m_Attempts := int a + 1\<rparr>"
  have fn: "e_fn entry (x_user w) (m_Payload msg) = (result a, hs (Suc a))" using Suc run(1)[of a] lt by simp
  have act: "is_retry (r_Action (result a))" "r_Action (result a) \<noteq> Ack" "\<not> 0 < r_Delay (result a)"
    using run(2)[OF lt] by auto
  have "a < 63" using lt e(3) by simp
  from default_round[OF r(1,2) Suc(3) e(1,4) scaled_delay[OF e(4) Suc(7) e(5)] fn Suc(4,6) this Suc(8), of now]
  obtain w1 where w1: "memory_round r now w = Inr w1" "idle_world w1 [?msg]" "x_user w1 = hs (Suc a)"
    "calls w1 = calls w @ [CNack ?msg (retry_delay (e_baseDelay entry) a)]"
    using lt e(2) act by auto
  have "\<exists>w'. memory_rounds (Suc (n - Suc a)) r now w1 = Inr w' \<and> idle_world w' [] \<and> x_user w' = hs (Suc n) \<and>
      calls w' = calls w1 @ success_calls (e_baseDelay entry) ?msg (Suc a) n"
    by (rule Suc(1)[OF k]) (use Suc(3-5) w1(2,3) lt in simp_all)
  moreover have "memory_rounds (Suc (n - a)) r now w = memory_rounds (Suc (n - Suc a)) r now w1"
    using w1(1) lt by (simp add: Suc_diff_Suc flip: Suc(2) k)
  moreover have "success_calls (e_baseDelay entry) msg a n =
      CNack ?msg (retry_delay (e_baseDelay entry) a) # success_calls (e_baseDelay entry) ?msg (Suc a) n"
    using lt by (simp add: success_calls_def upt_conv_Cons)
  ultimately show ?case using w1(4) by simp
qed

section \<open>Properties\<close>

lemma sample_ring_New: "ring_New 1 Block = Inr sample_ring"
  by (simp add: ring_New_def nextPowerOfTwo_def sample_ring_def Let_def)

lemmas sample_ring_facts = ring_New_Inr[OF sample_ring_New, simplified]

lemma sample_runtime_transport: "rt_transport sample_runtime = logged MemoryTransport"
  by (simp add: sample_runtime_def)

lemma mem_SendToDLQ_never_fails: "fst (t_SendToDLQ MemoryTransport t m) = None"
  by (simp add: MemoryTransport_def mem_SendToDLQ_def)

lemma sample_world_idle: "idle_world (sample_world msgs) msgs"
proof -
  have "wheel_inv (wheel_New :: Message wheel)" "\<not> w_closed (wheel_New :: Message wheel)"
    by (rule wheel_New_inv, rule wheel_New_open)
  then show ?thesis
    by (simp add: idle_world_def open_world_def sample_world_def sample_ring_facts mem_New_def)
qed

text \<open>C1. Every processed message is settled exactly once, as its outcome says: whatever the
  handler and the coordinator (default or user code) return, the transport calls made, the
  items added to the ring and the producers parked at it are those of one fate:
  acknowledged; nacked with the outcome's delay; sent to the dead-letter queue and then
  acknowledged, or left unacknowledged if that send failed; queued again, parked at a full
  ring, or refused by a closed one.\<close>

theorem process_settles_once:
  assumes "rt_transport r = logged T" and "ring_inv (x_ring w)" and "b_policy (x_ring w) = Block"
    and "processMessage r now msg entry w = Inr (res, w')"
  shows "settled (o_Message (outcome_of r (x_user w) msg entry))
    (fate_of T (fst (x_transport w)) (x_ring w) (outcome_of r (x_user w) msg entry)) w res w'"
  by (rule processMessage_fate[OF assms])

theorem process_settles_once_witness:
  "\<exists>res w'. processMessage sample_runtime (at_second 0) (sample_msg 2) poison_entry (sample_world []) = Inr (res, w') \<and>
     calls w' = [CDLQ (sample_msg 2), CAck [sample_msg 2]]"
proof -
  have o: "outcome_of sample_runtime () (sample_msg 2) poison_entry =
      \<lparr>o_Action = DLQ, o_Message = sample_msg 2, o_Delay = 0, o_Err = Some (MaxRetriesExceeded 2 (Some (UserError ''boom'')))\<rparr>"
    by (simp add: outcome_of_def resolveOutcome_def poison_entry_def default_Handle_def default_retry_def
        ask_retry_def sample_msg_def wrap64_def Let_def)
  obtain res w' where p: "processMessage sample_runtime (at_second 0) (sample_msg 2) poison_entry (sample_world []) = Inr (res, w')"
    by (simp add: processMessage_def process_switch_def split_def Let_def resolveOutcome_def poison_entry_def
        default_Handle_def default_retry_def ask_retry_def sample_msg_def wrap64_def)
  have "settled (sample_msg 2) DeadLettered (sample_world []) res w'"
    using process_settles_once[OF _ _ _ p, of MemoryTransport]
    by (simp add: sample_runtime_transport sample_ring_facts o fate_of_def mem_SendToDLQ_never_fails sample_world_def)
  with p show ?thesis by (auto simp: settled_def sample_world_def)
qed

text \<open>C25. With the default coordinator, a positive base delay, 0 to 62 attempts made and a backoff
  that fits in 64 bits (past that \<open>backoff_overflow\<close> applies), a worker never touches the ring, whose
  policy is \<open>Block\<close> as \<open>Run\<close> makes it, and so never blocks, and the message goes exactly one way:
  acknowledged when the handler says so; nacked with its attempt counted and the handler's delay or
  \<open>min (base * 2^attempts) 5min\<close> while the budget lasts; dead-lettered otherwise.\<close>

theorem default_settlement:
  assumes "rt_transport r = logged T" and "e_coordinator entry = None" and "0 \<le> m_Attempts msg"
    and "m_Attempts msg < 63" and "0 < e_baseDelay entry" and "e_baseDelay entry * 2 ^ nat (m_Attempts msg) < 2 ^ 63"
    and "e_fn entry (x_user w) (m_Payload msg) = (result, h)" and "ring_inv (x_ring w)"
    and "b_policy (x_ring w) = Block" and "processMessage r now msg entry w = Inr (res, w')"
  shows "res = Finished \<and> contents (x_ring w') = contents (x_ring w) \<and> parked (x_ring w') = parked (x_ring w) \<and>
    calls w' = calls w @
      (if r_Action result = Ack then [CAck [msg]]
       else if is_retry (r_Action result) \<and> m_Attempts msg + 1 \<le> e_maxRetries entry
       then [CNack (msg\<lparr>m_Attempts := m_Attempts msg + 1\<rparr>)
              (if r_Delay result > 0 then r_Delay result else retry_delay (e_baseDelay entry) (nat (m_Attempts msg)))]
       else if fst (t_SendToDLQ T (fst (x_transport w)) msg) = None then [CDLQ msg, CAck [msg]] else [CDLQ msg])"
  using default_outcome[OF assms(2-7), of r] processMessage_fate[OF assms(1,8-10)]
  by (auto simp: fate_of_def settled_def split: if_splits)

theorem default_settlement_witness:
  "\<exists>res w'. processMessage sample_runtime (at_second 0) (sample_msg 1) poison_entry (sample_world []) = Inr (res, w') \<and>
     calls w' = [CNack (sample_msg 2) (2 * Second)]"
proof -
  obtain res w' where p: "processMessage sample_runtime (at_second 0) (sample_msg 1) poison_entry (sample_world []) = Inr (res, w')"
    by (simp add: processMessage_def process_switch_def split_def Let_def resolveOutcome_def poison_entry_def
        default_Handle_def default_retry_def ask_retry_def sample_msg_def wrap64_def backoff_def pow2_int64_def
        maxRetryDelay_def duration_defs)
  have "calls w' = [CNack (sample_msg 2) (2 * Second)]"
    using default_settlement[OF _ _ _ _ _ _ _ _ _ p, of MemoryTransport ask_retry "()"]
    by (simp add: sample_runtime_transport sample_world_def poison_entry_def sample_msg_def ask_retry_def
        sample_ring_facts retry_delay_def maxRetryDelay_def duration_defs)
  with p show ?thesis by blast
qed

text \<open>C7. Poison messages end, from transport to dead-letter queue: on the in-memory transport, a
  message whose handler asks for a retry at every run makes exactly \<open>maxRetries\<close> nacks, the
  k-th after the delay \<open>min (base * 2^k) 5min\<close>, then one send to the dead-letter queue and its
  acknowledgement, in \<open>maxRetries + 1\<close> rounds of receive, queue, dispatch and process; after
  them neither the transport nor the ring holds anything.\<close>

theorem poison_end_to_end:
  assumes "rt_transport r = logged MemoryTransport" and "rt_idemFilter r = None"
    and "rt_handlers r (m_Topic msg) = Some entry" and "e_coordinator entry = None"
    and "e_maxRetries entry = int n" and "n \<le> 62" and "0 < e_baseDelay entry"
    and "e_baseDelay entry * 2 ^ n < 2 ^ 63" and "\<forall>h raw. fst (e_fn entry h raw) = ask_retry"
    and "m_NotBefore msg \<le> 0" and "m_Attempts msg = 0" and "idle_world w [msg]"
  shows "\<exists>w'. memory_rounds (n + 1) r now w = Inr w' \<and> idle_world w' [] \<and>
    calls w' = calls w @ poison_calls (e_baseDelay entry) msg 0 n"
  using poison_rounds[OF assms(1-8) _ assms(10) _ _ assms(12), of 0 now] assms(9,11)
  by simp

theorem poison_end_to_end_witness:
  "\<exists>w'. memory_rounds 3 sample_runtime (at_second 0) (sample_world [sample_msg 0]) = Inr w' \<and>
     calls w' = [CNack (sample_msg 1) (1 * Second), CNack (sample_msg 2) (2 * Second),
       CDLQ (sample_msg 2), CAck [sample_msg 2]]"
proof -
  have "rt_handlers sample_runtime (m_Topic (sample_msg 0)) = Some poison_entry"
    by (simp add: sample_runtime_def sample_msg_def)
  from poison_end_to_end[OF sample_runtime_transport _ this, of 2 "sample_world [sample_msg 0]" "at_second 0"]
    sample_world_idle[of "[sample_msg 0]"]
  show ?thesis
    by (auto simp: sample_runtime_def poison_entry_def sample_msg_def poison_calls_def retry_delay_def
        maxRetryDelay_def duration_defs sample_world_def upt_rec numeral_2_eq_2 numeral_3_eq_3)
qed

text \<open>A message that cannot be handled is dead-lettered without running a handler: one whose
  topic has no handler, and one whose payload the handler's codec does not decode (with the
  default coordinator); the user state is not touched.\<close>

theorem undeliverable_is_dead_lettered:
  assumes "rt_transport r = logged T" and "ring_inv (x_ring w)" and "b_policy (x_ring w) = Block"
  shows "(rt_handlers r (m_Topic msg) = None \<longrightarrow>
      (\<exists>w'. run_task r now (task_of r msg) w = Inr (Finished, w') \<and> x_user w' = x_user w \<and>
        settled msg (dlq_fate T (fst (x_transport w)) msg) w Finished w')) \<and>
    (rt_handlers r (m_Topic msg) = Some entry \<and> e_fn entry = WrapWithCodec handler codec \<and>
      e_coordinator entry = None \<and> Decode codec (m_Payload msg) = Inl err \<longrightarrow>
      (\<exists>w'. run_task r now (task_of r msg) w = Inr (Finished, w') \<and> x_user w' = x_user w \<and>
        settled msg (dlq_fate T (fst (x_transport w)) msg) w Finished w'))"
proof (intro conjI impI)
  assume "rt_handlers r (m_Topic msg) = None"
  then have "run_task r now (task_of r msg) w = Inr (Finished, handleUnknownTopic r msg w)"
    by (simp add: task_of_def)
  moreover have "settled msg (dlq_fate T (fst (x_transport w)) msg) w Finished (handleUnknownTopic r msg w)"
    unfolding handleUnknownTopic_def by (rule settle_DLQ_fate[OF assms(1,2)])
  moreover have "x_user (handleUnknownTopic r msg w) = x_user w"
    by (simp add: handleUnknownTopic_def settle_DLQ_def split_def Let_def frame_simps split: option.split)
  ultimately show "\<exists>w'. run_task r now (task_of r msg) w = Inr (Finished, w') \<and> x_user w' = x_user w \<and>
      settled msg (dlq_fate T (fst (x_transport w)) msg) w Finished w'" by blast
next
  assume *: "rt_handlers r (m_Topic msg) = Some entry \<and> e_fn entry = WrapWithCodec handler codec \<and>
      e_coordinator entry = None \<and> Decode codec (m_Payload msg) = Inl err"
  have out: "outcome_of r (x_user w) msg entry = \<lparr>o_Action = DLQ, o_Message = msg, o_Delay = 0, o_Err = Some err\<rparr>"
    using * by (simp add: outcome_of_def WrapWithCodec_def resolveOutcome_def default_Handle_def)
  obtain w' where p: "processMessage r now msg entry w = Inr (Finished, w')" and u: "x_user w' = x_user w"
    using * by (simp add: processMessage_def WrapWithCodec_def resolveOutcome_def default_Handle_def process_switch_def
        settle_DLQ_def split_def Let_def frame_simps split: option.split)
  have "settled msg (dlq_fate T (fst (x_transport w)) msg) w Finished w'"
    using processMessage_fate[OF assms p] by (simp add: out fate_of_def)
  with p u * show "\<exists>w'. run_task r now (task_of r msg) w = Inr (Finished, w') \<and> x_user w' = x_user w \<and>
      settled msg (dlq_fate T (fst (x_transport w)) msg) w Finished w'" by (auto simp: task_of_def)
qed

theorem undeliverable_is_dead_lettered_witness:
  "\<exists>w'. run_task sample_runtime (at_second 0) (task_of sample_runtime (sample_msg 0\<lparr>m_Topic := ''nowhere''\<rparr>))
      (sample_world []) = Inr (Finished, w') \<and>
    calls w' = [CDLQ (sample_msg 0\<lparr>m_Topic := ''nowhere''\<rparr>), CAck [sample_msg 0\<lparr>m_Topic := ''nowhere''\<rparr>]]"
  using undeliverable_is_dead_lettered[OF sample_runtime_transport, of "sample_world []"
      "sample_msg 0\<lparr>m_Topic := ''nowhere''\<rparr>" "at_second 0"]
  by (auto simp: sample_world_def sample_ring_facts sample_runtime_def settled_def mem_SendToDLQ_never_fails)

text \<open>C26. A batch is accounted for completely: with a filter on the memory store, \<open>dispatchBatch\<close>
  acknowledges each message whose key the store has seen, once and in order, submits one
  task for every other message, in order, and touches neither the ring nor the wheel. Two
  messages of one batch with the same unseen key are both submitted.\<close>

theorem dispatch_batch_accounts:
  assumes "rt_transport r = logged T" and "rt_idemFilter r = Some f" and "f_store f = Some MemoryIdemStore"
    and "ms_inv (x_store w)" and "clock_monotone now"
  shows "\<exists>w'. dispatchBatch r now (map Some msgs) w =
      Inr (map (task_of r) (nths msgs {i. \<not> is_dup (ms_seen (x_store w)) f (now i) (msgs ! i)}), w') \<and>
    calls w' = calls w @
      map (\<lambda>d. CAck [d]) (nths msgs {i. is_dup (ms_seen (x_store w)) f (now i) (msgs ! i)}) \<and>
    x_ring w' = x_ring w \<and> x_wheel w' = x_wheel w \<and> ms_inv (x_store w')"
proof -
  have m: "assert_messages (map Some msgs) = msgs" by (induction msgs) auto
  obtain s' where fl: "filter_loop f MemoryIdemStore now (x_store w) msgs =
      Inr (nths msgs {i. \<not> is_dup (ms_seen (x_store w)) f (now i) (msgs ! i)},
           nths msgs {i. is_dup (ms_seen (x_store w)) f (now i) (msgs ! i)},
           dup_events f (nths msgs {i. is_dup (ms_seen (x_store w)) f (now i) (msgs ! i)}), s')" "ms_inv s'"
    using memory.loop_partitions[OF assms(4,5), of f msgs] by blast
  then show ?thesis
    using assms(2,3) m by (simp add: dispatchBatch_def filterDuplicates_def ack_each_calls[OF assms(1)] frame_simps)
qed

theorem dispatch_batch_accounts_witness:
  "\<exists>w'. dispatchBatch (sample_runtime\<lparr>rt_idemFilter := Some memory_filter\<rparr>) (\<lambda>_. at_second 1)
      (map Some [keyed_msg ''1'' ''k'', keyed_msg ''2'' ''j'', keyed_msg ''3'' ''j''])
      (sample_world []\<lparr>x_store := \<lparr>ms_keys = Some [''k'' \<mapsto> \<lparr>expiresAt = at_second 9\<rparr>], ms_stopClosed = False\<rparr>\<rparr>) =
    Inr ([Process (keyed_msg ''2'' ''j'') poison_entry, Process (keyed_msg ''3'' ''j'') poison_entry], w') \<and>
    calls w' = [CAck [keyed_msg ''1'' ''k'']]"
proof -
  let ?r = "sample_runtime\<lparr>rt_idemFilter := Some memory_filter\<rparr>"
  let ?s = "\<lparr>ms_keys = Some [''k'' \<mapsto> \<lparr>expiresAt = at_second 9\<rparr>], ms_stopClosed = False\<rparr>"
  have "rt_transport ?r = logged MemoryTransport" "rt_idemFilter ?r = Some memory_filter"
    "f_store memory_filter = Some MemoryIdemStore" "ms_inv (x_store (sample_world []\<lparr>x_store := ?s\<rparr>))"
    "clock_monotone (\<lambda>_. at_second 1)"
    by (simp_all add: sample_runtime_def memory_filter_def newIdemFilter_def ms_inv_def clock_monotone_def)
  from dispatch_batch_accounts[OF this, of "[keyed_msg ''1'' ''k'', keyed_msg ''2'' ''j'', keyed_msg ''3'' ''j'']"]
  show ?thesis
    by (auto simp: nths_Cons is_dup_def msg_key_def keyed_msg_def memory_filter_def newIdemFilter_def
        ms_seen_def ms_read_def go_simps at_second_def task_of_def sample_runtime_def sample_world_def)
qed

text \<open>The poller loses nothing while the pipeline is open: for every batch it receives, each
  message ends up in exactly one place, queued in the ring, parked at the full ring, in the
  timer wheel, or in the rest of the batch still to be handled; it does not panic, and what
  the ring and the wheel held before is still there.\<close>

theorem poller_conserves:
  assumes "open_world w"
  shows "\<exists>res w'. consume r now msgs w = Inr (res, w') \<and> open_world w' \<and> x_transport w' = x_transport w \<and>
    holdings w' + image_mset Some (mset (poll_rest res)) = holdings w + image_mset Some (mset msgs)"
  using poll_loop_conserves[of "log_events (fire (h_OnReceive (rt_hooks r)) (OnReceive (length msgs))) w" r now msgs] assms
  by (simp add: consume_def open_world_def holdings_def frame_simps)

theorem poller_conserves_witness:
  "\<exists>res w'. consume sample_runtime (\<lambda>_. at_second 0) [sample_msg 0, sample_msg 1, sample_msg 2] (sample_world []) = Inr (res, w') \<and>
     holdings w' + image_mset Some (mset (poll_rest res)) = {#Some (sample_msg 0), Some (sample_msg 1), Some (sample_msg 2)#}"
proof -
  have "open_world (sample_world [])" using sample_world_idle[of "[]"] by (simp add: idle_world_def)
  moreover have "holdings (sample_world []) = {#}"
    using wheel_New_items by (simp add: holdings_def sample_world_def sample_ring_facts parked_def go_simps)
  ultimately show ?thesis
    using poller_conserves[of "sample_world []" sample_runtime "\<lambda>_. at_second 0"
        "[sample_msg 0, sample_msg 1, sample_msg 2]"] by auto
qed

text \<open>C34. Shutdown discards every delayed message: \<open>Run\<close> closes the ring before it re-enqueues
  what \<open>Drain\<close> returned, so each of those calls is refused; the wheel ends up empty, the
  ring unchanged and the transport is not told, whatever was pending.\<close>

theorem shutdown_drops_delayed:
  assumes "ring_inv (x_ring w)"
  shows "\<exists>w'. shutdown_drain order w = (PollDone, w') \<and> wheel_items (x_wheel w') = {#} \<and>
    contents (x_ring w') = contents (x_ring w) \<and> parked (x_ring w') = parked (x_ring w) \<and>
    x_transport w' = x_transport w"
proof -
  let ?w = "w\<lparr>x_ring := ring_Close (x_ring w), x_wheel := snd (wheel_Drain (x_wheel w) order)\<rparr>"
  have "shutdown_drain order w = (PollDone, ?w)"
    using timer_batch_closed[of ?w] by (simp add: shutdown_drain_def wheel_Drain_def ring_Close_def)
  moreover have "wheel_items (x_wheel ?w) = {#}"
    by (simp add: wheel_Drain_def wheel_slots_def bucket_keys_def)
  moreover have "contents (x_ring ?w) = contents (x_ring w)" "parked (x_ring ?w) = parked (x_ring w)"
    using assms by (simp_all add: ring_Close_correct ring_Close_parked)
  ultimately show ?thesis by auto
qed

theorem shutdown_drops_delayed_witness:
  "\<exists>wheel w'. wheel_Insert wheel_New (sample_msg 0) Hour (at_second 0) = Inr wheel \<and>
     wheel_items wheel = {#sample_msg 0#} \<and>
     shutdown_drain [3600] (sample_world []\<lparr>x_wheel := wheel\<rparr>) = (PollDone, w') \<and>
     wheel_items (x_wheel w') = {#} \<and> contents (x_ring w') = []"
proof -
  obtain wheel :: "Message wheel" where i: "wheel_Insert wheel_New (sample_msg 0) Hour (at_second 0) = Inr wheel"
    using Insert_ok[OF wheel_New_inv[where 'a = Message]] by metis
  have "wheel_items wheel = {#sample_msg 0#}"
    using Insert_items[OF wheel_New_inv wheel_New_open i] wheel_New_items[where 'a = Message] by simp
  with i shutdown_drops_delayed[of "sample_world []\<lparr>x_wheel := wheel\<rparr>" "[3600]"] show ?thesis
    by (auto simp: sample_world_def sample_ring_facts)
qed

end
