(* ===== verification/Executor.thy ===== *)
theory Executor
  imports Queue_Interface
begin

text \<open>
  The worker pool: \<open>src/executor/pool.go\<close>.

  \<open>pool\<close> is the struct \<open>Pool\<close> together with what its goroutines hold: \<open>p_workCh\<close> is the
  buffer of the channel (capacity \<open>p_cap\<close>), \<open>p_workers\<close> the program counter of each worker
  goroutine, \<open>p_ran\<close> the tasks that have returned, in that order. A blocked send is
  \<open>Inr None\<close>: the caller stays where it is and the call is taken again when there is room.
  A task is any value; tasks that panic are outside the model.

  \<open>StopDispatching\<close> reads \<open>started\<close> and closes the channel in two steps; \<open>started\<close> never goes
  back to false, so the call is one step here, at the read when it returns early and at
  the close otherwise.

  \<open>pool_step\<close> interleaves the calls with the workers. The channel provides the bounded queue
  interface (\<open>chan\<close>).
\<close>

section \<open>The pool and its operations\<close>

datatype 'f worker = WIdle | WRunning 'f | WExited

record 'f pool =
  p_workCh :: "'f list"
  p_cap :: nat
  p_closed :: bool
  p_wg :: int
  p_started :: bool
  p_workers :: "'f worker list"
  p_ran :: "'f list"

definition pool_New :: "int \<Rightarrow> 'f pool" where
  "pool_New n =
     (let n = (if n < 1 then 1 else n)
      in \<lparr>p_workCh = [], p_cap = nat n, p_closed = False, p_wg = 0, p_started = False,
          p_workers = [], p_ran = []\<rparr>)"

text \<open>The loop of \<open>Start\<close>: \<open>wg.Add(1)\<close> and one goroutine per slot of the channel.\<close>

fun spawn_workers :: "nat \<Rightarrow> 'f pool \<Rightarrow> 'f pool" where
  "spawn_workers 0 p = p"
| "spawn_workers (Suc n) p =
     spawn_workers n (p\<lparr>p_wg := p_wg p + 1, p_workers := p_workers p @ [WIdle]\<rparr>)"

definition pool_Start :: "'f pool \<Rightarrow> 'f pool" where
  "pool_Start p =
     (if p_started p then p
      else spawn_workers (p_cap p) (p\<lparr>p_started := True\<rparr>))"

definition pool_Submit :: "'f pool \<Rightarrow> 'f \<Rightarrow> 'f pool option go" where
  "pool_Submit p fn =
     (if p_closed p then Inl SendOnClosedChannel
      else if length (p_workCh p) < p_cap p then Inr (Some (p\<lparr>p_workCh := p_workCh p @ [fn]\<rparr>))
      else Inr None)"

definition pool_TrySubmit :: "'f pool \<Rightarrow> 'f \<Rightarrow> (bool \<times> 'f pool) go" where
  "pool_TrySubmit p fn =
     (if p_closed p then Inl SendOnClosedChannel
      else if length (p_workCh p) < p_cap p then Inr (True, p\<lparr>p_workCh := p_workCh p @ [fn]\<rparr>)
      else Inr (False, p))"

definition pool_StopDispatching :: "'f pool \<Rightarrow> 'f pool go" where
  "pool_StopDispatching p =
     (if \<not> p_started p then Inr p
      else if p_closed p then Inl CloseOfClosedChannel
      else Inr (p\<lparr>p_closed := True\<rparr>))"

text \<open>\<open>Wait\<close> returns when the counter is zero.\<close>

definition pool_Wait :: "'f pool \<Rightarrow> bool" where
  "pool_Wait p \<longleftrightarrow> p_wg p = 0"

text \<open>
  One step of worker \<open>i\<close>: receive (the \<open>range\<close> over the channel), return from the task, or
  leave the loop when the channel is closed and empty, which runs \<open>wg.Done()\<close>. \<open>None\<close>: the
  worker is blocked in the receive, or gone.
\<close>

definition worker_step :: "'f pool \<Rightarrow> nat \<Rightarrow> 'f pool option" where
  "worker_step p i =
     (case p_workers p ! i of
        WIdle \<Rightarrow> (case p_workCh p of
            fn # rest \<Rightarrow> Some (p\<lparr>p_workCh := rest, p_workers := (p_workers p)[i := WRunning fn]\<rparr>)
          | [] \<Rightarrow> if p_closed p then Some (p\<lparr>p_wg := p_wg p - 1, p_workers := (p_workers p)[i := WExited]\<rparr>)
                  else None)
      | WRunning fn \<Rightarrow> Some (p\<lparr>p_workers := (p_workers p)[i := WIdle], p_ran := p_ran p @ [fn]\<rparr>)
      | WExited \<Rightarrow> None)"

section \<open>Runs\<close>

datatype 'f pool_event = PStart | PSubmit 'f | PTrySubmit 'f bool | PStop | PWorker nat

inductive pool_step :: "'f pool \<Rightarrow> 'f pool_event \<Rightarrow> 'f pool \<Rightarrow> bool" where
  start: "pool_step p PStart (pool_Start p)"
| submit: "pool_Submit p fn = Inr (Some p') \<Longrightarrow> pool_step p (PSubmit fn) p'"
| try_submit: "pool_TrySubmit p fn = Inr (b, p') \<Longrightarrow> pool_step p (PTrySubmit fn b) p'"
| stop: "pool_StopDispatching p = Inr p' \<Longrightarrow> pool_step p PStop p'"
| worker: "i < length (p_workers p) \<Longrightarrow> worker_step p i = Some p' \<Longrightarrow> pool_step p (PWorker i) p'"

inductive_cases pool_stepE: "pool_step p e p'"

inductive pool_run :: "'f pool \<Rightarrow> 'f pool_event list \<Rightarrow> 'f pool \<Rightarrow> bool" where
  nil: "pool_run p [] p"
| snoc: "pool_run p es q \<Longrightarrow> pool_step q e r \<Longrightarrow> pool_run p (es @ [e]) r"

text \<open>The tasks a run has accepted, in order.\<close>

fun task_accepted :: "'f pool_event \<Rightarrow> 'f list" where
  "task_accepted (PSubmit fn) = [fn]"
| "task_accepted (PTrySubmit fn b) = (if b then [fn] else [])"
| "task_accepted _ = []"

definition tasks_accepted :: "'f pool_event list \<Rightarrow> 'f list" where
  "tasks_accepted es = concat (map task_accepted es)"

fun worker_task :: "'f worker \<Rightarrow> 'f list" where
  "worker_task (WRunning fn) = [fn]"
| "worker_task _ = []"

definition running :: "'f pool \<Rightarrow> 'f list" where
  "running p = concat (map worker_task (p_workers p))"

text \<open>Every task the pool holds: waiting, running, or finished.\<close>

definition held :: "'f pool \<Rightarrow> 'f multiset" where
  "held p = mset (p_workCh p) + mset (running p) + mset (p_ran p)"

text \<open>A bound on the worker steps still possible.\<close>

fun worker_fuel :: "'f worker \<Rightarrow> nat" where
  "worker_fuel WIdle = 1"
| "worker_fuel (WRunning fn) = 2"
| "worker_fuel WExited = 0"

definition pool_fuel :: "'f pool \<Rightarrow> nat" where
  "pool_fuel p = 2 * length (p_workCh p) + sum_list (map worker_fuel (p_workers p))"

text \<open>The channel as a queue: a non-blocking send, and a receive by an idle worker.\<close>

definition chan_send :: "'f pool \<Rightarrow> 'f \<Rightarrow> bool \<times> 'f pool" where
  "chan_send p fn = (case pool_TrySubmit p fn of Inl _ \<Rightarrow> (False, p) | Inr r \<Rightarrow> r)"

definition chan_recv :: "'f pool \<Rightarrow> unit \<Rightarrow> 'f list \<times> 'f pool" where
  "chan_recv p _ = (case p_workCh p of [] \<Rightarrow> ([], p) | fn # rest \<Rightarrow> ([fn], p\<lparr>p_workCh := rest\<rparr>))"

section \<open>Invariant\<close>

fun worker_alive :: "'f worker \<Rightarrow> nat" where
  "worker_alive WExited = 0"
| "worker_alive _ = 1"

definition alive :: "'f pool \<Rightarrow> nat" where
  "alive p = sum_list (map worker_alive (p_workers p))"

definition pool_inv :: "'f pool \<Rightarrow> bool" where
  "pool_inv p \<longleftrightarrow> 1 \<le> p_cap p \<and> length (p_workCh p) \<le> p_cap p \<and> p_wg p = int (alive p) \<and>
     (if p_started p then length (p_workers p) = p_cap p else p_workers p = [] \<and> \<not> p_closed p) \<and>
     (alive p = length (p_workers p) \<or> p_closed p \<and> p_workCh p = [])"

lemma spawn_workers_eq:
  "spawn_workers n p = p\<lparr>p_wg := p_wg p + int n, p_workers := p_workers p @ replicate n WIdle\<rparr>"
  by (induction n arbitrary: p) (simp_all add: replicate_append_same)

lemma pool_Start_eq:
  "pool_Start p = (if p_started p then p else p\<lparr>p_started := True, p_wg := p_wg p + int (p_cap p),
     p_workers := p_workers p @ replicate (p_cap p) WIdle\<rparr>)"
  by (simp add: pool_Start_def spawn_workers_eq)

lemma sum_list_alive_le: "sum_list (map worker_alive ws) \<le> length ws"
proof (induction ws)
  case (Cons w ws)
  then show ?case by (cases w) simp_all
qed simp

lemma alive_le: "alive p \<le> length (p_workers p)"
  by (simp add: alive_def sum_list_alive_le)

lemma alive_idle [simp]: "sum_list (map worker_alive (replicate n WIdle)) = n"
  by (simp add: sum_list_replicate)

lemma alive_frame [frame_simps]:
  "alive (p\<lparr>p_workCh := x\<rparr>) = alive p"
  "alive (p\<lparr>p_closed := b\<rparr>) = alive p"
  by (simp_all add: alive_def)

lemma alive_spawned: "alive (p\<lparr>p_started := b, p_wg := k, p_workers := replicate n WIdle\<rparr>) = n"
  using alive_idle[of n] by (simp add: alive_def)

lemma alive_none: "p_workers p = [] \<Longrightarrow> alive p = 0"
  by (simp add: alive_def)

lemma pool_New_inv [inv_intros]: "pool_inv (pool_New n)"
  by (auto simp: pool_inv_def pool_New_def alive_def Let_def)

lemma Start_inv [inv_intros]:
  assumes "pool_inv p"
  shows "pool_inv (pool_Start p)"
proof (cases "p_started p")
  case False
  then have "p_workers p = []" "p_workCh p = p_workCh p" and wg: "p_wg p = 0" and c: "\<not> p_closed p"
    using assms alive_none[of p] by (auto simp: pool_inv_def)
  with assms False show ?thesis
    by (simp add: pool_inv_def pool_Start_eq alive_spawned)
qed (use assms in \<open>simp add: pool_Start_eq\<close>)

lemma send_inv:
  assumes "pool_inv p" and "\<not> p_closed p" and "length (p_workCh p) < p_cap p"
  shows "pool_inv (p\<lparr>p_workCh := p_workCh p @ [fn]\<rparr>)"
  using assms unfolding pool_inv_def frame_simps by simp

lemma Submit_inv [inv_intros]: "pool_inv p \<Longrightarrow> pool_Submit p fn = Inr (Some p') \<Longrightarrow> pool_inv p'"
  using send_inv[of p fn] by (simp add: pool_Submit_def split: if_split_asm)

lemma TrySubmit_inv [inv_intros]: "pool_inv p \<Longrightarrow> pool_TrySubmit p fn = Inr (b, p') \<Longrightarrow> pool_inv p'"
  using send_inv[of p fn] by (simp add: pool_TrySubmit_def split: if_split_asm)

lemma StopDispatching_inv [inv_intros]: "pool_inv p \<Longrightarrow> pool_StopDispatching p = Inr p' \<Longrightarrow> pool_inv p'"
  by (auto simp: pool_inv_def pool_StopDispatching_def frame_simps split: if_splits)

text \<open>The three things a worker may do.\<close>

lemma worker_stepE:
  assumes "worker_step p i = Some p'"
  obtains (receive) fn rest where "p_workers p ! i = WIdle" and "p_workCh p = fn # rest"
      and "p' = p\<lparr>p_workCh := rest, p_workers := (p_workers p)[i := WRunning fn]\<rparr>"
  | (exit) "p_workers p ! i = WIdle" and "p_workCh p = []" and "p_closed p"
      and "p' = p\<lparr>p_wg := p_wg p - 1, p_workers := (p_workers p)[i := WExited]\<rparr>"
  | (return) fn where "p_workers p ! i = WRunning fn"
      and "p' = p\<lparr>p_workers := (p_workers p)[i := WIdle], p_ran := p_ran p @ [fn]\<rparr>"
  using assms by (auto simp: worker_step_def split: worker.splits list.splits if_splits)

lemma worker_inv [inv_intros]:
  assumes inv: "pool_inv p" and i: "i < length (p_workers p)" and s: "worker_step p i = Some p'"
  shows "pool_inv p'"
  using s
proof (cases rule: worker_stepE)
  case (receive fn rest)
  have "alive p' = alive p"
    using sum_list_update_swap[OF i, of worker_alive "WRunning fn"] receive by (simp add: alive_def)
  moreover have "alive p = length (p_workers p)" using inv alive_le[of p] receive(2)
    by (auto simp: pool_inv_def)
  ultimately show ?thesis using inv receive by (auto simp: pool_inv_def)
next
  case exit
  have "Suc (alive p') = alive p"
    using sum_list_update_swap[OF i, of worker_alive WExited] exit by (simp add: alive_def)
  then show ?thesis using inv exit by (auto simp: pool_inv_def split: if_splits)
next
  case (return fn)
  have "alive p' = alive p"
    using sum_list_update_swap[OF i, of worker_alive WIdle] return by (simp add: alive_def)
  then show ?thesis using inv return unfolding pool_inv_def by simp
qed

lemma pool_step_inv: "pool_step p e p' \<Longrightarrow> pool_inv p \<Longrightarrow> pool_inv p'"
  by (induction rule: pool_step.induct) (auto intro: inv_intros)

lemma pool_run_inv: "pool_run p es p' \<Longrightarrow> pool_inv p \<Longrightarrow> pool_inv p'"
  by (induction rule: pool_run.induct) (auto intro: pool_step_inv)

lemma pool_step_cap: "pool_step p e p' \<Longrightarrow> p_cap p' = p_cap p"
  by (induction rule: pool_step.induct)
    (auto simp: pool_Start_eq pool_Submit_def pool_TrySubmit_def pool_StopDispatching_def
      elim: worker_stepE split: if_splits)

lemma pool_run_cap: "pool_run p es p' \<Longrightarrow> p_cap p' = p_cap p"
  by (induction rule: pool_run.induct) (auto simp: pool_step_cap)

section \<open>No task is lost or run twice\<close>

lemma worker_step_held:
  assumes i: "i < length (p_workers p)" and s: "worker_step p i = Some p'"
  shows "held p' = held p"
  using s
proof (cases rule: worker_stepE)
  case (receive fn rest)
  then show ?thesis using concat_update_swap[OF i, of worker_task "WRunning fn"]
    by (simp add: held_def running_def)
next
  case exit
  then show ?thesis using concat_update_swap[OF i, of worker_task WExited]
    by (simp add: held_def running_def)
next
  case (return fn)
  then show ?thesis using concat_update_swap[OF i, of worker_task WIdle]
    by (simp add: held_def running_def)
qed

lemma concat_idle [simp]: "concat (map worker_task (replicate n WIdle)) = []"
  by (induction n) auto

lemma pool_step_held: "pool_step p e p' \<Longrightarrow> held p' = held p + mset (task_accepted e)"
proof (induction rule: pool_step.induct)
  case (worker i p p')
  then show ?case by (simp add: worker_step_held)
qed (auto simp: held_def running_def pool_Start_eq pool_Submit_def pool_TrySubmit_def
    pool_StopDispatching_def split: if_splits)

lemma pool_run_held: "pool_run p es p' \<Longrightarrow> held p' = held p + mset (tasks_accepted es)"
  by (induction rule: pool_run.induct) (simp_all add: pool_step_held tasks_accepted_def)

lemma held_New: "held (pool_New n) = {#}"
  by (simp add: held_def pool_New_def running_def Let_def)

lemma no_worker_alive: "sum_list (map worker_alive ws) = 0 \<Longrightarrow> concat (map worker_task ws) = []"
proof (induction ws)
  case (Cons w ws)
  then show ?case by (cases w) auto
qed simp

lemma running_le: "length (concat (map worker_task ws)) \<le> length ws"
proof (induction ws)
  case (Cons w ws)
  then show ?case by (cases w) auto
qed simp

section \<open>Shutdown\<close>

lemma worker_step_fuel:
  assumes i: "i < length (p_workers p)" and s: "worker_step p i = Some p'"
  shows "pool_fuel p' < pool_fuel p"
  using s
proof (cases rule: worker_stepE)
  case (receive fn rest)
  then show ?thesis using sum_list_update_swap[OF i, of worker_fuel "WRunning fn"]
    by (simp add: pool_fuel_def)
next
  case exit
  then show ?thesis using sum_list_update_swap[OF i, of worker_fuel WExited]
    by (simp add: pool_fuel_def)
next
  case (return fn)
  then show ?thesis using sum_list_update_swap[OF i, of worker_fuel WIdle]
    by (simp add: pool_fuel_def)
qed

lemma alive_worker:
  assumes "sum_list (map worker_alive ws) \<noteq> 0"
  obtains i where "i < length ws" and "ws ! i \<noteq> WExited"
proof -
  from assms obtain w where "w \<in> set ws" "worker_alive w \<noteq> 0"
    by (auto simp: sum_list_eq_0_iff)
  then show thesis by (metis in_set_conv_nth that worker_alive.simps(1))
qed

text \<open>Once the channel is closed, no live worker is blocked.\<close>

lemma closed_not_blocked:
  assumes "p_closed p" and "p_workers p ! i \<noteq> WExited"
  shows "worker_step p i \<noteq> None"
  using assms by (auto simp: worker_step_def split: worker.splits list.splits)

inductive_cases pool_runE: "pool_run p es q"

lemma worker_run:
  assumes "pool_run p es q" and "\<forall>e\<in>set es. \<exists>i. e = PWorker i"
  shows "pool_fuel q + length es \<le> pool_fuel p \<and> p_closed q = p_closed p \<and> p_started q = p_started p"
  using assms
proof (induction rule: pool_run.induct)
  case (snoc p es q e r)
  then obtain i where "e = PWorker i" by auto
  with snoc have "i < length (p_workers q)" "worker_step q i = Some r" by (auto elim: pool_stepE)
  with snoc worker_step_fuel[OF this] show ?case
    by (auto elim!: worker_stepE)
qed simp

lemma pool_run_front: "pool_step p e q \<Longrightarrow> pool_run q es r \<Longrightarrow> pool_run p (e # es) r"
proof (rotate_tac 1, induction rule: pool_run.induct)
  case (nil q)
  then show ?case using pool_run.snoc[OF pool_run.nil, of p e q] by simp
next
  case (snoc q es q' e' r)
  then show ?case using pool_run.snoc[of p "e # es"] by simp
qed

lemma drains:
  assumes "p_closed p" and "pool_inv p"
  shows "\<exists>es q. pool_run p es q \<and> (\<forall>e\<in>set es. \<exists>i. e = PWorker i) \<and> pool_Wait q"
  using assms
proof (induction "pool_fuel p" arbitrary: p rule: less_induct)
  case less
  show ?case
  proof (cases "alive p = 0")
    case True
    with less.prems have "pool_Wait p" by (simp add: pool_Wait_def pool_inv_def)
    then show ?thesis by (intro exI[of _ "[]"] exI[of _ p]) (simp add: pool_run.nil)
  next
    case False
    then obtain i where i: "i < length (p_workers p)" "p_workers p ! i \<noteq> WExited"
      using alive_worker[of "p_workers p"] unfolding alive_def by blast
    with closed_not_blocked[OF less.prems(1)] obtain p' where s: "worker_step p i = Some p'" by auto
    have c: "p_closed p'" using s less.prems(1) by (auto elim!: worker_stepE)
    from less.hyps[OF worker_step_fuel[OF i(1) s] c worker_inv[OF less.prems(2) i(1) s]]
    obtain es q where "pool_run p' es q" "\<forall>e\<in>set es. \<exists>i. e = PWorker i" "pool_Wait q" by blast
    then show ?thesis
      using pool_run_front[OF pool_step.worker[OF i(1) s]]
      by (intro exI[of _ "PWorker i # es"] exI[of _ q]) auto
  qed
qed

section \<open>The channel is a bounded queue\<close>

interpretation chan: bounded_fifo "\<lambda>p. \<not> p_closed p \<and> length (p_workCh p) \<le> p_cap p" p_workCh
  chan_send chan_recv p_cap
  by unfold_locales (auto simp: chan_send_def chan_recv_def pool_TrySubmit_def split: list.splits)

section \<open>Properties\<close>

text \<open>C17. Every task runs exactly once: in any interleaving of calls and workers, when \<open>Wait\<close> has
  returned on a started pool, the tasks that have run are the accepted ones (by \<open>Submit\<close>, or
  by a \<open>TrySubmit\<close> that returned true), each as often as it was accepted, and the channel has
  been closed.\<close>

theorem pool_exactly_once:
  assumes "pool_run (pool_New n) es p" and "p_started p" and "pool_Wait p"
  shows "mset (p_ran p) = mset (tasks_accepted es) \<and> p_closed p \<and> p_workCh p = []"
proof -
  have inv: "pool_inv p" using pool_run_inv[OF assms(1) pool_New_inv] .
  then have a: "alive p = 0" using assms(3) by (simp add: pool_inv_def pool_Wait_def)
  then have ch: "p_closed p" "p_workCh p = []" using inv assms(2) by (auto simp: pool_inv_def)
  have "running p = []" using a no_worker_alive by (simp add: running_def alive_def)
  with pool_run_held[OF assms(1)] held_New[where 'a = 'a] ch show ?thesis
    by (simp add: held_def)
qed

theorem pool_exactly_once_witness:
  "\<exists>p. pool_run (pool_New 0) [PStart, PSubmit (1::nat), PWorker 0, PTrySubmit 2 True, PTrySubmit 3 False,
      PWorker 0, PStop, PWorker 0, PWorker 0, PWorker 0] p \<and> mset (p_ran p) = {#1, 2#}"
proof -
  define p :: "nat pool" where "p = \<lparr>p_workCh = [], p_cap = 1, p_closed = True, p_wg = 0, p_started = True,
    p_workers = [WExited], p_ran = [1, 2]\<rparr>"
  have "pool_run (pool_New 0) [PStart, PSubmit (1::nat), PWorker 0, PTrySubmit 2 True, PTrySubmit 3 False,
      PWorker 0, PStop, PWorker 0, PWorker 0, PWorker 0] p"
    unfolding p_def
    by (rule pool_run_front[OF pool_step.start],
        (rule pool_run_front, rule pool_step.intros, (simp add: pool_New_def pool_Start_eq pool_Submit_def
          pool_TrySubmit_def pool_StopDispatching_def worker_step_def; fail)+)+)
      (simp add: pool_run.nil)
  with pool_exactly_once[OF this] show ?thesis
    by (auto simp: p_def pool_Wait_def tasks_accepted_def)
qed

text \<open>C40. A stopped pool drains: from every reachable state with a closed channel the workers alone
  can bring \<open>Wait\<close> to return; they can take at most \<open>pool_fuel\<close> more steps, and wherever they
  are, either \<open>Wait\<close> returns or some worker can go on.\<close>

theorem stopped_pool_drains:
  assumes "pool_run (pool_New n) es p" and "p_closed p"
  shows "(\<exists>ws q. pool_run p ws q \<and> (\<forall>e\<in>set ws. \<exists>i. e = PWorker i) \<and> pool_Wait q) \<and>
    (\<forall>ws q. pool_run p ws q \<longrightarrow> (\<forall>e\<in>set ws. \<exists>i. e = PWorker i) \<longrightarrow>
       length ws \<le> pool_fuel p \<and> (pool_Wait q \<or> (\<exists>i q'. pool_step q (PWorker i) q')))"
proof -
  have inv: "pool_inv p" using pool_run_inv[OF assms(1) pool_New_inv] .
  have "length ws \<le> pool_fuel p \<and> (pool_Wait q \<or> (\<exists>i q'. pool_step q (PWorker i) q'))"
    if run: "pool_run p ws q" and w: "\<forall>e\<in>set ws. \<exists>i. e = PWorker i" for ws q
  proof -
    have c: "p_closed q" and l: "length ws \<le> pool_fuel p" using worker_run[OF run w] assms(2) by auto
    show ?thesis
    proof (cases "pool_Wait q")
      case False
      then have "sum_list (map worker_alive (p_workers q)) \<noteq> 0"
        using pool_run_inv[OF run inv] by (auto simp: pool_inv_def pool_Wait_def alive_def)
      then obtain i where i: "i < length (p_workers q)" "p_workers q ! i \<noteq> WExited"
        by (rule alive_worker)
      then obtain q' where "worker_step q i = Some q'" using closed_not_blocked[OF c] by auto
      with i l show ?thesis using pool_step.worker by blast
    qed (use l in simp)
  qed
  with drains[OF assms(2) inv] show ?thesis by blast
qed

theorem stopped_pool_drains_witness:
  "\<exists>ws q. pool_run ((pool_Start (pool_New 3))\<lparr>p_closed := True\<rparr> :: nat pool) ws q \<and>
     (\<forall>e\<in>set ws. \<exists>i. e = PWorker i) \<and> pool_Wait q"
proof -
  let ?p = "(pool_Start (pool_New 3))\<lparr>p_closed := True\<rparr> :: nat pool"
  have "pool_run (pool_New 3) (([] @ [PStart]) @ [PStop]) ?p"
    by (rule pool_run.snoc pool_run.nil pool_step.start pool_step.stop)+
      (simp add: pool_StopDispatching_def pool_Start_eq pool_New_def)
  from stopped_pool_drains[OF this] show ?thesis by simp
qed

text \<open>The pool never runs more tasks at once than its size (at least one), and never queues
  more than that.\<close>

theorem pool_concurrency_bound:
  assumes "pool_run (pool_New n) es p"
  shows "length (running p) \<le> nat (max 1 n) \<and> length (p_workCh p) \<le> nat (max 1 n)"
proof -
  have inv: "pool_inv p" using pool_run_inv[OF assms pool_New_inv] .
  have "p_cap p = nat (max 1 n)" using pool_run_cap[OF assms] by (simp add: pool_New_def Let_def)
  moreover have "length (p_workers p) \<le> p_cap p" using inv by (auto simp: pool_inv_def split: if_splits)
  ultimately show ?thesis using inv running_le[of "p_workers p"]
    by (simp add: pool_inv_def running_def)
qed

theorem pool_concurrency_bound_witness:
  "length (running (pool_Start (pool_New (-5)) :: nat pool)) \<le> 1"
proof -
  have "pool_run (pool_New (-5)) ([] @ [PStart]) (pool_Start (pool_New (-5)) :: nat pool)"
    by (rule pool_run.snoc pool_run.nil pool_step.start)+
  from pool_concurrency_bound[OF this] show ?thesis by simp
qed

text \<open>Workers are handed the tasks in the order they were accepted: from a new pool, any
  sequence of sends and receives on the channel delivers a prefix of the accepted tasks, and
  at most the pool size of them are waiting.\<close>

theorem pool_channel_fifo:
  fixes acc :: "'f list"
  assumes "run_queue chan_send chan_recv (pool_New n) ops = (acc, out, p)"
  shows "out = take (length out) acc \<and> length acc \<le> length out + nat (max 1 n)"
proof -
  have "\<not> p_closed (pool_New n :: 'f pool) \<and> length (p_workCh (pool_New n :: 'f pool)) \<le> p_cap (pool_New n :: 'f pool)"
    and "p_workCh (pool_New n :: 'f pool) = []" and "p_cap (pool_New n :: 'f pool) = nat (max 1 n)"
    by (simp_all add: pool_New_def Let_def)
  from chan.run_prefix[OF this(1,2) assms] chan.run_backlog[OF this(1,2) assms] this(3)
  show ?thesis by simp
qed

theorem pool_channel_fifo_witness:
  "let (acc, out, p) = run_queue chan_send chan_recv (pool_New 2) [Put 1, Put (2::nat), Put 3, Take ()]
   in acc = [1, 2] \<and> out = take (length out) acc"
proof -
  obtain acc out p where r: "run_queue chan_send chan_recv (pool_New 2) [Put 1, Put (2::nat), Put 3, Take ()] = (acc, out, p)"
    by (metis prod_cases3)
  then have "acc = [1, 2]" by (auto simp: chan_send_def chan_recv_def pool_TrySubmit_def pool_New_def)
  with pool_channel_fifo[OF r] r show ?thesis by simp
qed

end
