(* ===== verification/Pipeline.thy ===== *)
theory Pipeline
  imports Dispatch Executor "HOL-Library.AList"
begin

text \<open>
  The builder of the pipeline and the start of \<open>Run\<close>: \<open>src/ringq/ringq.go\<close>.

  \<open>Pipeline\<close> is the struct of the same name; its handlers are an association list with one
  entry per topic. Each builder method is one critical section that sets one field.
  \<open>Run_start\<close> is \<open>Run\<close> up to the goroutines: the validation, and the ring, pool, filter and
  wheel it creates.
\<close>

section \<open>The builder\<close>

record ('t, 's, 'h) Pipeline =
  pl_transport :: "'t Transport option"
  pl_handlers :: "(string \<times> 'h handlerEntry) list"
  pl_hooks :: Hooks
  pl_idemConf :: "'s IdempotencyConfig option"
  pl_config :: Config

definition pipeline_New :: "('t, 's, 'h) Pipeline" where
  "pipeline_New = \<lparr>pl_transport = None, pl_handlers = [], pl_hooks = no_hooks, pl_idemConf = None,
     pl_config = \<lparr>cfg_Concurrency = 10, cfg_BufferSize = 1024\<rparr>\<rparr>"

definition pipeline_Transport :: "'t Transport option \<Rightarrow> ('t, 's, 'h) Pipeline \<Rightarrow> ('t, 's, 'h) Pipeline" where
  "pipeline_Transport t p = p\<lparr>pl_transport := t\<rparr>"

definition HandleWithRetry :: "string \<Rightarrow> 'h DispatchFunc \<Rightarrow> int \<Rightarrow> duration
    \<Rightarrow> ('h \<Rightarrow> Message \<Rightarrow> Result \<Rightarrow> RetryOutcome \<times> 'h) option
    \<Rightarrow> ('t, 's, 'h) Pipeline \<Rightarrow> ('t, 's, 'h) Pipeline" where
  "HandleWithRetry topic fn maxRetries baseDelay coordinator p =
     p\<lparr>pl_handlers := AList.update topic \<lparr>e_fn = fn, e_maxRetries = maxRetries, e_baseDelay = baseDelay,
         e_coordinator = coordinator\<rparr> (pl_handlers p)\<rparr>"

definition pipeline_Handle :: "string \<Rightarrow> 'h DispatchFunc \<Rightarrow> ('t, 's, 'h) Pipeline \<Rightarrow> ('t, 's, 'h) Pipeline" where
  "pipeline_Handle topic fn p = HandleWithRetry topic fn 10 (1 * Second) None p"

definition pipeline_Idempotency :: "'s IdempotencyConfig \<Rightarrow> ('t, 's, 'h) Pipeline \<Rightarrow> ('t, 's, 'h) Pipeline" where
  "pipeline_Idempotency cfg p = p\<lparr>pl_idemConf := Some cfg\<rparr>"

definition WithHooks :: "Hooks \<Rightarrow> ('t, 's, 'h) Pipeline \<Rightarrow> ('t, 's, 'h) Pipeline" where
  "WithHooks h p = p\<lparr>pl_hooks := h\<rparr>"

definition pipeline_Concurrency :: "goint \<Rightarrow> ('t, 's, 'h) Pipeline \<Rightarrow> ('t, 's, 'h) Pipeline" where
  "pipeline_Concurrency n p = p\<lparr>pl_config := (pl_config p)\<lparr>cfg_Concurrency := n\<rparr>\<rparr>"

definition pipeline_BufferSize :: "goint \<Rightarrow> ('t, 's, 'h) Pipeline \<Rightarrow> ('t, 's, 'h) Pipeline" where
  "pipeline_BufferSize n p = p\<lparr>pl_config := (pl_config p)\<lparr>cfg_BufferSize := n\<rparr>\<rparr>"

section \<open>The start of \<open>Run\<close>\<close>

text \<open>
  What \<open>Run\<close> creates: the runtime, the world its goroutines share and the started pool.
  \<open>t\<close>, \<open>s\<close> and \<open>h\<close> are the states of the transport, of the idempotency store and of the user code.
\<close>

definition Run_start :: "(int \<Rightarrow> int) \<Rightarrow> ('t, 's, 'h) Pipeline \<Rightarrow> 't \<Rightarrow> 's \<Rightarrow> 'h
    \<Rightarrow> (go_error + (('t, 's, 'h) runtime \<times> ('t, 's, 'h) world \<times> 'h task pool)) go" where
  "Run_start conv p t s h =
     (case pl_transport p of
        None \<Rightarrow> Inr (Inl ErrNoTransport)
      | Some transport \<Rightarrow>
          if pl_handlers p = [] then Inr (Inl ErrNoHandlers)
          else (case ring_New (cfg_BufferSize (pl_config p)) Block of
                  Inl panic \<Rightarrow> Inl panic
                | Inr ringBuf \<Rightarrow>
                    (let pool = pool_Start (pool_New (sint (cfg_Concurrency (pl_config p))));
                         idem = (case pl_idemConf p of
                                   None \<Rightarrow> None
                                 | Some conf \<Rightarrow> Some (newIdemFilter conf (h_OnDuplicate (pl_hooks p))))
                     in Inr (Inr (\<lparr>rt_handlers = map_of (pl_handlers p), rt_transport = transport,
                                   rt_hooks = pl_hooks p, rt_idemFilter = idem, rt_conv = conv\<rparr>,
                                 \<lparr>x_ring = ringBuf, x_transport = t, x_store = s, x_wheel = wheel_New,
                                   x_user = h, x_events = []\<rparr>,
                                 pool)))))"

text \<open>The entry \<open>Handle\<close> registers.\<close>

definition default_entry :: "'h DispatchFunc \<Rightarrow> 'h handlerEntry" where
  "default_entry fn = \<lparr>e_fn = fn, e_maxRetries = 10, e_baseDelay = 1 * Second, e_coordinator = None\<rparr>"

text \<open>The topics registered by a sequence of \<open>Handle\<close> calls, the last one winning.\<close>

fun handle_all :: "(string \<times> 'h DispatchFunc) list \<Rightarrow> ('t, 's, 'h) Pipeline \<Rightarrow> ('t, 's, 'h) Pipeline" where
  "handle_all [] p = p"
| "handle_all ((topic, fn) # hs) p = handle_all hs (pipeline_Handle topic fn p)"

section \<open>Properties\<close>

lemma handle_all_handlers:
  "map_of (pl_handlers (handle_all hs p)) =
    map_of (pl_handlers p) ++ map_of (map (\<lambda>(topic, fn). (topic, default_entry fn)) (rev hs))"
proof (induction hs arbitrary: p)
  case (Cons x hs)
  obtain topic fn where x: "x = (topic, fn)" by (cases x)
  show ?case
    by (simp add: x Cons.IH pipeline_Handle_def HandleWithRetry_def default_entry_def[symmetric, simplified] update_conv' map_add_upds fun_eq_iff map_add_def
        split: option.split)
qed simp

lemma handle_all_frame:
  "pl_transport (handle_all hs p) = pl_transport p" "pl_hooks (handle_all hs p) = pl_hooks p"
  "pl_idemConf (handle_all hs p) = pl_idemConf p" "pl_config (handle_all hs p) = pl_config p"
  by (induction hs p rule: handle_all.induct) (auto simp: pipeline_Handle_def HandleWithRetry_def)

lemma update_nonempty: "AList.update k v al \<noteq> []"
  by (cases al) auto

lemma handlers_nonempty: "hs \<noteq> [] \<or> pl_handlers p \<noteq> [] \<Longrightarrow> pl_handlers (handle_all hs p) \<noteq> []"
  by (induction hs p rule: handle_all.induct)
    (auto simp: pipeline_Handle_def HandleWithRetry_def update_nonempty)

lemma started_pool: "p_started (pool_Start (pool_New n))"
  "p_workers (pool_Start (pool_New n)) = replicate (nat (max 1 n)) WIdle"
  by (simp_all add: pool_Start_eq pool_New_def Let_def max_def)

text \<open>\<open>Run\<close> starts if and only if it can: without a transport it returns \<open>ErrNoTransport\<close>,
  without a handler \<open>ErrNoHandlers\<close>, and otherwise, for a buffer size up to \<open>2^32\<close>, it does not
  panic and starts from an empty open ring of policy \<open>Block\<close> with room for at least
  \<open>BufferSize\<close> messages, an empty wheel and a running pool of \<open>max 1 Concurrency\<close> idle workers;
  each topic is served by the last handler registered for it, with ten retries from a
  one-second base delay.\<close>

theorem run_starts:
  assumes "sint (cfg_BufferSize (pl_config p)) \<le> 2 ^ 32"
  shows "Run_start conv (pipeline_Transport None p) t s h = Inr (Inl ErrNoTransport) \<and>
    (pl_handlers p = [] \<longrightarrow> Run_start conv (pipeline_Transport (Some T) p) t s h = Inr (Inl ErrNoHandlers)) \<and>
    (hs \<noteq> [] \<longrightarrow> (\<exists>r w pool. Run_start conv (handle_all hs (pipeline_Transport (Some T) p)) t s h = Inr (Inr (r, w, pool)) \<and>
       open_world w \<and> contents (x_ring w) = [] \<and> wheel_items (x_wheel w) = {#} \<and>
       sint (cfg_BufferSize (pl_config p)) \<le> int (ring_cap (x_ring w)) \<and>
       p_started pool \<and> p_workers pool = replicate (nat (max 1 (sint (cfg_Concurrency (pl_config p))))) WIdle \<and>
       (\<forall>topic fn. map_of (rev hs) topic = Some fn \<longrightarrow>
          rt_handlers r topic = Some (default_entry fn))))"
proof (intro conjI impI)
  assume hs: "hs \<noteq> []"
  let ?p = "handle_all hs (pipeline_Transport (Some T) p)"
  obtain b :: "Message buffer" where b: "ring_New (cfg_BufferSize (pl_config p)) Block = Inr b" "ring_inv b"
    "contents b = []" "sint (cfg_BufferSize (pl_config p)) \<le> int (ring_cap b)" "b_policy b = Block" "\<not> b_closed b"
    using ring_New_ok[OF assms] by metis
  have top: "map_of (pl_handlers ?p) topic = Some (default_entry fn)"
    if "map_of (rev hs) topic = Some fn" for topic fn
    using that by (simp add: handle_all_handlers map_add_def map_of_map[of default_entry])
  have cfg: "pl_config ?p = pl_config p" "pl_transport ?p = Some T"
    by (simp_all add: handle_all_frame pipeline_Transport_def)
  show "\<exists>r w pool. Run_start conv ?p t s h = Inr (Inr (r, w, pool)) \<and>
       open_world w \<and> contents (x_ring w) = [] \<and> wheel_items (x_wheel w) = {#} \<and>
       sint (cfg_BufferSize (pl_config p)) \<le> int (ring_cap (x_ring w)) \<and>
       p_started pool \<and> p_workers pool = replicate (nat (max 1 (sint (cfg_Concurrency (pl_config p))))) WIdle \<and>
       (\<forall>topic fn. map_of (rev hs) topic = Some fn \<longrightarrow>
          rt_handlers r topic = Some (default_entry fn))"
    using handlers_nonempty[of hs "pipeline_Transport (Some T) p"] hs b top
      wheel_New_inv[where 'a = Message] wheel_New_open[where 'a = Message] wheel_New_items[where 'a = Message]
    by (simp add: Run_start_def cfg Let_def open_world_def started_pool)
qed (simp_all add: Run_start_def pipeline_Transport_def)

theorem run_starts_witness:
  "\<exists>r w pool. Run_start (\<lambda>_. 0) (handle_all [(''t'', \<lambda>h raw. (ask_retry, h))]
       (pipeline_Transport (Some MemoryTransport) (pipeline_New :: (mem, MemoryStore, unit) Pipeline)))
       mem_New NewMemoryStore () = Inr (Inr (r, w, pool)) \<and>
     1024 \<le> int (ring_cap (x_ring w)) \<and> length (p_workers pool) = 10"
proof -
  let ?p = "pipeline_New :: (mem, MemoryStore, unit) Pipeline"
  have "cfg_BufferSize (pl_config ?p) = 1024" "cfg_Concurrency (pl_config ?p) = 10" by (simp_all add: pipeline_New_def)
  with run_starts[of ?p "\<lambda>_. 0" mem_New NewMemoryStore "()" MemoryTransport "[(''t'', \<lambda>h raw. (ask_retry, h))]"]
  show ?thesis by fastforce
qed

end
