(* ===== verification/Call_Log.thy ===== *)
theory Call_Log
  imports Pipeline
begin

text \<open>
  The calls a piece of the pipeline makes on its transport. The code runs on a recording copy of the
  transport (\<open>watched\<close>, \<open>watch\<close>), which changes nothing of what it does (\<open>watched_dispatch\<close>,
  \<open>watched_task\<close>); \<open>dispatch_calls\<close> and \<open>task_calls\<close> are the calls recorded. What is settled is read off
  these calls (\<open>call_ids\<close>), and \<open>leaves\<close> says which messages the pipeline leaves with the broker
  without settling them: those whose dead-letter send failed or whose outcome has an unknown action.
\<close>

section \<open>Recording\<close>

definition watched :: "('t, 's, 'h) runtime \<Rightarrow> ('t \<times> t_call list, 's, 'h) runtime" where
  "watched r = \<lparr>rt_handlers = rt_handlers r, rt_transport = logged (rt_transport r), rt_hooks = rt_hooks r,
     rt_idemFilter = rt_idemFilter r, rt_conv = rt_conv r\<rparr>"

definition watch :: "('t, 's, 'h) world \<Rightarrow> ('t \<times> t_call list, 's, 'h) world" where
  "watch w = \<lparr>x_ring = x_ring w, x_transport = (x_transport w, []), x_store = x_store w, x_wheel = x_wheel w,
     x_user = x_user w, x_events = x_events w\<rparr>"

definition unwatch :: "('t \<times> t_call list, 's, 'h) world \<Rightarrow> ('t, 's, 'h) world" where
  "unwatch w = \<lparr>x_ring = x_ring w, x_transport = fst (x_transport w), x_store = x_store w, x_wheel = x_wheel w,
     x_user = x_user w, x_events = x_events w\<rparr>"

fun made_calls :: "('a \<times> ('t \<times> t_call list, 's, 'h) world) go \<Rightarrow> t_call list" where
  "made_calls (Inl _) = []"
| "made_calls (Inr (_, w)) = calls w"

definition dispatch_calls :: "('t, 's, 'h) runtime \<Rightarrow> (nat \<Rightarrow> gotime) \<Rightarrow> Message iface list \<Rightarrow> ('t, 's, 'h) world \<Rightarrow> t_call list" where
  "dispatch_calls r now batch w = made_calls (dispatchBatch (watched r) now batch (watch w))"

definition task_calls :: "('t, 's, 'h) runtime \<Rightarrow> gotime \<Rightarrow> 'h task \<Rightarrow> ('t, 's, 'h) world \<Rightarrow> t_call list" where
  "task_calls r now task w = made_calls (run_task (watched r) now task (watch w))"

section \<open>What is settled\<close>

fun task_msg :: "'h task \<Rightarrow> Message" where
  "task_msg (Process msg entry) = msg"
| "task_msg (Unknown msg) = msg"

abbreviation ids :: "Message list \<Rightarrow> string multiset" where
  "ids msgs \<equiv> mset (map m_ID msgs)"

text \<open>The identifiers of the messages acknowledged or handed back.\<close>

fun call_ids :: "t_call list \<Rightarrow> string multiset" where
  "call_ids [] = {#}"
| "call_ids (CAck ms # cs) = ids ms + call_ids cs"
| "call_ids (CNack m d # cs) = add_mset (m_ID m) (call_ids cs)"
| "call_ids (_ # cs) = call_ids cs"

text \<open>The fate of a task, from the outcome of its handler and the answer of the dead-letter queue.\<close>

fun task_fate :: "('t, 's, 'h) runtime \<Rightarrow> ('t, 's, 'h) world \<Rightarrow> 'h task \<Rightarrow> fate" where
  "task_fate r w (Process msg entry) =
     fate_of (rt_transport r) (x_transport w) (x_ring w) (outcome_of r (x_user w) msg entry)"
| "task_fate r w (Unknown msg) = dlq_fate (rt_transport r) (x_transport w) msg"

text \<open>The message the calls of a task are about.\<close>

fun task_out :: "('t, 's, 'h) runtime \<Rightarrow> ('t, 's, 'h) world \<Rightarrow> 'h task \<Rightarrow> Message" where
  "task_out r w (Process msg entry) = o_Message (outcome_of r (x_user w) msg entry)"
| "task_out r w (Unknown msg) = msg"

text \<open>The identifier a task leaves with the broker.\<close>

definition leaves :: "('t, 's, 'h) runtime \<Rightarrow> ('t, 's, 'h) world \<Rightarrow> 'h task \<Rightarrow> string multiset" where
  "leaves r w task = (if task_fate r w task \<in> {DLQFailed, Ignored} then {#m_ID (task_msg task)#} else {#})"

section \<open>Recording changes nothing\<close>

named_theorems watch_simps

lemma watched_sel [watch_simps]:
  "rt_handlers (watched r) = rt_handlers r" "rt_transport (watched r) = logged (rt_transport r)" "rt_hooks (watched r) = rt_hooks r"
  "rt_idemFilter (watched r) = rt_idemFilter r" "rt_conv (watched r) = rt_conv r"
  by (simp_all add: watched_def)

lemma watch_sel [watch_simps]:
  "x_ring (watch w) = x_ring w" "x_transport (watch w) = (x_transport w, [])" "x_store (watch w) = x_store w"
  "x_wheel (watch w) = x_wheel w" "x_user (watch w) = x_user w" "x_events (watch w) = x_events w"
  by (simp_all add: watch_def)

lemma unwatch_sel [watch_simps]:
  "x_ring (unwatch w) = x_ring w" "x_transport (unwatch w) = fst (x_transport w)" "x_store (unwatch w) = x_store w"
  "x_wheel (unwatch w) = x_wheel w" "x_user (unwatch w) = x_user w" "x_events (unwatch w) = x_events w"
  by (simp_all add: unwatch_def)

lemma unwatch_watch [watch_simps]: "unwatch (watch w) = w"
  by (simp add: unwatch_def watch_def)

lemma unwatch_update [watch_simps]:
  "unwatch (w\<lparr>x_ring := b\<rparr>) = (unwatch w)\<lparr>x_ring := b\<rparr>" "unwatch (w\<lparr>x_store := s\<rparr>) = (unwatch w)\<lparr>x_store := s\<rparr>"
  "unwatch (w\<lparr>x_user := h\<rparr>) = (unwatch w)\<lparr>x_user := h\<rparr>" "unwatch (log_events evs w) = log_events evs (unwatch w)"
  by (simp_all add: unwatch_def log_events_def)

lemma watched_call [watch_simps]:
  "fst (call_transport (recorded c f) w) = fst (f (fst (x_transport w)))"
  "unwatch (snd (call_transport (recorded c f) w)) = snd (call_transport f (unwatch w))"
  by (simp_all add: call_transport_def recorded_def unwatch_def split_def Let_def)

abbreviation forget :: "('a \<times> ('t \<times> t_call list, 's, 'h) world) go \<Rightarrow> ('a \<times> ('t, 's, 'h) world) go" where
  "forget \<equiv> map_sum id (map_prod id unwatch)"

lemma watched_enqueue: "map_prod id unwatch (enqueue_msg m w) = enqueue_msg m (unwatch w)"
  by (simp add: enqueue_msg_def split_def Let_def watch_simps)

lemma watched_Ack: "forget (settle_Ack (watched r) now msg out w) = settle_Ack r now msg out (unwatch w)"
  by (simp add: settle_Ack_def split_def Let_def watch_simps frame_simps recorded_fst split: option.split sum.split)

lemma watched_DLQ: "unwatch (settle_DLQ (watched r) topic msg err w) = settle_DLQ r topic msg err (unwatch w)"
  by (simp add: settle_DLQ_def split_def Let_def watch_simps frame_simps recorded_fst split: option.split)

lemma watched_switch: "forget (process_switch (watched r) now msg out w) = process_switch r now msg out (unwatch w)"
  by (cases "o_Action out")
    (simp_all add: process_switch_def watched_Ack watched_DLQ settle_Retry_def settle_RetryWithDelay_def watched_enqueue watch_simps frame_simps)

lemma watched_outcome [watch_simps]:
  "resolveOutcome (watched r) = resolveOutcome r" "outcome_of (watched r) = outcome_of r" "task_of (watched r) = task_of r"
  by (auto simp: fun_eq_iff resolveOutcome_def outcome_of_def task_of_def watch_simps split: option.split)

lemma watched_process: "forget (processMessage (watched r) now msg entry w) = processMessage r now msg entry (unwatch w)"
  by (simp add: processMessage_def split_def Let_def watched_switch watch_simps frame_simps)

text \<open>Running a task on the recording copy does what the task does.\<close>

lemma watched_task: "forget (run_task (watched r) now task w) = run_task r now task (unwatch w)"
  by (cases task) (simp_all add: watched_process handleUnknownTopic_def watched_DLQ)

lemma watched_ack_each: "unwatch (ack_each (watched r) dups w) = ack_each r dups (unwatch w)"
  by (induction dups arbitrary: w) (simp_all add: watch_simps frame_simps)

text \<open>So does dispatching a batch.\<close>

lemma watched_dispatch: "forget (dispatchBatch (watched r) now batch w) = dispatchBatch r now batch (unwatch w)"
  by (simp add: dispatchBatch_def Let_def watch_simps watched_ack_each split_def split: option.split sum.split)

lemma watched_task_run:
  assumes "run_task r now task w = Inr (res, w')"
  obtains w1 where "run_task (watched r) now task (watch w) = Inr (res, w1)" and "unwatch w1 = w'"
    and "task_calls r now task w = calls w1"
proof -
  have "forget (run_task (watched r) now task (watch w)) = Inr (res, w')"
    using assms by (simp add: watched_task watch_simps)
  then show thesis using that by (cases "run_task (watched r) now task (watch w)") (auto simp: task_calls_def)
qed

lemma watched_dispatch_run:
  assumes "dispatchBatch r now batch w = Inr (tasks, w')"
  obtains w1 where "dispatchBatch (watched r) now batch (watch w) = Inr (tasks, w1)" and "unwatch w1 = w'"
    and "dispatch_calls r now batch w = calls w1"
proof -
  have "forget (dispatchBatch (watched r) now batch (watch w)) = Inr (tasks, w')"
    using assms by (simp add: watched_dispatch watch_simps)
  then show thesis using that by (cases "dispatchBatch (watched r) now batch (watch w)") (auto simp: dispatch_calls_def)
qed

section \<open>What the calls settle\<close>

lemma call_ids_append [simp]: "call_ids (cs @ ds) = call_ids cs + call_ids ds"
  by (induction cs rule: call_ids.induct) (simp_all add: ac_simps)

lemma call_ids_acks: "call_ids (map (\<lambda>m. CAck [m]) ms) = ids ms"
  by (induction ms) simp_all

text \<open>A task's fate decides its calls, what it queues, and whether it parks.\<close>

lemma task_settled:
  assumes "run_task r now task w = Inr (res, w')" and "ring_inv (x_ring w)" and "b_policy (x_ring w) = Block"
  shows "task_calls r now task w = fate_calls (task_out r w task) (task_fate r w task)"
    and "contents (x_ring w') = contents (x_ring w) @ fate_queue (task_out r w task) (task_fate r w task)"
    and "parked (x_ring w') = parked (x_ring w) + mset (fate_waiting (task_out r w task) (task_fate r w task))"
    and "res = Finished \<longleftrightarrow> task_fate r w task \<noteq> Parked"
proof -
  obtain w1 where w1: "run_task (watched r) now task (watch w) = Inr (res, w1)" "unwatch w1 = w'" "task_calls r now task w = calls w1"
    by (rule watched_task_run[OF assms(1)])
  have "settled (task_out r w task) (task_fate r w task) (watch w) res w1"
  proof (cases task)
    case (Process msg entry)
    with processMessage_fate[of "watched r" "rt_transport r" "watch w" now msg entry res w1] w1(1) assms(2,3)
    show ?thesis by (simp add: watch_simps)
  next
    case (Unknown msg)
    with settle_DLQ_fate[of "watched r" "rt_transport r" "watch w" msg] w1(1) assms(2)
    show ?thesis by (auto simp: watch_simps handleUnknownTopic_def simp del: dlq_fate.simps)
  qed
  moreover have "x_ring w1 = x_ring w'" using w1(2) by (auto simp: watch_simps)
  ultimately show "task_calls r now task w = fate_calls (task_out r w task) (task_fate r w task)"
    "contents (x_ring w') = contents (x_ring w) @ fate_queue (task_out r w task) (task_fate r w task)"
    "parked (x_ring w') = parked (x_ring w) + mset (fate_waiting (task_out r w task) (task_fate r w task))"
    "res = Finished \<longleftrightarrow> task_fate r w task \<noteq> Parked"
    using w1(3) by (simp_all add: settled_def watch_simps)
qed

lemma fate_call_ids:
  "call_ids (fate_calls m fate) =
    (case fate of Acked \<Rightarrow> {#m_ID m#} | Nacked d \<Rightarrow> {#m_ID m#} | DeadLettered \<Rightarrow> {#m_ID m#} | _ \<Rightarrow> {#})"
  by (cases fate) simp_all

lemma unfiltered_calls: "rt_idemFilter r = None \<Longrightarrow> dispatch_calls r now batch w = []"
  by (simp add: dispatch_calls_def dispatchBatch_def watch_simps)

lemma task_one_way:
  assumes "run_task r now task w = Inr (res, w')" and "ring_inv (x_ring w)" and "b_policy (x_ring w) = Block"
  shows "leaves r w task = {#} \<or> call_ids (task_calls r now task w) = {#}"
  using task_settled(1)[OF assms] by (auto simp: leaves_def)

lemma parked_calls:
  assumes "run_task r now task w = Inr (Blocked m, w')" and "ring_inv (x_ring w)" and "b_policy (x_ring w) = Block"
  shows "task_calls r now task w = []"
proof -
  have "task_fate r w task = Parked" using task_settled(4)[OF assms] by simp
  then show ?thesis using task_settled(1)[OF assms] by simp
qed

end
