(* ===== verification/System.thy ===== *)
theory System
  imports Call_Log
begin

text \<open>
  \<open>Run\<close> of \<open>src/ringq/ringq.go\<close> as a transition system: the poller, the ticker goroutine of the
  wheel, \<open>runTimer\<close>, \<open>runDispatcher\<close>, the workers of the pool and the main goroutine with its
  shutdown sequence, interleaved step by step.

  \<open>sys\<close> holds the shared \<open>world\<close>, the pool, the \<open>WaitGroup\<close> of the batch being dispatched and
  the program counter of each goroutine. A step is one operation on a shared component, as
  the component theories define it (\<open>poll_one\<close>, \<open>timer_batch\<close>'s \<open>enqueue_msg\<close>, \<open>DequeueBatch\<close>,
  \<open>dispatchBatch\<close>, \<open>pool_Submit\<close>, \<open>worker_step\<close>, \<open>run_task\<close>, \<open>Start_step\<close>, \<open>ring_Close\<close>, ...).
  The processing of one message is one step up to the point where it blocks in
  \<open>Enqueue\<close>. What the transport delivers, and when its \<open>Subscribe\<close> returns, is up to the
  environment. A transport calls the poller's consumer from one goroutine, or from several at
  once (Google Pub/Sub): \<open>z_polls\<close> has one program counter for each, and \<open>Subscribe\<close> returns when
  no call is running.

  Ghost fields, which no guard reads, record the identifiers received, the calls made on the
  transport (as a recording copy of it sees them, \<open>Call_Log\<close>), the identifiers left with the broker
  because a dead-letter send failed or an action is unknown, and those lost from the timer. What
  is settled is read off the calls.
\<close>

section \<open>Goroutines\<close>

text \<open>A job of the pool: a task to run, or a task parked in \<open>Enqueue\<close> with a message.\<close>

datatype 'h job = Job "'h task" | JParked Message

text \<open>
  The calls of the poller's consumer and the timer feed the ring: waiting for a batch, working
  through one, parked in \<open>Enqueue\<close>, or returned.
\<close>

datatype feed_pc = FIdle | FRunning "Message list" | FParked Message "Message list" | FReturned

text \<open>
  The dispatcher: at its \<open>select\<close>, before the \<open>DequeueBatch(10)\<close>, after an empty one, in the
  drain loop, submitting, waiting for the batch (the flag says whether it is in the drain
  loop), or returned.
\<close>

datatype 'h disp_pc = DTop | DDeq | DEmpty | DDrain | DSubmit bool "'h task list" | DWait bool | DReturned

text \<open>The main goroutine of \<open>Run\<close>: its \<open>select\<close>, then the waits of the shutdown in order.\<close>

datatype main_pc = MSelect | MWaitDisp | MWaitTimer | MWaitPoller | MWaitPool | MReturned

record ('t, 's, 'h) sys =
  z_world :: "('t, 's, 'h) world"
  z_pool :: "'h job pool"
  z_wg :: int
  z_disp :: "'h disp_pc"
  z_polls :: "feed_pc list"
  z_tick :: "Message ticker"
  z_timer :: feed_pc
  z_main :: main_pc
  z_ctx :: bool
  z_dispDone :: bool
  z_pollDone :: bool
  z_received :: "string multiset"
  z_calls :: "t_call list"
  z_left :: "string multiset"
  z_lost :: "string multiset"

text \<open>What has been settled by a call: acknowledged, or handed back to the transport.\<close>

abbreviation z_settled :: "('t, 's, 'h) sys \<Rightarrow> string multiset" where
  "z_settled z \<equiv> call_ids (z_calls z)"

text \<open>The start, with \<open>k\<close> goroutines of the transport that call the consumer.\<close>

definition sys_start :: "('t, 's, 'h) world \<Rightarrow> int \<Rightarrow> nat \<Rightarrow> ('t, 's, 'h) sys" where
  "sys_start w n k = \<lparr>z_world = w, z_pool = pool_Start (pool_New n), z_wg = 0, z_disp = DTop, z_polls = replicate k FIdle,
     z_tick = ticker_New, z_timer = FIdle, z_main = MSelect, z_ctx = False, z_dispDone = False,
     z_pollDone = False, z_received = {#}, z_calls = [], z_left = {#}, z_lost = {#}\<rparr>"

section \<open>Bookkeeping\<close>

fun after_enqueue :: "proc_result \<Rightarrow> Message \<Rightarrow> Message list \<Rightarrow> feed_pc" where
  "after_enqueue Finished m rest = FRunning rest"
| "after_enqueue (Blocked _) m rest = FParked m rest"

fun after_resume :: "enq_result \<Rightarrow> Message \<Rightarrow> Message list \<Rightarrow> feed_pc" where
  "after_resume Waiting m rest = FParked m rest"
| "after_resume (Returned _) m rest = FRunning rest"

text \<open>A goroutine parked with \<open>m\<close> has been woken and takes the mutex.\<close>

definition ring_resume :: "Message \<Rightarrow> ('t, 's, 'h) world \<Rightarrow> (enq_result \<times> ('t, 's, 'h) world) option" where
  "ring_resume m w =
     (if Some m \<in> set (woken (b_cond (x_ring w)))
      then (let (e, b) = Enqueue_resume (x_ring w) (Some m) in Some (e, w\<lparr>x_ring := b\<rparr>))
      else None)"

section \<open>Steps\<close>

text \<open>The poller: a goroutine of the transport hands over a batch and works through it (\<open>poll_one\<close>), parking
  in \<open>Enqueue\<close> at a full ring; \<open>Subscribe\<close> returns, with an error or not, when no call is running.\<close>

inductive poll_step :: "('t, 's, 'h) runtime \<Rightarrow> ('t, 's, 'h) sys \<Rightarrow> ('t, 's, 'h) sys \<Rightarrow> bool"
  for r :: "('t, 's, 'h) runtime" where
  poll_receive: "j < length (z_polls z) \<Longrightarrow> z_polls z ! j = FIdle \<Longrightarrow>
     poll_step r z (z\<lparr>z_polls := (z_polls z)[j := FRunning msgs], z_received := z_received z + ids msgs,
       z_world := log_events (fire (h_OnReceive (rt_hooks r)) (OnReceive (length msgs)))
         ((z_world z)\<lparr>x_transport := t\<rparr>)\<rparr>)"
| poll_message: "j < length (z_polls z) \<Longrightarrow> z_polls z ! j = FRunning (m # ms) \<Longrightarrow>
     poll_one r now m (z_world z) = Inr (res, w) \<Longrightarrow>
     poll_step r z (z\<lparr>z_polls := (z_polls z)[j := after_enqueue res m ms], z_world := w\<rparr>)"
| poll_resume: "j < length (z_polls z) \<Longrightarrow> z_polls z ! j = FParked m ms \<Longrightarrow> ring_resume m (z_world z) = Some (e, w) \<Longrightarrow>
     poll_step r z (z\<lparr>z_polls := (z_polls z)[j := after_resume e m ms], z_world := w\<rparr>)"
| poll_next: "j < length (z_polls z) \<Longrightarrow> z_polls z ! j = FRunning [] \<Longrightarrow>
     poll_step r z (z\<lparr>z_polls := (z_polls z)[j := FIdle]\<rparr>)"
| poll_return: "\<forall>p\<in>set (z_polls z). p = FIdle \<Longrightarrow>
     poll_step r z (z\<lparr>z_polls := map (\<lambda>_. FReturned) (z_polls z),
       z_pollDone := z_pollDone z \<or> (err :: go_error option) \<noteq> None\<rparr>)"

text \<open>The ticker goroutine of the wheel, which drops the batch it is sending when it is stopped, and \<open>runTimer\<close>,
  which puts the expired messages into the ring.\<close>

inductive timer_step :: "('t, 's, 'h) runtime \<Rightarrow> ('t, 's, 'h) sys \<Rightarrow> ('t, 's, 'h) sys \<Rightarrow> bool"
  for r :: "('t, 's, 'h) runtime" where
  ticker: "Start_step (x_wheel (z_world z), z_tick z, []) e (wheel, tk, []) \<Longrightarrow>
     e \<in> {TkSend, TkStop} \<union> range (\<lambda>(t1, t2). TkTick t1 t2) \<Longrightarrow>
     timer_step r z (z\<lparr>z_world := (z_world z)\<lparr>x_wheel := wheel\<rparr>, z_tick := tk,
       z_lost := z_lost z + (case (e, tk_pc (z_tick z)) of (TkStop, Sending batch) \<Rightarrow> ids batch | _ \<Rightarrow> {#})\<rparr>)"
| timer_receive: "z_timer z = FIdle \<Longrightarrow>
     Start_step (x_wheel (z_world z), z_tick z, []) (TkReceive batch) (wheel, tk, batch) \<Longrightarrow>
     timer_step r z (z\<lparr>z_world := (z_world z)\<lparr>x_wheel := wheel\<rparr>, z_tick := tk, z_timer := FRunning batch\<rparr>)"
| timer_message: "z_timer z = FRunning (m # ms) \<Longrightarrow> enqueue_msg m (z_world z) = (res, w) \<Longrightarrow>
     timer_step r z (z\<lparr>z_timer := after_enqueue res m ms, z_world := w\<rparr>)"
| timer_resume: "z_timer z = FParked m ms \<Longrightarrow> ring_resume m (z_world z) = Some (e, w) \<Longrightarrow>
     timer_step r z (z\<lparr>z_timer := after_resume e m ms, z_world := w\<rparr>)"
| timer_next: "z_timer z = FRunning [] \<Longrightarrow> timer_step r z (z\<lparr>z_timer := FIdle\<rparr>)"
| timer_return: "z_timer z = FIdle \<Longrightarrow>
     tk_ctxDone (z_tick z) \<or> tk_outClosed (z_tick z) \<and> tk_out (z_tick z) = [] \<Longrightarrow>
     timer_step r z (z\<lparr>z_timer := FReturned\<rparr>)"

text \<open>The dispatcher: \<open>DequeueBatch\<close>, the filter and the tasks of \<open>dispatchBatch\<close>, one \<open>Submit\<close> at a time, the wait
  for the batch, and the drain loop after the cancellation.\<close>

inductive disp_step :: "('t, 's, 'h) runtime \<Rightarrow> ('t, 's, 'h) sys \<Rightarrow> ('t, 's, 'h) sys \<Rightarrow> bool"
  for r :: "('t, 's, 'h) runtime" where
  disp_top: "z_disp z = DTop \<Longrightarrow> disp_step r z (z\<lparr>z_disp := if z_dispDone z then DDrain else DDeq\<rparr>)"
| disp_none: "z_disp z = DDeq \<Longrightarrow> DequeueBatch (x_ring (z_world z)) 10 = ([], b) \<Longrightarrow>
     disp_step r z (z\<lparr>z_disp := DEmpty, z_world := (z_world z)\<lparr>x_ring := b\<rparr>\<rparr>)"
| disp_empty: "z_disp z = DEmpty \<Longrightarrow> disp_step r z (z\<lparr>z_disp := if z_dispDone z then DReturned else DTop\<rparr>)"
| disp_drained: "z_disp z = DDrain \<Longrightarrow> DequeueBatch (x_ring (z_world z)) 100 = ([], b) \<Longrightarrow>
     disp_step r z (z\<lparr>z_disp := DReturned, z_world := (z_world z)\<lparr>x_ring := b\<rparr>\<rparr>)"
| disp_batch: "z_disp z = (if drain then DDrain else DDeq) \<Longrightarrow>
     DequeueBatch (x_ring (z_world z)) (if drain then 100 else 10) = (batch, b) \<Longrightarrow> batch \<noteq> [] \<Longrightarrow>
     dispatchBatch r now batch ((z_world z)\<lparr>x_ring := b\<rparr>) = Inr (tasks, w) \<Longrightarrow>
     disp_step r z (z\<lparr>z_disp := DSubmit drain tasks, z_world := w,
       z_calls := z_calls z @ dispatch_calls r now batch ((z_world z)\<lparr>x_ring := b\<rparr>)\<rparr>)"
| disp_submit: "z_disp z = DSubmit drain (task # tasks) \<Longrightarrow> pool_Submit (z_pool z) (Job task) = Inr (Some pool) \<Longrightarrow>
     disp_step r z (z\<lparr>z_disp := DSubmit drain tasks, z_pool := pool, z_wg := z_wg z + 1\<rparr>)"
| disp_submitted: "z_disp z = DSubmit drain [] \<Longrightarrow> disp_step r z (z\<lparr>z_disp := DWait drain\<rparr>)"
| disp_wait: "z_disp z = DWait drain \<Longrightarrow> z_wg z = 0 \<Longrightarrow>
     disp_step r z (z\<lparr>z_disp := if drain then DDrain else DTop\<rparr>)"

text \<open>The workers: take a task, run it to the end or park in \<open>Enqueue\<close>, and go on when woken.\<close>

inductive work_step :: "('t, 's, 'h) runtime \<Rightarrow> ('t, 's, 'h) sys \<Rightarrow> ('t, 's, 'h) sys \<Rightarrow> bool"
  for r :: "('t, 's, 'h) runtime" where
  work_take: "i < length (p_workers (z_pool z)) \<Longrightarrow> p_workers (z_pool z) ! i = WIdle \<Longrightarrow>
     worker_step (z_pool z) i = Some pool \<Longrightarrow> work_step r z (z\<lparr>z_pool := pool\<rparr>)"
| work_run: "i < length (p_workers (z_pool z)) \<Longrightarrow> p_workers (z_pool z) ! i = WRunning (Job task) \<Longrightarrow>
     run_task r now task (z_world z) = Inr (Finished, w) \<Longrightarrow> worker_step (z_pool z) i = Some pool \<Longrightarrow>
     work_step r z (z\<lparr>z_pool := pool, z_world := w, z_wg := z_wg z - 1,
       z_calls := z_calls z @ task_calls r now task (z_world z), z_left := z_left z + leaves r (z_world z) task\<rparr>)"
| work_park: "i < length (p_workers (z_pool z)) \<Longrightarrow> p_workers (z_pool z) ! i = WRunning (Job task) \<Longrightarrow>
     run_task r now task (z_world z) = Inr (Blocked m, w) \<Longrightarrow>
     work_step r z (z\<lparr>z_pool := (z_pool z)\<lparr>p_workers := (p_workers (z_pool z))[i := WRunning (JParked m)]\<rparr>,
       z_world := w, z_calls := z_calls z @ task_calls r now task (z_world z)\<rparr>)"
| work_sleep: "i < length (p_workers (z_pool z)) \<Longrightarrow> p_workers (z_pool z) ! i = WRunning (JParked m) \<Longrightarrow>
     ring_resume m (z_world z) = Some (Waiting, w) \<Longrightarrow> work_step r z (z\<lparr>z_world := w\<rparr>)"
| work_resume: "i < length (p_workers (z_pool z)) \<Longrightarrow> p_workers (z_pool z) ! i = WRunning (JParked m) \<Longrightarrow>
     ring_resume m (z_world z) = Some (Returned err, w) \<Longrightarrow> worker_step (z_pool z) i = Some pool \<Longrightarrow>
     work_step r z (z\<lparr>z_pool := pool, z_world := w, z_wg := z_wg z - 1\<rparr>)"

text \<open>The main goroutine: the \<open>select\<close>, then the shutdown sequence up to the return.\<close>

inductive main_step :: "('t, 's, 'h) runtime \<Rightarrow> ('t, 's, 'h) sys \<Rightarrow> ('t, 's, 'h) sys \<Rightarrow> bool"
  for r :: "('t, 's, 'h) runtime" where
  main_select: "z_main z = MSelect \<Longrightarrow> z_ctx z \<or> z_pollDone z \<Longrightarrow>
     main_step r z (z\<lparr>z_main := MWaitDisp, z_dispDone := True\<rparr>)"
| main_disp: "z_main z = MWaitDisp \<Longrightarrow> z_disp z = DReturned \<Longrightarrow>
     main_step r z (z\<lparr>z_main := MWaitTimer, z_tick := (z_tick z)\<lparr>tk_ctxDone := True\<rparr>\<rparr>)"
| main_timer: "z_main z = MWaitTimer \<Longrightarrow> z_timer z = FReturned \<Longrightarrow>
     t_Close (rt_transport r) (x_transport (z_world z)) = Inr (err, t) \<Longrightarrow>
     main_step r z (z\<lparr>z_main := MWaitPoller, z_world := (z_world z)\<lparr>x_transport := t\<rparr>, z_calls := z_calls z @ [CClose]\<rparr>)"
| main_poller: "z_main z = MWaitPoller \<Longrightarrow> \<forall>p\<in>set (z_polls z). p = FReturned \<Longrightarrow>
     pool_StopDispatching (z_pool z) = Inr pool \<Longrightarrow>
     main_step r z (z\<lparr>z_main := MWaitPool, z_pool := pool\<rparr>)"
| main_pool: "z_main z = MWaitPool \<Longrightarrow> pool_Wait (z_pool z) \<Longrightarrow>
     iteration_order (x_wheel (z_world z)) order \<Longrightarrow> shutdown_drain order (z_world z) = (PollDone, w) \<Longrightarrow>
     (case rt_idemFilter r of None \<Rightarrow> w' = w
      | Some f \<Rightarrow> \<exists>err s. filter_close f (x_store w) = Inr (err, s) \<and> w' = w\<lparr>x_store := s\<rparr>) \<Longrightarrow>
     main_step r z (z\<lparr>z_main := MReturned, z_world := w',
       z_lost := z_lost z + image_mset m_ID (wheel_items (x_wheel (z_world z)))\<rparr>)"

text \<open>The system: one step of one goroutine, or the caller of \<open>Run\<close> cancels the context.\<close>

inductive sys_step :: "('t, 's, 'h) runtime \<Rightarrow> ('t, 's, 'h) sys \<Rightarrow> ('t, 's, 'h) sys \<Rightarrow> bool"
  for r :: "('t, 's, 'h) runtime" where
  poll: "poll_step r z z' \<Longrightarrow> sys_step r z z'"
| timer: "timer_step r z z' \<Longrightarrow> sys_step r z z'"
| disp: "disp_step r z z' \<Longrightarrow> sys_step r z z'"
| work: "work_step r z z' \<Longrightarrow> sys_step r z z'"
| main: "main_step r z z' \<Longrightarrow> sys_step r z z'"
| cancel: "sys_step r z (z\<lparr>z_ctx := True, z_dispDone := True, z_pollDone := True,
     z_tick := (z_tick z)\<lparr>tk_ctxDone := True\<rparr>\<rparr>)"

inductive sys_run :: "('t, 's, 'h) runtime \<Rightarrow> ('t, 's, 'h) sys \<Rightarrow> ('t, 's, 'h) sys \<Rightarrow> bool"
  for r :: "('t, 's, 'h) runtime" where
  refl: "sys_run r z z"
| step: "sys_run r z z' \<Longrightarrow> sys_step r z' z'' \<Longrightarrow> sys_run r z z''"

text \<open>What \<open>Run\<close> returns, \<open>ctx.Err()\<close>.\<close>

definition Run_result :: "('t, 's, 'h) sys \<Rightarrow> go_error option" where
  "Run_result z = (if z_ctx z then Some ContextCanceled else None)"

section \<open>Where messages are\<close>

fun feed_rest :: "feed_pc \<Rightarrow> Message list" where
  "feed_rest (FRunning ms) = ms"
| "feed_rest (FParked m ms) = ms"
| "feed_rest _ = []"

definition feeds :: "feed_pc list \<Rightarrow> string multiset" where
  "feeds ps = ids (concat (map feed_rest ps))"

fun job_msgs :: "'h job \<Rightarrow> Message list" where
  "job_msgs (Job task) = [task_msg task]"
| "job_msgs (JParked m) = []"

fun disp_tasks :: "'h disp_pc \<Rightarrow> 'h task list" where
  "disp_tasks (DSubmit drain tasks) = tasks"
| "disp_tasks _ = []"

text \<open>The identifiers of queued or parked items.\<close>

definition item_ids :: "Message iface multiset \<Rightarrow> string multiset" where
  "item_ids M = image_mset (\<lambda>x. m_ID (the x)) (filter_mset (\<lambda>x. x \<noteq> None) M)"

text \<open>The jobs in the channel and with the workers.\<close>

definition jobs :: "'h job pool \<Rightarrow> 'h job multiset" where
  "jobs p = mset (p_workCh p) + mset (running p)"

definition job_ids :: "'h job pool \<Rightarrow> string multiset" where
  "job_ids p = sum_mset (image_mset (\<lambda>job. ids (job_msgs job)) (jobs p))"

definition timer_ids :: "Message wheel \<Rightarrow> Message ticker \<Rightarrow> string multiset" where
  "timer_ids wheel tk = image_mset m_ID (tk_total (wheel, tk, []))"

definition ring_ids :: "('t, 's, 'h) world \<Rightarrow> string multiset" where
  "ring_ids w = item_ids (mset (contents (x_ring w)) + parked (x_ring w))"

text \<open>
  Everything received and not lost: in the ring or parked at it, in the wheel, in the
  ticker's hands or its channel, in the rest of a batch of the poller or the timer, among the
  tasks still to submit, in the pool's channel or with a worker, settled by a call, or left
  with the broker.
\<close>

definition accounted :: "('t, 's, 'h) sys \<Rightarrow> string multiset" where
  "accounted z = feeds (z_polls z) + ids (feed_rest (z_timer z)) + ring_ids (z_world z) +
     timer_ids (x_wheel (z_world z)) (z_tick z) + ids (map task_msg (disp_tasks (z_disp z))) +
     job_ids (z_pool z) + z_settled z + z_left z"

definition balance :: "('t, 's, 'h) sys \<Rightarrow> string multiset" where
  "balance z = accounted z + z_lost z"

text \<open>Coordinators of user code hand back the message they were given, retried or not.\<close>

definition coordinators_keep_ids :: "('t, 's, 'h) runtime \<Rightarrow> bool" where
  "coordinators_keep_ids r \<longleftrightarrow> (\<forall>topic entry c h msg res. rt_handlers r topic = Some entry \<longrightarrow>
     e_coordinator entry = Some c \<longrightarrow> m_ID (o_Message (fst (c h msg res))) = m_ID msg)"

definition known_task :: "('t, 's, 'h) runtime \<Rightarrow> 'h task \<Rightarrow> bool" where
  "known_task r task \<longleftrightarrow> task = task_of r (task_msg task)"

fun known_job :: "('t, 's, 'h) runtime \<Rightarrow> 'h job \<Rightarrow> bool" where
  "known_job r (Job task) = known_task r task"
| "known_job r (JParked m) = True"

text \<open>How far the shutdown has come.\<close>

fun phase :: "main_pc \<Rightarrow> nat" where
  "phase MSelect = 0"
| "phase MWaitDisp = 1"
| "phase MWaitTimer = 2"
| "phase MWaitPoller = 3"
| "phase MWaitPool = 4"
| "phase MReturned = 5"

fun dispatching :: "'h disp_pc \<Rightarrow> bool" where
  "dispatching (DSubmit drain tasks) = True"
| "dispatching (DWait drain) = True"
| "dispatching _ = False"

definition shared_inv :: "('t, 's, 'h) sys \<Rightarrow> bool" where
  "shared_inv z \<longleftrightarrow> ring_inv (x_ring (z_world z)) \<and> b_policy (x_ring (z_world z)) = Block \<and>
     (b_closed (x_ring (z_world z)) \<longleftrightarrow> z_main z = MReturned) \<and>
     wheel_inv (x_wheel (z_world z)) \<and> (w_closed (x_wheel (z_world z)) \<longleftrightarrow> z_main z = MReturned)"

definition phase_inv :: "('t, 's, 'h) sys \<Rightarrow> bool" where
  "phase_inv z \<longleftrightarrow> (z_disp z = DReturned \<or> phase (z_main z) < 2) \<and>
     (z_timer z = FReturned \<or> phase (z_main z) < 3) \<and> ((\<forall>p\<in>set (z_polls z). p = FReturned) \<or> phase (z_main z) < 4) \<and>
     (pool_Wait (z_pool z) \<or> phase (z_main z) < 5)"

definition wait_inv :: "('t, 's, 'h) sys \<Rightarrow> bool" where
  "wait_inv z \<longleftrightarrow> pool_inv (z_pool z) \<and> p_started (z_pool z) \<and> (p_closed (z_pool z) \<longleftrightarrow> 4 \<le> phase (z_main z)) \<and>
     z_wg z = int (size (jobs (z_pool z))) \<and>
     (dispatching (z_disp z) \<or> z_wg z = 0)"

definition task_inv :: "('t, 's, 'h) runtime \<Rightarrow> ('t, 's, 'h) sys \<Rightarrow> bool" where
  "task_inv r z \<longleftrightarrow> (\<forall>task\<in>set (disp_tasks (z_disp z)). known_task r task) \<and>
     (\<forall>job\<in>#jobs (z_pool z). known_job r job)"

definition lost_inv :: "('t, 's, 'h) sys \<Rightarrow> bool" where
  "lost_inv z \<longleftrightarrow> tk_ctxDone (z_tick z) \<or> z_lost z = {#} \<and> phase (z_main z) < 2 \<and> tk_pc (z_tick z) \<noteq> Stopped"

definition sys_inv :: "('t, 's, 'h) runtime \<Rightarrow> ('t, 's, 'h) sys \<Rightarrow> bool" where
  "sys_inv r z \<longleftrightarrow> shared_inv z \<and> phase_inv z \<and> wait_inv z \<and> task_inv r z \<and> lost_inv z \<and> balance z = z_received z"

text \<open>Nothing in the ring or the wheel, as \<open>Run\<close> leaves them before it starts the goroutines.\<close>

definition fresh_world :: "('t, 's, 'h) world \<Rightarrow> bool" where
  "fresh_world w \<longleftrightarrow> open_world w \<and> holdings w = {#}"

section \<open>Steps of the components\<close>

text \<open>The steps of the goroutines as steps of the system.\<close>

lemmas sys_poll_receive = poll_step.poll_receive[THEN sys_step.poll]
  and sys_poll_message = poll_step.poll_message[THEN sys_step.poll]
  and sys_poll_resume = poll_step.poll_resume[THEN sys_step.poll]
  and sys_poll_next = poll_step.poll_next[THEN sys_step.poll]
  and sys_poll_return = poll_step.poll_return[THEN sys_step.poll]
  and sys_timer_message = timer_step.timer_message[THEN sys_step.timer]
  and sys_timer_resume = timer_step.timer_resume[THEN sys_step.timer]
  and sys_timer_next = timer_step.timer_next[THEN sys_step.timer]
  and sys_timer_return = timer_step.timer_return[THEN sys_step.timer]
  and sys_disp_top = disp_step.disp_top[THEN sys_step.disp]
  and sys_disp_none = disp_step.disp_none[THEN sys_step.disp]
  and sys_disp_empty = disp_step.disp_empty[THEN sys_step.disp]
  and sys_disp_drained = disp_step.disp_drained[THEN sys_step.disp]
  and sys_disp_batch = disp_step.disp_batch[THEN sys_step.disp]
  and sys_disp_submit = disp_step.disp_submit[THEN sys_step.disp]
  and sys_disp_submitted = disp_step.disp_submitted[THEN sys_step.disp]
  and sys_disp_wait = disp_step.disp_wait[THEN sys_step.disp]
  and sys_work_take = work_step.work_take[THEN sys_step.work]
  and sys_work_run = work_step.work_run[THEN sys_step.work]
  and sys_work_park = work_step.work_park[THEN sys_step.work]
  and sys_main_select = main_step.main_select[THEN sys_step.main]
  and sys_main_disp = main_step.main_disp[THEN sys_step.main]
  and sys_main_timer = main_step.main_timer[THEN sys_step.main]
  and sys_main_poller = main_step.main_poller[THEN sys_step.main]
  and sys_main_pool = main_step.main_pool[THEN sys_step.main]

text \<open>Runs compose.\<close>

lemma sys_run_trans: "sys_run r z1 z2 \<Longrightarrow> sys_run r z2 z3 \<Longrightarrow> sys_run r z1 z3"
  by (rotate_tac, induction rule: sys_run.induct) (auto intro: sys_run.step)

lemma item_ids_simps [simp]:
  "item_ids {#} = {#}" "item_ids (M + N) = item_ids M + item_ids N" "item_ids (add_mset (Some m) M) = add_mset (m_ID m) (item_ids M)"
  "item_ids (mset xs) = ids (assert_messages xs)"
proof -
  show "item_ids (mset xs) = ids (assert_messages xs)"
    by (induction xs rule: assert_messages.induct) (simp_all add: item_ids_def)
qed (simp_all add: item_ids_def)

lemma item_ids_Some: "item_ids (image_mset Some M) = image_mset m_ID M"
  by (induction M) simp_all

lemma holdings_ids: "item_ids (holdings w) = ring_ids w + image_mset m_ID (wheel_items (x_wheel w))"
  by (simp add: ring_ids_def holdings_def item_ids_Some)

lemma ring_resume_open:
  assumes "open_world w" and "ring_resume m w = Some (e, w')"
  shows "open_world w'" and "ring_ids w' = ring_ids w" and "x_wheel w' = x_wheel w"
    and "\<exists>b. w' = w\<lparr>x_ring := b\<rparr>" and "holdings w' = holdings w"
proof -
  have woken: "Some m \<in> set (woken (b_cond (x_ring w)))" using assms(2) by (simp add: ring_resume_def split: if_splits)
  obtain b where b: "Enqueue_resume (x_ring w) (Some m) = (e, b)" "w' = w\<lparr>x_ring := b\<rparr>"
    using assms(2) woken by (auto simp: ring_resume_def split: prod.splits)
  have ring: "ring_inv (x_ring w)" "\<not> b_closed (x_ring w)" "b_policy (x_ring w) = Block"
    using assms(1) by (simp_all add: open_world_def)
  note cor = Enqueue_resume_correct[OF ring(1) b(1)]
  show "x_wheel w' = x_wheel w" "\<exists>b. w' = w\<lparr>x_ring := b\<rparr>" using b(2) by auto
  show "open_world w'"
    using assms(1) cor Enqueue_resume_frame(1,2)[of "x_ring w" "Some m"] b by (simp add: open_world_def)
  have "add_mset (Some m) (parked b) = parked (x_ring w) + (if e = Waiting then {#Some m#} else {#})"
    using Enqueue_resume_parked[OF woken] b(1) by simp
  moreover have "mset (contents b) = mset (contents (x_ring w)) + (if e = Waiting then {#} else {#Some m#})"
    using cor ring(2) by (auto split: if_splits)
  ultimately have "mset (contents b) + parked b = mset (contents (x_ring w)) + parked (x_ring w)"
    by (cases "e = Waiting") auto
  then show "ring_ids w' = ring_ids w" "holdings w' = holdings w" using b(2) unfolding ring_ids_def holdings_def by simp_all
qed

lemma enqueue_msg_ids:
  assumes "open_world w" and "enqueue_msg m w = (res, w')"
  shows "ring_ids w' = add_mset (m_ID m) (ring_ids w) \<and> x_wheel w' = x_wheel w \<and> open_world w'"
proof -
  have wheel: "x_wheel w' = x_wheel w" using enqueue_msg_frame(3)[of m w] assms(2) by simp
  then have "ring_ids w' + image_mset m_ID (wheel_items (x_wheel w)) =
      add_mset (m_ID m) (ring_ids w) + image_mset m_ID (wheel_items (x_wheel w))"
    using arg_cong[OF conjunct1[OF conjunct2[OF enqueue_msg_open[OF assms]]], of item_ids] by (simp add: holdings_ids)
  then show ?thesis using wheel enqueue_msg_open[OF assms] by (metis add_right_cancel)
qed

lemma poll_one_ids:
  assumes "open_world w" and "poll_one r now m w = Inr (res, w')"
  shows "open_world w' \<and> ring_ids w' + image_mset m_ID (wheel_items (x_wheel w')) =
    add_mset (m_ID m) (ring_ids w + image_mset m_ID (wheel_items (x_wheel w)))"
  using poll_one_open[OF assms] by (simp flip: holdings_ids)

lemma DequeueBatch_ids:
  assumes "open_world w" and "DequeueBatch (x_ring w) n = (batch, b)"
  shows "ring_ids (w\<lparr>x_ring := b\<rparr>) + ids (assert_messages batch) = ring_ids w" and "open_world (w\<lparr>x_ring := b\<rparr>)"
proof -
  have inv: "ring_inv (x_ring w)" using assms(1) by (simp add: open_world_def)
  note cor = DequeueBatch_correct[OF inv assms(2)]
  have "contents (x_ring w) = batch @ contents b" using cor by simp
  moreover have "parked b = parked (x_ring w)" using DequeueBatch_parked[of "x_ring w" n] assms(2) by simp
  ultimately show "ring_ids (w\<lparr>x_ring := b\<rparr>) + ids (assert_messages batch) = ring_ids w"
    by (simp add: ring_ids_def)
  show "open_world (w\<lparr>x_ring := b\<rparr>)"
    using assms(1) cor DequeueBatch_frame[of "x_ring w" n] assms(2) by (simp add: open_world_def)
qed

lemma filter_loop_mset:
  "filter_loop f store now s messages = Inr (kept, dups, evs, s') \<Longrightarrow> mset kept + mset dups = mset messages"
proof (induction messages arbitrary: now s kept dups evs)
  case (Cons msg messages)
  then show ?case by (fastforce split: option.splits sum.splits prod.splits if_splits)
qed simp

lemma ack_each_frame: "x_ring (ack_each r dups w) = x_ring w" "x_wheel (ack_each r dups w) = x_wheel w"
  by (induction dups arbitrary: w) (simp_all add: frame_simps)

lemma task_of_msg [simp]: "task_msg (task_of r msg) = msg"
  by (simp add: task_of_def split: option.split)

lemma dispatchBatch_ids:
  assumes "dispatchBatch r now batch w = Inr (tasks, w')"
  shows "x_ring w' = x_ring w" and "x_wheel w' = x_wheel w" and "\<forall>task\<in>set tasks. known_task r task"
    and "set (map task_msg tasks) \<subseteq> set (assert_messages batch)"
proof -
  have "x_ring w' = x_ring w \<and> x_wheel w' = x_wheel w \<and> (\<exists>kept. tasks = map (task_of r) kept \<and> mset kept \<subseteq># mset (assert_messages batch))"
  proof (cases "rt_idemFilter r")
    case (Some f)
    then obtain kept dups evs s where fl: "filterDuplicates f now (x_store w) (assert_messages batch) = Inr (kept, dups, evs, s)"
      and t: "tasks = map (task_of r) kept" "w' = ack_each r dups (log_events evs (w\<lparr>x_store := s\<rparr>))"
      using assms by (auto simp: dispatchBatch_def Let_def split: sum.splits)
    have "mset kept \<subseteq># mset (assert_messages batch)"
      using fl by (auto simp: filterDuplicates_def split: option.splits dest!: filter_loop_mset)
        (metis mset_subset_eq_add_left)
    with t show ?thesis by (auto simp: ack_each_frame frame_simps)
  qed (use assms in \<open>auto simp: dispatchBatch_def Let_def\<close>)
  then show "x_ring w' = x_ring w" "x_wheel w' = x_wheel w" "\<forall>task\<in>set tasks. known_task r task"
    "set (map task_msg tasks) \<subseteq> set (assert_messages batch)"
    by (auto simp: known_task_def dest!: mset_subset_eqD[where x = m for m])
qed

text \<open>What a dispatched batch does not hand to the workers it settles by a call.\<close>

lemma dispatch_call_ids:
  assumes "dispatchBatch r now batch w = Inr (tasks, w')"
  shows "call_ids (dispatch_calls r now batch w) + ids (map task_msg tasks) = ids (assert_messages batch)"
proof -
  obtain w1 where w1: "dispatchBatch (watched r) now batch (watch w) = Inr (tasks, w1)" "dispatch_calls r now batch w = calls w1"
    by (rule watched_dispatch_run[OF assms])
  show ?thesis
  proof (cases "rt_idemFilter r")
    case None
    with w1 show ?thesis by (auto simp: dispatchBatch_def watch_simps image_mset.compositionality comp_def)
  next
    case (Some f)
    with w1(1) obtain kept dups evs s where fl: "filterDuplicates f now (x_store w) (assert_messages batch) = Inr (kept, dups, evs, s)"
      and t: "tasks = map (task_of r) kept" "w1 = ack_each (watched r) dups (log_events evs (watch w\<lparr>x_store := s\<rparr>))"
      by (auto simp: dispatchBatch_def Let_def watch_simps split: sum.splits)
    have "mset kept + mset dups = mset (assert_messages batch)"
      using fl by (auto simp: filterDuplicates_def split: option.splits dest!: filter_loop_mset)
    then have "image_mset m_ID (mset kept) + image_mset m_ID (mset dups) = image_mset m_ID (mset (assert_messages batch))"
      by (metis image_mset_union)
    with t w1(2) show ?thesis
      by (simp add: ack_each_calls(1)[OF watched_sel(2)] frame_simps watch_simps call_ids_acks image_mset.compositionality comp_def ac_simps)
  qed
qed

text \<open>What a task does to the ring: nothing, or it enqueues its message.\<close>

lemma process_switch_ring:
  assumes "process_switch r now msg out w = Inr (res, w')"
  shows "if o_Action out = Retry
    then enqueue_msg (o_Message out) (log_events (fireOnRetry (rt_hooks r) (m_Topic msg) (o_Message out)
      (m_Attempts (o_Message out))) w) = (res, w')
    else res = Finished \<and> x_ring w' = x_ring w \<and> x_wheel w' = x_wheel w"
  using assms
  by (cases "o_Action out")
    (auto simp: process_switch_def settle_Ack_def settle_Retry_def settle_RetryWithDelay_def settle_DLQ_def
      split_def Let_def frame_simps split: option.splits sum.splits)

lemma outcome_keeps_id:
  assumes "coordinators_keep_ids r" and "rt_handlers r topic = Some entry"
  shows "m_ID (o_Message (outcome_of r h msg entry)) = m_ID msg"
proof (cases "e_coordinator entry")
  case None
  then show ?thesis
    by (cases "r_Action (fst (e_fn entry h (m_Payload msg)))")
      (simp_all add: outcome_of_def resolveOutcome_def default_Handle_def default_retry_def Let_def)
next
  case (Some c)
  then show ?thesis using assms by (simp add: outcome_of_def resolveOutcome_def coordinators_keep_ids_def)
qed

lemma run_task_open:
  assumes w: "open_world w" and run: "run_task r now task w = Inr (res, w')"
  shows "open_world w' \<and> x_wheel w' = x_wheel w"
proof (cases task)
  case (Process msg entry)
  let ?o = "outcome_of r (x_user w) msg entry"
  obtain w1 where w1: "x_ring w1 = x_ring w" "x_wheel w1 = x_wheel w"
    and p: "processMessage r now msg entry w = process_switch r now msg ?o w1"
    by (rule processMessage_switch)
  have sw: "process_switch r now msg ?o w1 = Inr (res, w')" using run Process p by simp
  show ?thesis
  proof (cases "o_Action ?o = Retry")
    case True
    let ?w = "log_events (fireOnRetry (rt_hooks r) (m_Topic msg) (o_Message ?o) (m_Attempts (o_Message ?o))) w1"
    have "enqueue_msg (o_Message ?o) ?w = (res, w')" using process_switch_ring[OF sw] True by simp
    moreover have "open_world ?w" using w w1 by (simp add: open_world_def frame_simps)
    ultimately show ?thesis using enqueue_msg_ids[of ?w "o_Message ?o" res w'] w1 by (simp add: frame_simps)
  next
    case False
    then show ?thesis using process_switch_ring[OF sw] w w1 by (simp add: open_world_def)
  qed
next
  case (Unknown msg)
  have "x_ring (handleUnknownTopic r msg w) = x_ring w" "x_wheel (handleUnknownTopic r msg w) = x_wheel w"
    by (simp_all add: handleUnknownTopic_def settle_DLQ_def split_def Let_def frame_simps split: option.split)
  with Unknown run w show ?thesis by (auto simp: open_world_def)
qed

text \<open>The calls of a task settle its message, or it is in the ring, or it is left with the broker.\<close>

lemma run_task_ids:
  assumes keep: "coordinators_keep_ids r" and known: "known_task r task" and w: "open_world w"
    and run: "run_task r now task w = Inr (res, w')"
  shows "open_world w' \<and> x_wheel w' = x_wheel w \<and>
    ring_ids w' + call_ids (task_calls r now task w) + leaves r w task = add_mset (m_ID (task_msg task)) (ring_ids w) \<and>
    (res \<noteq> Finished \<longrightarrow> call_ids (task_calls r now task w) = {#} \<and> leaves r w task = {#})"
proof -
  have ring: "ring_inv (x_ring w)" "b_policy (x_ring w) = Block" "\<not> b_closed (x_ring w)" using w by (simp_all add: open_world_def)
  note fate = task_settled[OF run ring(1,2)]
  have "m_ID (task_out r w task) = m_ID (task_msg task)"
    using outcome_keeps_id[OF keep] known by (cases task) (auto simp: known_task_def task_of_def split: option.splits)
  moreover have "task_fate r w task \<noteq> Refused"
    using ring(3) by (cases task) (simp_all add: fate_of_def split: Action.split)
  ultimately show ?thesis
    using run_task_open[OF w run] fate by (cases "task_fate r w task") (simp_all add: ring_ids_def leaves_def)
qed

text \<open>The ticker moves items, and loses the batch it holds when it stops.\<close>

lemma ticker_ids:
  assumes "Start_step (wheel, tk, []) e (wheel', tk', rcv)" and "wheel_inv wheel"
    and "e \<in> {TkSend, TkStop} \<union> range (\<lambda>(t1, t2). TkTick t1 t2) \<or> (\<exists>batch. e = TkReceive batch)"
  shows "wheel_inv wheel' \<and> w_closed wheel' = w_closed wheel \<and> tk_ctxDone tk' = tk_ctxDone tk \<and>
    timer_ids wheel' tk' + ids rcv + (case (e, tk_pc tk) of (TkStop, Sending batch) \<Rightarrow> ids batch | _ \<Rightarrow> {#}) =
      timer_ids wheel tk \<and> (e = TkStop \<longrightarrow> tk_ctxDone tk)"
  using assms(1)
proof (cases rule: Start_step.cases)
  case (tick order tick_now expire_now)
  then obtain batch where ex: "expire wheel (time_Unix tick_now) expire_now order = (batch, wheel')"
    and tk': "tk' = tk\<lparr>tk_pc := if batch = [] then Ticking else Sending batch\<rparr>"
    by (auto simp: ticker_tick_def split: prod.splits)
  have ord: "iteration_order wheel order" using tick by (simp add: iteration_order_def)
  show ?thesis
    using expire_conserves[OF assms(2) ord ex] expire_inv[OF assms(2) ord ex] expire_bucket(2)[OF ord ex] tick tk'
    by (simp add: timer_ids_def)
qed (use assms(2,3) in \<open>auto simp: timer_ids_def split: ticker_pc.splits\<close>)

text \<open>What a worker does to the jobs of the pool.\<close>

lemma running_update:
  assumes "i < length (p_workers p)"
  shows "mset (running (p\<lparr>p_workers := (p_workers p)[i := y]\<rparr>)) + mset (worker_task (p_workers p ! i)) =
    mset (running p) + mset (worker_task y)"
  using concat_update_swap[OF assms, of worker_task y] by (simp add: running_def)

lemma take_jobs:
  assumes "i < length (p_workers p)" and "p_workers p ! i = WIdle" and "worker_step p i = Some p'"
  shows "jobs p' = jobs p \<and> p_closed p' = p_closed p \<and> p_started p' = p_started p"
  using assms(3)
proof (cases rule: worker_stepE)
  case (receive fn rest)
  then show ?thesis using running_update[OF assms(1), of "WRunning fn"]
    by (simp add: jobs_def running_def)
next
  case exit
  then show ?thesis using running_update[OF assms(1), of WExited] by (simp add: jobs_def running_def)
qed (use assms(2) in simp)

lemma return_jobs:
  assumes "i < length (p_workers p)" and "p_workers p ! i = WRunning job" and "worker_step p i = Some p'"
  shows "jobs p = add_mset job (jobs p') \<and> p_closed p' = p_closed p \<and> p_started p' = p_started p"
  using assms(3)
proof (cases rule: worker_stepE)
  case (return fn)
  then show ?thesis using running_update[OF assms(1), of WIdle] assms(2)
    by (simp add: jobs_def running_def)
qed (use assms(2) in simp_all)

lemma park_jobs:
  assumes "i < length (p_workers p)" and "p_workers p ! i = WRunning job"
  shows "add_mset job (jobs (p\<lparr>p_workers := (p_workers p)[i := WRunning y]\<rparr>)) = add_mset y (jobs p)"
  using running_update[OF assms(1), of "WRunning y"] assms(2) by (simp add: jobs_def running_def)

lemma park_pool_inv:
  assumes "pool_inv p" and "i < length (p_workers p)" and "p_workers p ! i = WRunning job"
  shows "pool_inv (p\<lparr>p_workers := (p_workers p)[i := WRunning y]\<rparr>)"
proof -
  have "alive (p\<lparr>p_workers := (p_workers p)[i := WRunning y]\<rparr>) = alive p"
    using sum_list_update_swap[OF assms(2), of worker_alive "WRunning y"] assms(3) by (simp add: alive_def)
  then show ?thesis using assms(1) unfolding pool_inv_def by simp
qed

lemma submit_jobs:
  assumes "pool_Submit p job = Inr (Some p')"
  shows "jobs p' = add_mset job (jobs p) \<and> p_closed p' = p_closed p \<and> p_started p' = p_started p"
  using assms by (auto simp: pool_Submit_def jobs_def running_def split: if_splits)

lemma stop_jobs:
  assumes "pool_StopDispatching p = Inr p'" and "p_started p"
  shows "jobs p' = jobs p \<and> p_closed p' \<and> p_started p'"
  using assms by (auto simp: pool_StopDispatching_def jobs_def running_def split: if_splits)

lemma job_running:
  assumes "i < length (p_workers p)" and "p_workers p ! i = WRunning job"
  shows "job \<in># jobs p"
proof -
  have "WRunning job \<in> set (p_workers p)" using assms by (metis nth_mem)
  then show ?thesis by (force simp: jobs_def running_def)
qed

end
