(* ===== verification/System_Inv.thy ===== *)
theory System_Inv
  imports System
begin

text \<open>
  The invariants of \<open>sys_step\<close>, goroutine by goroutine: the shared components stay well formed and open
  until \<open>Run\<close> returns (\<open>shared_inv\<close>), the shutdown sequence is in order (\<open>phase_inv\<close>), the \<open>WaitGroup\<close> counts
  the jobs of the pool (\<open>wait_inv\<close>), tasks belong to the handlers of the pipeline (\<open>task_inv\<close>), nothing is
  lost before a cancellation (\<open>lost_inv\<close>), and every received message is in exactly one place
  (\<open>balance\<close>). Together they are \<open>sys_inv\<close>.
\<close>

section \<open>Invariants\<close>

text \<open>A goroutine that can still run shows how far the shutdown can have come.\<close>

lemma phase_open:
  assumes "phase_inv z"
  shows "z_disp z \<noteq> DReturned \<Longrightarrow> phase (z_main z) < 2" and "z_timer z \<noteq> FReturned \<Longrightarrow> phase (z_main z) < 3"
    and "j < length (z_polls z) \<Longrightarrow> z_polls z ! j \<noteq> FReturned \<Longrightarrow> phase (z_main z) < 4"
  using assms by (auto simp: phase_inv_def dest: nth_mem)

lemma phase_worker:
  assumes "phase_inv z" and "pool_inv (z_pool z)" and "i < length (p_workers (z_pool z))"
    and "p_workers (z_pool z) ! i \<noteq> WExited"
  shows "phase (z_main z) < 5"
proof (rule ccontr)
  assume "\<not> phase (z_main z) < 5"
  then have "sum_list (map worker_alive (p_workers (z_pool z))) = 0"
    using assms(1,2) by (simp add: phase_inv_def pool_Wait_def pool_inv_def alive_def)
  then have "worker_alive (p_workers (z_pool z) ! i) = 0"
    using assms(3) by (simp add: sum_list_eq_0_iff)
  then show False using assms(4) by (cases "p_workers (z_pool z) ! i") simp_all
qed

lemma worker_phase:
  assumes "phase_inv z" and "wait_inv z" and "i < length (p_workers (z_pool z))" and "p_workers (z_pool z) ! i \<noteq> WExited"
  shows "phase (z_main z) < 5"
  using phase_worker[OF assms(1) _ assms(3,4)] assms(2) by (simp add: wait_inv_def)

lemma known_running:
  assumes "task_inv r z" and "i < length (p_workers (z_pool z))" and "p_workers (z_pool z) ! i = WRunning (Job task)"
  shows "known_task r task"
  using assms(1) job_running[OF assms(2,3)] by (auto simp: task_inv_def)

lemma shutdown_drain_world:
  "shutdown_drain order w = (res, w') \<Longrightarrow>
    w' = w\<lparr>x_ring := ring_Close (x_ring w), x_wheel := snd (wheel_Drain (x_wheel w) order)\<rparr>"
  by (auto simp: shutdown_drain_def wheel_Drain_def ring_Close_def timer_batch_closed)

lemma closed_store_frame:
  assumes "case f of None \<Rightarrow> w' = w | Some f \<Rightarrow> \<exists>err s. filter_close f (x_store w) = Inr (err, s) \<and> w' = w\<lparr>x_store := s\<rparr>"
  shows "x_ring w' = x_ring w" and "x_wheel w' = x_wheel w" and "x_user w' = x_user w"
  using assms by (auto split: option.splits)

lemma open_sys:
  assumes "shared_inv z" and "phase (z_main z) < 5"
  shows "open_world (z_world z)"
  using assms by (cases "z_main z") (simp_all add: shared_inv_def open_world_def)

lemma shared_open:
  assumes "open_world w" and "phase (z_main z) < 5"
  shows "shared_inv (z\<lparr>z_world := w\<rparr>)"
  using assms by (cases "z_main z") (auto simp: shared_inv_def open_world_def)

lemma shared_cong: "z_world z' = z_world z \<Longrightarrow> z_main z' = z_main z \<Longrightarrow> shared_inv z' = shared_inv z"
  by (simp add: shared_inv_def)

lemma main_phase: "z_main z \<noteq> MReturned \<longleftrightarrow> phase (z_main z) < 5"
  by (cases "z_main z") simp_all

text \<open>A step that runs while the pipeline is open and leaves it open.\<close>

lemma shared_poll:
  assumes "poll_step r z z'" and sh: "shared_inv z" and ph: "phase_inv z"
  shows "shared_inv z'"
  using assms(1)
proof (cases rule: poll_step.cases)
  case (poll_receive j msgs t)
  with sh show ?thesis by (simp add: shared_inv_def frame_simps)
next
  case (poll_message j m ms now res w)
  from poll_message phase_open(3)[OF ph, of j] have p: "phase (z_main z) < 5" by simp
  from poll_one_ids[OF open_sys[OF sh p]] poll_message have "open_world w" by blast
  from shared_open[OF this p] poll_message show ?thesis by (simp add: shared_inv_def)
next
  case (poll_resume j m ms e w)
  from poll_resume phase_open(3)[OF ph, of j] have p: "phase (z_main z) < 5" by simp
  from ring_resume_open(1)[OF open_sys[OF sh p]] poll_resume have "open_world w" by blast
  from shared_open[OF this p] poll_resume show ?thesis by (simp add: shared_inv_def)
qed (use sh in \<open>simp_all add: shared_inv_def\<close>)

lemma shared_timer:
  assumes "timer_step r z z'" and sh: "shared_inv z" and ph: "phase_inv z"
  shows "shared_inv z'"
  using assms(1)
proof (cases rule: timer_step.cases)
  case (ticker e wheel tk)
  with sh ticker_ids[of "x_wheel (z_world z)" "z_tick z" e wheel tk "[]"] show ?thesis
    by (auto simp: shared_inv_def)
next
  case (timer_receive batch wheel tk)
  with sh ticker_ids[of "x_wheel (z_world z)" "z_tick z" "TkReceive batch" wheel tk batch] show ?thesis
    by (auto simp: shared_inv_def)
next
  case (timer_message m ms res w)
  from timer_message phase_open(2)[OF ph] have p: "phase (z_main z) < 5" by simp
  from enqueue_msg_ids[OF open_sys[OF sh p]] timer_message have "open_world w" by blast
  from shared_open[OF this p] timer_message show ?thesis by (simp add: shared_inv_def)
next
  case (timer_resume m ms e w)
  from timer_resume phase_open(2)[OF ph] have p: "phase (z_main z) < 5" by simp
  from ring_resume_open(1)[OF open_sys[OF sh p]] timer_resume have "open_world w" by blast
  from shared_open[OF this p] timer_resume show ?thesis by (simp add: shared_inv_def)
qed (use sh in \<open>simp_all add: shared_inv_def\<close>)

lemma shared_disp:
  assumes "disp_step r z z'" and sh: "shared_inv z" and ph: "phase_inv z"
  shows "shared_inv z'"
  using assms(1)
proof (cases rule: disp_step.cases)
  case (disp_none b)
  from disp_none phase_open(1)[OF ph] have p: "phase (z_main z) < 5" by simp
  from shared_open[OF DequeueBatch_ids(2)[OF open_sys[OF sh p] disp_none(3)] p] disp_none
  show ?thesis by (simp add: shared_inv_def)
next
  case (disp_drained b)
  from disp_drained phase_open(1)[OF ph] have p: "phase (z_main z) < 5" by simp
  from shared_open[OF DequeueBatch_ids(2)[OF open_sys[OF sh p] disp_drained(3)] p] disp_drained
  show ?thesis by (simp add: shared_inv_def)
next
  case (disp_batch drain batch b now tasks w)
  from disp_batch phase_open(1)[OF ph] have p: "phase (z_main z) < 5" by (simp split: if_splits)
  from shared_open[OF DequeueBatch_ids(2)[OF open_sys[OF sh p] disp_batch(3)] p]
    dispatchBatch_ids(1,2)[OF disp_batch(5)] disp_batch
  show ?thesis by (simp add: shared_inv_def)
qed (use sh in \<open>simp_all add: shared_inv_def\<close>)

lemma shared_work:
  assumes "work_step r z z'" and sh: "shared_inv z" and ph: "phase_inv z" and wt: "wait_inv z"
    and task: "task_inv r z" and keep: "coordinators_keep_ids r"
  shows "shared_inv z'"
  using assms(1)
proof (cases rule: work_step.cases)
  case (work_run i task now w pool)
  have p: "phase (z_main z) < 5" by (rule worker_phase[OF ph wt work_run(2)]) (simp add: work_run(3))
  have "known_task r task" by (rule known_running[OF task work_run(2,3)])
  from run_task_ids[OF keep this open_sys[OF sh p] work_run(4)] have "open_world w" by simp
  from shared_open[OF this p] work_run show ?thesis by (simp add: shared_inv_def)
next
  case (work_park i task now m w)
  have p: "phase (z_main z) < 5" by (rule worker_phase[OF ph wt work_park(2)]) (simp add: work_park(3))
  have "known_task r task" by (rule known_running[OF task work_park(2,3)])
  from run_task_ids[OF keep this open_sys[OF sh p] work_park(4)] have "open_world w" by simp
  from shared_open[OF this p] work_park show ?thesis by (simp add: shared_inv_def)
next
  case (work_sleep i m w)
  have p: "phase (z_main z) < 5" by (rule worker_phase[OF ph wt work_sleep(2)]) (simp add: work_sleep(3))
  from shared_open[OF ring_resume_open(1)[OF open_sys[OF sh p] work_sleep(4)] p] work_sleep
  show ?thesis by (simp add: shared_inv_def)
next
  case (work_resume i m err w pool)
  have p: "phase (z_main z) < 5" by (rule worker_phase[OF ph wt work_resume(2)]) (simp add: work_resume(3))
  from shared_open[OF ring_resume_open(1)[OF open_sys[OF sh p] work_resume(4)] p] work_resume
  show ?thesis by (simp add: shared_inv_def)
qed (use sh in \<open>simp_all add: shared_inv_def\<close>)

lemma shared_main:
  assumes "main_step r z z'" and sh: "shared_inv z"
  shows "shared_inv z'"
  using assms(1)
proof (cases rule: main_step.cases)
  case main_timer
  with sh show ?thesis by (simp add: shared_inv_def frame_simps)
next
  case (main_pool order w w')
  note shutdown_drain_world[OF main_pool(5)] closed_store_frame(1,2)[OF main_pool(6)]
  then show ?thesis
    using sh main_pool Drain_inv[of "x_wheel (z_world z)" order] ring_Close_correct[of "x_ring (z_world z)"]
    by (simp add: shared_inv_def wheel_Drain_def ring_Close_def)
qed (use sh in \<open>simp_all add: shared_inv_def\<close>)

lemma shared_step:
  assumes "sys_step r z z'" and sh: "shared_inv z" and ph: "phase_inv z" and wt: "wait_inv z"
    and task: "task_inv r z" and keep: "coordinators_keep_ids r"
  shows "shared_inv z'"
  using assms(1)
proof (cases rule: sys_step.cases)
  case poll
  then show ?thesis by (rule shared_poll[OF _ sh ph])
next
  case timer
  then show ?thesis by (rule shared_timer[OF _ sh ph])
next
  case disp
  then show ?thesis by (rule shared_disp[OF _ sh ph])
next
  case work
  then show ?thesis by (rule shared_work[OF _ sh ph wt task keep])
next
  case main
  then show ?thesis by (rule shared_main[OF _ sh])
qed (use sh in \<open>simp_all add: shared_inv_def\<close>)

lemma stop_pool_inv: "pool_inv p \<Longrightarrow> pool_StopDispatching p = Inr p' \<Longrightarrow> pool_inv p'"
  by (rule StopDispatching_inv)

text \<open>The pool and the batch's \<open>WaitGroup\<close>.\<close>

lemma wait_work:
  assumes "work_step r z z'" and wt: "wait_inv z"
  shows "wait_inv z'"
  using assms(1)
proof (cases rule: work_step.cases)
  case (work_take i pool)
  with wt take_jobs[OF work_take(2,3,4)] worker_inv[of "z_pool z" i pool] show ?thesis
    by (auto simp: wait_inv_def)
next
  case (work_run i task now w pool)
  with wt return_jobs[OF work_run(2,3,5)] worker_inv[of "z_pool z" i pool] show ?thesis
    by (auto simp: wait_inv_def)
next
  case (work_park i task now m w)
  have "size (add_mset (Job task) (jobs (z_pool z'))) = size (add_mset (JParked m) (jobs (z_pool z)))"
    using park_jobs[OF work_park(2,3), of "JParked m"] work_park(1) by simp
  with wt park_pool_inv[of "z_pool z" i "Job task" "JParked m"] work_park show ?thesis
    by (auto simp: wait_inv_def)
next
  case (work_resume i m err w pool)
  with wt return_jobs[OF work_resume(2,3,5)] worker_inv[of "z_pool z" i pool] show ?thesis
    by (auto simp: wait_inv_def)
qed (use wt in \<open>auto simp: wait_inv_def\<close>)

lemma wait_step:
  assumes "sys_step r z z'" and wt: "wait_inv z"
  shows "wait_inv z'"
  using assms(1)
proof (cases rule: sys_step.cases)
  case poll
  then show ?thesis by (cases rule: poll_step.cases) (use wt in \<open>auto simp: wait_inv_def\<close>)
next
  case timer
  then show ?thesis by (cases rule: timer_step.cases) (use wt in \<open>auto simp: wait_inv_def\<close>)
next
  case disp
  then show ?thesis
  proof (cases rule: disp_step.cases)
    case (disp_batch drain batch b now tasks w)
    with wt show ?thesis by (auto simp: wait_inv_def split: if_splits)
  next
    case (disp_submit drain task tasks pool)
    with wt submit_jobs[OF disp_submit(3)] Submit_inv[of "z_pool z" "Job task" pool] show ?thesis
      by (auto simp: wait_inv_def)
  next
    case (disp_wait drain)
    with wt show ?thesis by (auto simp: wait_inv_def)
  qed (use wt in \<open>auto simp: wait_inv_def\<close>)
next
  case work
  then show ?thesis by (rule wait_work[OF _ wt])
next
  case main
  then show ?thesis
  proof (cases rule: main_step.cases)
    case (main_poller pool)
    with wt stop_jobs[OF main_poller(4)] stop_pool_inv[OF _ main_poller(4)] show ?thesis
      by (auto simp: wait_inv_def)
  qed (use wt in \<open>auto simp: wait_inv_def\<close>)
qed (use wt in \<open>auto simp: wait_inv_def\<close>)

lemma phase_poll:
  assumes "poll_step r z z'" and ph: "phase_inv z"
  shows "phase_inv z'"
  using assms(1)
proof (cases rule: poll_step.cases)
  case (poll_receive j msgs t)
  with phase_open(3)[OF ph, of j] ph show ?thesis by (simp add: phase_inv_def)
next
  case (poll_message j m ms now res w)
  with phase_open(3)[OF ph, of j] ph show ?thesis by (simp add: phase_inv_def)
next
  case (poll_resume j m ms e w)
  with phase_open(3)[OF ph, of j] ph show ?thesis by (simp add: phase_inv_def)
next
  case (poll_next j)
  with phase_open(3)[OF ph, of j] ph show ?thesis by (simp add: phase_inv_def)
qed (use ph in \<open>auto simp: phase_inv_def\<close>)

lemma phase_disp:
  assumes "disp_step r z z'" and ph: "phase_inv z"
  shows "phase_inv z'"
  using assms(1)
proof (cases rule: disp_step.cases)
  case (disp_batch drain batch b now tasks w)
  then have "phase (z_main z) < 2" using phase_open(1)[OF ph] by (simp split: if_splits)
  with ph disp_batch show ?thesis by (auto simp: phase_inv_def)
next
  case (disp_submit drain task tasks pool)
  then have "phase (z_main z) < 2" using phase_open(1)[OF ph] by simp
  with ph disp_submit show ?thesis by (auto simp: phase_inv_def)
qed (use ph in \<open>auto simp: phase_inv_def\<close>)

lemma phase_work:
  assumes "work_step r z z'" and ph: "phase_inv z" and wt: "wait_inv z"
  shows "phase_inv z'"
  using assms(1)
proof (cases rule: work_step.cases)
  case (work_take i pool)
  have "phase (z_main z) < 5" by (rule worker_phase[OF ph wt work_take(2)]) (simp add: work_take(3))
  with ph work_take show ?thesis by (auto simp: phase_inv_def)
next
  case (work_run i task now w pool)
  have "phase (z_main z) < 5" by (rule worker_phase[OF ph wt work_run(2)]) (simp add: work_run(3))
  with ph work_run show ?thesis by (auto simp: phase_inv_def)
next
  case (work_park i task now m w)
  have "phase (z_main z) < 5" by (rule worker_phase[OF ph wt work_park(2)]) (simp add: work_park(3))
  with ph work_park show ?thesis by (auto simp: phase_inv_def)
next
  case (work_resume i m err w pool)
  have "phase (z_main z) < 5" by (rule worker_phase[OF ph wt work_resume(2)]) (simp add: work_resume(3))
  with ph work_resume show ?thesis by (auto simp: phase_inv_def)
qed (use ph in \<open>auto simp: phase_inv_def\<close>)

lemma phase_step:
  assumes "sys_step r z z'" and ph: "phase_inv z" and wt: "wait_inv z"
  shows "phase_inv z'"
  using assms(1)
proof (cases rule: sys_step.cases)
  case poll
  then show ?thesis by (rule phase_poll[OF _ ph])
next
  case timer
  then show ?thesis by (cases rule: timer_step.cases) (use ph in \<open>auto simp: phase_inv_def\<close>)
next
  case disp
  then show ?thesis by (rule phase_disp[OF _ ph])
next
  case work
  then show ?thesis by (rule phase_work[OF _ ph wt])
next
  case main
  then show ?thesis by (cases rule: main_step.cases) (use ph in \<open>auto simp: phase_inv_def\<close>)
qed (use ph in \<open>auto simp: phase_inv_def\<close>)

lemma task_work:
  assumes "work_step r z z'" and t: "task_inv r z"
  shows "task_inv r z'"
  using assms(1)
proof (cases rule: work_step.cases)
  case (work_take i pool)
  with t take_jobs[OF work_take(2,3,4)] show ?thesis by (auto simp: task_inv_def)
next
  case (work_run i task now w pool)
  with t return_jobs[OF work_run(2,3,5)] show ?thesis by (auto simp: task_inv_def)
next
  case (work_park i task now m w)
  have "set_mset (add_mset (Job task) (jobs (z_pool z'))) = set_mset (add_mset (JParked m) (jobs (z_pool z)))"
    using park_jobs[OF work_park(2,3), of "JParked m"] work_park(1) by simp
  then have "set_mset (jobs (z_pool z')) \<subseteq> insert (JParked m) (set_mset (jobs (z_pool z)))" by auto
  moreover have "disp_tasks (z_disp z') = disp_tasks (z_disp z)" using work_park(1) by simp
  ultimately show ?thesis using t by (auto simp: task_inv_def)
next
  case (work_resume i m err w pool)
  with t return_jobs[OF work_resume(2,3,5)] show ?thesis by (auto simp: task_inv_def)
qed (use t in \<open>auto simp: task_inv_def\<close>)

lemma task_step:
  assumes "sys_step r z z'" and t: "task_inv r z" and wt: "wait_inv z"
  shows "task_inv r z'"
  using assms(1)
proof (cases rule: sys_step.cases)
  case poll
  then show ?thesis by (cases rule: poll_step.cases) (use t in \<open>auto simp: task_inv_def\<close>)
next
  case timer
  then show ?thesis by (cases rule: timer_step.cases) (use t in \<open>auto simp: task_inv_def\<close>)
next
  case disp
  then show ?thesis
  proof (cases rule: disp_step.cases)
    case (disp_batch drain batch b now tasks w)
    with t dispatchBatch_ids(3)[OF disp_batch(5)] show ?thesis by (auto simp: task_inv_def)
  next
    case (disp_submit drain task tasks pool)
    with t submit_jobs[OF disp_submit(3)] show ?thesis by (auto simp: task_inv_def)
  qed (use t in \<open>auto simp: task_inv_def\<close>)
next
  case work
  then show ?thesis by (rule task_work[OF _ t])
next
  case main
  then show ?thesis
  proof (cases rule: main_step.cases)
    case (main_poller pool)
    with t wt stop_jobs[OF main_poller(4)] show ?thesis by (auto simp: task_inv_def wait_inv_def)
  qed (use t in \<open>auto simp: task_inv_def\<close>)
qed (use t in \<open>auto simp: task_inv_def\<close>)

text \<open>Nothing is lost before a cancellation.\<close>

lemma lost_step:
  assumes "sys_step r z z'" and l: "lost_inv z"
  shows "lost_inv z'"
  using assms(1)
proof (cases rule: sys_step.cases)
  case poll
  then show ?thesis by (cases rule: poll_step.cases) (use l in \<open>auto simp: lost_inv_def\<close>)
next
  case timer
  then show ?thesis
  proof (cases rule: timer_step.cases)
    case (ticker e wheel tk)
    from ticker(2) show ?thesis
      by (cases rule: Start_step.cases)
        (use l ticker in \<open>auto simp: lost_inv_def ticker_tick_def split: prod.splits if_splits\<close>)
  next
    case (timer_receive batch wheel tk)
    from timer_receive(3) show ?thesis
      by (cases rule: Start_step.cases) (use l timer_receive in \<open>auto simp: lost_inv_def\<close>)
  qed (use l in \<open>auto simp: lost_inv_def\<close>)
next
  case disp
  then show ?thesis by (cases rule: disp_step.cases) (use l in \<open>auto simp: lost_inv_def\<close>)
next
  case work
  then show ?thesis by (cases rule: work_step.cases) (use l in \<open>auto simp: lost_inv_def\<close>)
next
  case main
  then show ?thesis by (cases rule: main_step.cases) (use l in \<open>auto simp: lost_inv_def\<close>)
qed (use l in \<open>auto simp: lost_inv_def\<close>)

section \<open>Conservation\<close>

lemma timer_ids_wheel:
  "timer_ids wheel tk = image_mset m_ID (wheel_items wheel) + timer_ids wheel_New tk"
  using wheel_New_items[where 'a = Message] by (simp add: timer_ids_def)

lemma after_enqueue_rest: "feed_rest (after_enqueue res m ms) = ms"
  by (cases res) simp_all

lemma after_resume_rest: "feed_rest (after_resume e m ms) = ms"
  by (cases e) simp_all

lemma feeds_update:
  assumes "j < length ps"
  obtains rest where "feeds ps = ids (feed_rest (ps ! j)) + rest"
    and "\<And>q. feeds (ps[j := q]) = ids (feed_rest q) + rest"
  using assms
proof (induction ps arbitrary: j thesis)
  case (Cons p ps)
  show ?case
  proof (cases j)
    case 0
    then show ?thesis using Cons.prems(1)[of "feeds ps"] by (simp add: feeds_def)
  next
    case (Suc i)
    obtain rest where "feeds ps = ids (feed_rest (ps ! i)) + rest" "\<And>q. feeds (ps[i := q]) = ids (feed_rest q) + rest"
      using Cons.IH[of i] Cons.prems(2) Suc by auto
    then show ?thesis using Cons.prems(1)[of "ids (feed_rest p) + rest"] Suc by (simp add: feeds_def ac_simps)
  qed
qed simp

lemma feeds_quiet:
  assumes "\<forall>p\<in>set ps. p \<in> {FIdle, FReturned}"
  shows "feeds ps = {#}" and "feeds (map (\<lambda>_. FReturned) ps) = {#}"
  using assms by (induction ps) (auto simp: feeds_def)

lemma job_ids_jobs: "jobs p' = jobs p \<Longrightarrow> job_ids p' = job_ids p"
  by (simp add: job_ids_def)

lemma job_ids_add: "jobs p' = add_mset job (jobs p) \<Longrightarrow> job_ids p' = ids (job_msgs job) + job_ids p"
  by (simp add: job_ids_def)

lemma balance_poll:
  assumes "poll_step r z z'" and sh: "shared_inv z" and ph: "phase_inv z"
  shows "balance z' + z_received z = balance z + z_received z'"
  using assms(1)
proof (cases rule: poll_step.cases)
  case (poll_receive j msgs t)
  obtain rest where "feeds (z_polls z) = rest" "feeds ((z_polls z)[j := FRunning msgs]) = ids msgs + rest"
    using feeds_update[OF poll_receive(2)] poll_receive(3) by (metis feed_rest.simps(1,3) list.simps(8) mset.simps(1) add_0)
  with poll_receive(1) show ?thesis by (simp add: balance_def accounted_def ring_ids_def frame_simps ac_simps)
next
  case (poll_message j m ms now res w)
  from poll_message phase_open(3)[OF ph, of j] have p: "phase (z_main z) < 5" by simp
  obtain rest where "feeds (z_polls z) = ids (m # ms) + rest" "feeds ((z_polls z)[j := after_enqueue res m ms]) = ids ms + rest"
    using feeds_update[OF poll_message(2)] poll_message(3) by (metis after_enqueue_rest feed_rest.simps(1))
  with poll_one_ids[OF open_sys[OF sh p] poll_message(4)] poll_message(1) show ?thesis
    by (simp add: balance_def accounted_def timer_ids_wheel[of "x_wheel w"]
        timer_ids_wheel[of "x_wheel (z_world z)"] ac_simps)
next
  case (poll_resume j m ms e w)
  from poll_resume phase_open(3)[OF ph, of j] have p: "phase (z_main z) < 5" by simp
  have "feeds ((z_polls z)[j := after_resume e m ms]) = feeds (z_polls z)"
    using feeds_update[OF poll_resume(2)] poll_resume(3) by (metis after_resume_rest feed_rest.simps(2))
  with ring_resume_open(2,3)[OF open_sys[OF sh p] poll_resume(4)] poll_resume(1) show ?thesis
    by (simp add: balance_def accounted_def)
next
  case (poll_next j)
  have "feeds ((z_polls z)[j := FIdle]) = feeds (z_polls z)"
    using feeds_update[OF poll_next(2)] poll_next(3) by (metis feed_rest.simps(1,3))
  with poll_next(1) show ?thesis by (simp add: balance_def accounted_def)
next
  case (poll_return err)
  then show ?thesis by (simp add: balance_def accounted_def feeds_quiet)
qed

lemma balance_timer:
  assumes "timer_step r z z'" and sh: "shared_inv z" and ph: "phase_inv z"
  shows "balance z' + z_received z = balance z + z_received z'"
  using assms(1)
proof (cases rule: timer_step.cases)
  case (ticker e wheel tk)
  with ticker_ids[OF ticker(2) _ disjI1[OF ticker(3)]] sh show ?thesis
    by (simp add: balance_def accounted_def shared_inv_def ring_ids_def ac_simps)
next
  case (timer_receive batch wheel tk)
  with ticker_ids[OF timer_receive(3)] sh show ?thesis
    by (simp add: balance_def accounted_def shared_inv_def ring_ids_def ac_simps)
next
  case (timer_message m ms res w)
  from timer_message phase_open(2)[OF ph] have p: "phase (z_main z) < 5" by simp
  from enqueue_msg_ids[OF open_sys[OF sh p] timer_message(3)] timer_message(1,2) show ?thesis
    by (simp add: balance_def accounted_def after_enqueue_rest)
next
  case (timer_resume m ms e w)
  from timer_resume phase_open(2)[OF ph] have p: "phase (z_main z) < 5" by simp
  from ring_resume_open(2,3)[OF open_sys[OF sh p] timer_resume(3)] timer_resume(1,2) show ?thesis
    by (simp add: balance_def accounted_def after_resume_rest)
qed (auto simp: balance_def accounted_def ring_ids_def frame_simps timer_ids_def)

lemma balance_disp:
  assumes "disp_step r z z'" and sh: "shared_inv z" and ph: "phase_inv z"
  shows "balance z' + z_received z = balance z + z_received z'"
  using assms(1)
proof (cases rule: disp_step.cases)
  case (disp_none b)
  from disp_none phase_open(1)[OF ph] have p: "phase (z_main z) < 5" by simp
  from DequeueBatch_ids(1)[OF open_sys[OF sh p] disp_none(3)] disp_none(1,2) show ?thesis
    by (simp add: balance_def accounted_def)
next
  case (disp_drained b)
  from disp_drained phase_open(1)[OF ph] have p: "phase (z_main z) < 5" by simp
  from DequeueBatch_ids(1)[OF open_sys[OF sh p] disp_drained(3)] disp_drained(1,2) show ?thesis
    by (simp add: balance_def accounted_def)
next
  case (disp_batch drain batch b now tasks w)
  from disp_batch phase_open(1)[OF ph] have p: "phase (z_main z) < 5" by (simp split: if_splits)
  have "disp_tasks (z_disp z) = []" using disp_batch(2) by (simp split: if_splits)
  moreover have "ring_ids w + ids (assert_messages batch) = ring_ids (z_world z)"
    using DequeueBatch_ids(1)[OF open_sys[OF sh p] disp_batch(3)] dispatchBatch_ids(1)[OF disp_batch(5)]
    by (simp add: ring_ids_def)
  then have "ring_ids w + (call_ids (dispatch_calls r now batch ((z_world z)\<lparr>x_ring := b\<rparr>)) + ids (map task_msg tasks)) = ring_ids (z_world z)"
    by (simp only: dispatch_call_ids[OF disp_batch(5)])
  ultimately show ?thesis using disp_batch(1) dispatchBatch_ids(2)[OF disp_batch(5)]
    by (simp add: balance_def accounted_def ac_simps del: mset_map)
next
  case (disp_submit drain task tasks pool)
  with job_ids_add[OF conjunct1[OF submit_jobs[OF disp_submit(3)]]] show ?thesis
    by (simp add: balance_def accounted_def)
next
  case (disp_wait drain)
  then show ?thesis by (simp add: balance_def accounted_def)
qed (auto simp: balance_def accounted_def ring_ids_def frame_simps timer_ids_def)

lemma balance_work:
  assumes "work_step r z z'" and sh: "shared_inv z" and ph: "phase_inv z" and wt: "wait_inv z"
    and task: "task_inv r z" and keep: "coordinators_keep_ids r"
  shows "balance z' + z_received z = balance z + z_received z'"
  using assms(1)
proof (cases rule: work_step.cases)
  case (work_take i pool)
  with job_ids_jobs[OF conjunct1[OF take_jobs[OF work_take(2,3,4)]]] show ?thesis
    by (simp add: balance_def accounted_def)
next
  case (work_run i task now w pool)
  have p: "phase (z_main z) < 5" by (rule worker_phase[OF ph wt work_run(2)]) (simp add: work_run(3))
  have "known_task r task" by (rule known_running[OF task work_run(2,3)])
  from run_task_ids[OF keep this open_sys[OF sh p] work_run(4)]
    job_ids_add[OF conjunct1[OF return_jobs[OF work_run(2,3,5)]]] work_run(1)
  show ?thesis by (simp add: balance_def accounted_def add.assoc)
next
  case (work_park i task now m w)
  have p: "phase (z_main z) < 5" by (rule worker_phase[OF ph wt work_park(2)]) (simp add: work_park(3))
  have "known_task r task" by (rule known_running[OF task work_park(2,3)])
  note w = run_task_ids[OF keep this open_sys[OF sh p] work_park(4)]
  have "job_ids (z_pool z) =
      add_mset (m_ID (task_msg task)) (job_ids ((z_pool z)\<lparr>p_workers := (p_workers (z_pool z))[i := WRunning (JParked m)]\<rparr>))"
    using arg_cong[OF park_jobs[OF work_park(2,3), of "JParked m"], of "\<lambda>M. sum_mset (image_mset (\<lambda>job. ids (job_msgs job)) M)"]
    by (simp add: job_ids_def)
  moreover have "ring_ids w = add_mset (m_ID (task_msg task)) (ring_ids (z_world z))" using w by auto
  ultimately show ?thesis using w work_park(1) by (simp add: balance_def accounted_def)
next
  case (work_sleep i m w)
  have p: "phase (z_main z) < 5" by (rule worker_phase[OF ph wt work_sleep(2)]) (simp add: work_sleep(3))
  from ring_resume_open(2,3)[OF open_sys[OF sh p] work_sleep(4)] work_sleep(1) show ?thesis
    by (simp add: balance_def accounted_def)
next
  case (work_resume i m err w pool)
  have p: "phase (z_main z) < 5" by (rule worker_phase[OF ph wt work_resume(2)]) (simp add: work_resume(3))
  from ring_resume_open(2,3)[OF open_sys[OF sh p] work_resume(4)] work_resume(1)
    job_ids_add[OF conjunct1[OF return_jobs[OF work_resume(2,3,5)]]]
  show ?thesis by (simp add: balance_def accounted_def)
qed

lemma balance_main:
  assumes "main_step r z z'" and sh: "shared_inv z" and wt: "wait_inv z"
  shows "balance z' + z_received z = balance z + z_received z'"
  using assms(1)
proof (cases rule: main_step.cases)
  case (main_poller pool)
  with wt job_ids_jobs[OF conjunct1[OF stop_jobs[OF main_poller(4)]]] show ?thesis
    by (simp add: balance_def accounted_def wait_inv_def)
next
  case (main_pool order w w')
  note shutdown_drain_world[OF main_pool(5)] closed_store_frame(1,2)[OF main_pool(6)]
  moreover have "ring_inv (x_ring (z_world z))" using sh by (simp add: shared_inv_def)
  ultimately have "ring_ids w' = ring_ids (z_world z)" "wheel_items (x_wheel w') = {#}"
    by (simp_all add: ring_ids_def ring_Close_correct ring_Close_parked wheel_Drain_def wheel_slots_def bucket_keys_def)
  with main_pool(1) show ?thesis
    by (simp add: balance_def accounted_def timer_ids_wheel[of "x_wheel w'"] timer_ids_wheel[of "x_wheel (z_world z)"])
qed (auto simp: balance_def accounted_def ring_ids_def frame_simps timer_ids_def)

lemma balance_step:
  assumes "sys_step r z z'" and sh: "shared_inv z" and ph: "phase_inv z" and wt: "wait_inv z"
    and task: "task_inv r z" and keep: "coordinators_keep_ids r"
  shows "balance z' + z_received z = balance z + z_received z'"
  using assms(1)
proof (cases rule: sys_step.cases)
  case poll
  then show ?thesis by (rule balance_poll[OF _ sh ph])
next
  case timer
  then show ?thesis by (rule balance_timer[OF _ sh ph])
next
  case disp
  then show ?thesis by (rule balance_disp[OF _ sh ph])
next
  case work
  then show ?thesis by (rule balance_work[OF _ sh ph wt task keep])
next
  case main
  then show ?thesis by (rule balance_main[OF _ sh wt])
qed (auto simp: balance_def accounted_def ring_ids_def frame_simps timer_ids_def)

lemma sys_inv_step:
  assumes "sys_step r z z'" and "coordinators_keep_ids r" and "sys_inv r z"
  shows "sys_inv r z'"
proof -
  have i: "shared_inv z" "phase_inv z" "wait_inv z" "task_inv r z" "lost_inv z" "balance z = z_received z"
    using assms(3) by (simp_all add: sys_inv_def)
  have "balance z' = z_received z'"
    using balance_step[OF assms(1) i(1-4) assms(2)] i(6) by simp
  then show ?thesis
    using shared_step[OF assms(1) i(1-4) assms(2)] phase_step[OF assms(1) i(2,3)] wait_step[OF assms(1) i(3)]
      task_step[OF assms(1) i(4,3)] lost_step[OF assms(1) i(5)]
    by (simp add: sys_inv_def)
qed

lemma sys_inv_run: "sys_run r z z' \<Longrightarrow> coordinators_keep_ids r \<Longrightarrow> sys_inv r z \<Longrightarrow> sys_inv r z'"
  by (induction rule: sys_run.induct) (auto intro: sys_inv_step)

lemma running_idle: "concat (map worker_task (replicate n WIdle)) = []"
  by (induction n) simp_all

lemma started_jobs: "pool_inv (pool_Start (pool_New n))" "jobs (pool_Start (pool_New n)) = {#}"
  "\<not> p_closed (pool_Start (pool_New n))"
  using Start_inv[OF pool_New_inv[of n]]
  by (simp_all add: jobs_def running_def pool_Start_eq pool_New_def Let_def running_idle)

lemma sys_inv_start:
  assumes "fresh_world w"
  shows "sys_inv r (sys_start w n k)"
proof -
  have w: "open_world w" "holdings w = {#}" using assms by (simp_all add: fresh_world_def)
  have "item_ids (holdings w) = {#}" using w(2) by simp
  then have "ring_ids w = {#}" "image_mset m_ID (wheel_items (x_wheel w)) = {#}" by (simp_all add: holdings_ids)
  then have "balance (sys_start w n k) = {#}"
    using timer_ids_wheel[of "x_wheel w" ticker_New] timer_ids_wheel[of wheel_New ticker_New]
      wheel_New_items[where 'a = Message]
    by (simp add: balance_def accounted_def sys_start_def started_jobs job_ids_def timer_ids_def ticker_New_def feeds_quiet(1))
  then show ?thesis
    using w(1)
    by (simp add: sys_inv_def shared_inv_def phase_inv_def wait_inv_def task_inv_def lost_inv_def sys_start_def
        open_world_def ticker_New_def started_pool started_jobs)
qed

end
