(* ===== verification/System_Runs.thy ===== *)
theory System_Runs
  imports System_Inv
begin

text \<open>
  Runs of the transition system: that no message is lost and no work is left when \<open>Run\<close> returns, and
  a run into a deadlock by a local retry.
\<close>

section \<open>Jammed rings, parked workers\<close>

text \<open>The ring is full and no wake-up is on its way.\<close>

definition jammed :: "('t, 's, 'h) world \<Rightarrow> bool" where
  "jammed w \<longleftrightarrow> open_world w \<and> ring_cap (x_ring w) \<le> length (contents (x_ring w)) \<and> woken (b_cond (x_ring w)) = []"

text \<open>The dispatcher waits for a batch all of whose workers are parked at the jammed ring.\<close>

definition stuck :: "('t, 's, 'h) sys \<Rightarrow> bool" where
  "stuck z \<longleftrightarrow> jammed (z_world z) \<and> (\<exists>drain. z_disp z = DWait drain) \<and> 0 < z_wg z \<and>
     (\<forall>i<length (p_workers (z_pool z)). \<exists>m. p_workers (z_pool z) ! i = WRunning (JParked m)) \<and>
     phase (z_main z) < 2"

text \<open>
  A pipeline whose handler asks for a retry under the coordinator of package \<open>retry\<close> (three
  retries), and one whose handler always succeeds.
\<close>

definition retry_entry :: "unit handlerEntry" where
  "retry_entry = \<lparr>e_fn = \<lambda>h raw. (ask_retry, h), e_maxRetries = 10, e_baseDelay = 1 * Second,
     e_coordinator = Some (\<lambda>h msg res. (coord_outcome (NewCoordinator \<lparr>c_MaxRetries = 0, c_BaseDelay = 0,
       c_OnRetry = False, c_OnDLQ = False\<rparr>) msg res, h))\<rparr>"

definition retry_runtime :: "(mem \<times> t_call list, MemoryStore, unit) runtime" where
  "retry_runtime = sample_runtime\<lparr>rt_handlers := [''t'' \<mapsto> retry_entry]\<rparr>"

definition ok_entry :: "unit handlerEntry" where
  "ok_entry = \<lparr>e_fn = \<lambda>h raw. (\<lparr>r_Action = Ack, r_Delay = 0, r_Err = None\<rparr>, h), e_maxRetries = 10,
     e_baseDelay = 1 * Second, e_coordinator = None\<rparr>"

definition ok_runtime :: "(mem \<times> t_call list, MemoryStore, unit) runtime" where
  "ok_runtime = sample_runtime\<lparr>rt_handlers := [''t'' \<mapsto> ok_entry]\<rparr>"

text \<open>An idle pipeline of one worker whose goroutines have returned after a cancellation.\<close>

definition stopping :: "main_pc \<Rightarrow> (mem \<times> t_call list, MemoryStore, unit) sys" where
  "stopping pc = (let z = sys_start (sample_world []) 1 1
     in z\<lparr>z_ctx := True, z_dispDone := True, z_pollDone := True, z_tick := (z_tick z)\<lparr>tk_ctxDone := True\<rparr>,
          z_main := pc, z_disp := DReturned, z_polls := [FReturned], z_timer := FReturned\<rparr>)"

text \<open>A one-slot ring, and a pipeline with one message taken and another one in the slot.\<close>

definition one_slot :: "Message iface \<Rightarrow> goint \<Rightarrow> goint \<Rightarrow> Message buffer" where
  "one_slot item head tail = sample_ring\<lparr>b_items := [item], b_head := head, b_tail := tail, b_count := head - tail,
     b_headA := head, b_tailA := tail\<rparr>"

definition crowded :: "(mem \<times> t_call list, MemoryStore, unit) sys" where
  "crowded = (sys_start (sample_world []) 1 1)\<lparr>z_polls := [FRunning []], z_received := {#''1'', ''1''#},
     z_disp := DSubmit False [task_of retry_runtime (sample_msg 0)],
     z_world := (sample_world [])\<lparr>x_ring := one_slot (Some (sample_msg 2)) 2 1\<rparr>\<rparr>"

text \<open>Dead-letter sends succeed, and every outcome has a known action.\<close>

definition dependable :: "('t, 's, 'h) runtime \<Rightarrow> bool" where
  "dependable r \<longleftrightarrow> (\<forall>t m. fst (t_SendToDLQ (rt_transport r) t m) = None) \<and>
     (\<forall>topic entry h msg a. rt_handlers r topic = Some entry \<longrightarrow> o_Action (outcome_of r h msg entry) \<noteq> OtherAction a)"

section \<open>Nothing left with the broker\<close>

lemma dependable_leaves:
  assumes "dependable r" and "known_task r task"
  shows "leaves r w task = {#}"
proof (cases task)
  case (Process msg entry)
  then have "rt_handlers r (m_Topic msg) = Some entry"
    using assms(2) by (auto simp: known_task_def task_of_def split: option.splits)
  with assms(1) Process show ?thesis by (auto simp: dependable_def leaves_def fate_of_def split: Action.splits)
qed (use assms(1) in \<open>simp add: dependable_def leaves_def\<close>)

lemma left_step:
  assumes "sys_step r z z'" and "\<And>task. Job task \<in># jobs (z_pool z) \<Longrightarrow> leaves r (z_world z) task = {#}"
  shows "z_left z' = z_left z"
  using assms(1)
proof (cases rule: sys_step.cases)
  case work
  then show ?thesis by (cases rule: work_step.cases) (use assms(2)[OF job_running] in simp_all)
qed (auto elim: poll_step.cases timer_step.cases disp_step.cases main_step.cases)

lemma left_run:
  assumes "sys_run r z z'" and "coordinators_keep_ids r" and "sys_inv r z" and "dependable r"
  shows "z_left z' = z_left z"
  using assms
proof (induction rule: sys_run.induct)
  case (step z z' z'')
  have "task_inv r z'" using sys_inv_run[OF step.hyps(1) step.prems(1,2)] by (simp add: sys_inv_def)
  then have "known_task r task" if "Job task \<in># jobs (z_pool z')" for task using that by (auto simp: task_inv_def)
  from left_step[OF step.hyps(2) dependable_leaves[OF step.prems(3) this]] step show ?case by simp
qed simp

section \<open>Deadlock\<close>

lemma enqueue_msg_jammed:
  assumes "jammed w" and "enqueue_msg m w = (res, w')"
  shows "jammed w'" and "res = Blocked m"
proof -
  have ring: "ring_inv (x_ring w)" "\<not> b_closed (x_ring w)" "b_policy (x_ring w) = Block"
    "ring_cap (x_ring w) \<le> length (contents (x_ring w))"
    using assms(1) by (simp_all add: open_world_def jammed_def)
  have "unat (b_count (x_ring w)) = ring_cap (x_ring w)" using full_iff[OF ring(1)] ring(4) by simp
  then have "Enqueue (x_ring w) (Some m) = (Waiting, (x_ring w)\<lparr>b_cond := cond_Wait (b_cond (x_ring w)) (Some m)\<rparr>)"
    using ring count_capacity_cmp[OF ring(1)] by (simp add: Enqueue_def Enqueue_loop_def)
  then have "w' = w\<lparr>x_ring := (x_ring w)\<lparr>b_cond := cond_Wait (b_cond (x_ring w)) (Some m)\<rparr>\<rparr>" "res = Blocked m"
    using assms(2) by (simp_all add: enqueue_msg_def)
  then show "jammed w'" and "res = Blocked m" using assms(1) by (simp_all add: open_world_def jammed_def cond_Wait_def)
qed

lemma poll_one_jammed:
  assumes "jammed w" and "poll_one r now m w = Inr (res, w')"
  shows "jammed w'"
proof (cases "m_NotBefore m > 0")
  case True
  then have "x_ring w' = x_ring w" using assms(2) by (auto simp: poll_one_def Let_def frame_simps split: sum.splits)
  moreover have "open_world w'" using poll_one_open[OF _ assms(2)] assms(1) by (simp add: jammed_def)
  ultimately show ?thesis using assms(1) by (simp add: jammed_def)
next
  case False
  let ?w = "log_events (fire (h_OnDispatch (rt_hooks r)) (OnDispatch (m_Topic m))) w"
  have "jammed ?w" using assms(1) by (simp add: jammed_def open_world_def frame_simps)
  moreover have "enqueue_msg m ?w = (res, w')" using assms(2) False by (simp add: poll_one_def Let_def)
  ultimately show ?thesis by (rule enqueue_msg_jammed(1))
qed

lemma jammed_frame:
  "jammed w \<Longrightarrow> jammed (log_events es w)" "jammed w \<Longrightarrow> jammed (w\<lparr>x_transport := t\<rparr>)"
  "jammed w \<Longrightarrow> wheel_inv wheel \<Longrightarrow> \<not> w_closed wheel \<Longrightarrow> jammed (w\<lparr>x_wheel := wheel\<rparr>)"
  by (simp_all add: jammed_def open_world_def frame_simps)

lemma ring_resume_none: "jammed w \<Longrightarrow> ring_resume m w = None"
  by (simp add: ring_resume_def jammed_def)

lemma stuck_step:
  assumes "sys_step r z z'" and st: "stuck z"
  shows "stuck z'"
  using assms(1)
proof (cases rule: sys_step.cases)
  case poll
  then show ?thesis
  proof (cases rule: poll_step.cases)
    case (poll_receive j msgs t)
    with st show ?thesis by (simp add: stuck_def jammed_frame)
  next
    case (poll_message j m ms now res w)
    with st poll_one_jammed[OF _ poll_message(4)] show ?thesis by (simp add: stuck_def)
  qed (use st in \<open>auto simp: stuck_def ring_resume_none\<close>)
next
  case timer
  then show ?thesis
  proof (cases rule: timer_step.cases)
    case (ticker e wheel tk)
    with st ticker_ids[OF ticker(2) _ disjI1[OF ticker(3)]] show ?thesis
      by (simp add: stuck_def jammed_def open_world_def)
  next
    case (timer_receive batch wheel tk)
    with st ticker_ids[OF timer_receive(3)] show ?thesis by (simp add: stuck_def jammed_def open_world_def)
  next
    case (timer_message m ms res w)
    with st enqueue_msg_jammed(1)[OF _ timer_message(3)] show ?thesis by (simp add: stuck_def)
  qed (use st in \<open>auto simp: stuck_def ring_resume_none\<close>)
next
  case disp
  then show ?thesis
  proof (cases rule: disp_step.cases)
    case (disp_batch drain batch b now tasks w)
    with st show ?thesis by (auto simp: stuck_def split: if_splits)
  qed (use st in \<open>auto simp: stuck_def ring_resume_none\<close>)
next
  case work
  then show ?thesis by (cases rule: work_step.cases) (use st in \<open>auto simp: stuck_def ring_resume_none\<close>)
next
  case main
  then show ?thesis by (cases rule: main_step.cases) (use st in \<open>auto simp: stuck_def ring_resume_none\<close>)
qed (use st in \<open>auto simp: stuck_def ring_resume_none\<close>)

lemma stuck_run: "sys_run r z z' \<Longrightarrow> stuck z \<Longrightarrow> stuck z'"
  by (induction rule: sys_run.induct) (auto intro: stuck_step)

text \<open>The run into the deadlock: one slot, one worker, two messages.\<close>

lemma one_slot_ops:
  "sample_ring = one_slot None 0 0"
  "Enqueue (one_slot None h h) (Some m) = (Returned None, one_slot (Some m) (h + 1) h)"
  "DequeueBatch (one_slot (Some m) (h + 1) h) 10 = ([Some m], one_slot None (h + 1) (h + 1))"
  "Enqueue (one_slot (Some m) (h + 1) h) (Some m') =
     (Waiting, (one_slot (Some m) (h + 1) h)\<lparr>b_cond := \<lparr>waiting = [Some m'], woken = []\<rparr>\<rparr>)"
  by (simp_all add: one_slot_def sample_ring_def Enqueue_def Enqueue_loop_def ring_put_def slot_of_def
      DequeueBatch_def Let_def go_simps)

lemma retry_task_parks:
  assumes "x_ring w = one_slot (Some m) (h + 1) h"
  shows "\<exists>w'. run_task retry_runtime now (task_of retry_runtime (sample_msg 0)) w = Inr (Blocked (sample_msg 1), w') \<and>
    x_ring w' = (one_slot (Some m) (h + 1) h)\<lparr>b_cond := \<lparr>waiting = [Some (sample_msg 1)], woken = []\<rparr>\<rparr>"
proof -
  have t: "task_of retry_runtime (sample_msg 0) = Process (sample_msg 0) retry_entry"
    by (simp add: task_of_def retry_runtime_def sample_msg_def)
  have o: "outcome_of retry_runtime () (sample_msg 0) retry_entry =
      \<lparr>o_Action = Retry, o_Message = sample_msg 1, o_Delay = 0, o_Err = None\<rparr>"
    by (simp add: outcome_of_def resolveOutcome_def retry_entry_def coord_outcome_def coord_Handle_def NewCoordinator_def
        retry_Defaults_def ask_retry_def sample_msg_def wrap64_def Let_def)
  obtain w1 where "x_ring w1 = x_ring w"
    and "processMessage retry_runtime now (sample_msg 0) retry_entry w = process_switch retry_runtime now (sample_msg 0)
      (outcome_of retry_runtime (x_user w) (sample_msg 0) retry_entry) w1"
    by (rule processMessage_switch)
  with assms show ?thesis
    by (simp add: t o process_switch_def settle_Retry_def enqueue_msg_def frame_simps one_slot_ops)
qed

lemma retry_runtime_ids: "coordinators_keep_ids retry_runtime"
proof -
  have "m_ID (o_Message (coord_outcome c msg res)) = m_ID msg" for c msg res
    by (cases "r_Action res") (simp_all add: coord_outcome_def coord_Handle_def coord_exhausted_def Let_def)
  then show ?thesis by (auto simp: coordinators_keep_ids_def retry_runtime_def retry_entry_def split: if_splits)
qed

lemma sample_world_fresh: "fresh_world (sample_world [])"
  using sample_world_idle[of "[]"] wheel_New_items[where 'a = Message]
  by (simp add: fresh_world_def idle_world_def holdings_def sample_world_def sample_ring_facts parked_def go_simps)

lemma retry_runtime_sel: "rt_hooks retry_runtime = no_hooks" "rt_idemFilter retry_runtime = None"
  by (simp_all add: retry_runtime_def sample_runtime_def)

lemma crowded_reachable: "sys_run retry_runtime (sys_start (sample_world []) 1 1) crowded"
proof -
  let ?r = retry_runtime and ?m1 = "sample_msg 0" and ?m2 = "sample_msg 2"
  let ?task = "task_of ?r ?m1" and ?z0 = "sys_start (sample_world []) 1 1"
  note ev = sys_start_def poll_one_def log_events_def fire_def retry_runtime_sel no_hooks_def enqueue_msg_def
  have nb: "\<not> m_NotBefore (sample_msg n) > 0" "m_ID (sample_msg n) = ''1''" for n by (simp_all add: sample_msg_def)
  define z1 where "z1 = ?z0\<lparr>z_polls := [FRunning [?m1, ?m2]], z_received := {#''1'', ''1''#}\<rparr>"
  have "sys_step ?r ?z0 z1"
    using sys_poll_receive[of 0 ?z0 ?r "[?m1, ?m2]" "x_transport (sample_world [])"] nb by (simp add: z1_def ev)
  then have r1: "sys_run ?r ?z0 z1" by (rule sys_run.step[OF sys_run.refl])
  define z2 where "z2 = z1\<lparr>z_polls := [FRunning [?m2]], z_world := (sample_world [])\<lparr>x_ring := one_slot (Some ?m1) 1 0\<rparr>\<rparr>"
  have "sys_step ?r z1 z2"
    using sys_poll_message[of 0 z1 ?m1 "[?m2]" ?r "at_second 0" Finished "z_world z2"] nb one_slot_ops(2)[of 0]
    by (simp add: z2_def z1_def ev sample_world_def one_slot_ops(1))
  then have r2: "sys_run ?r ?z0 z2" by (rule sys_run.step[OF r1])
  define z3 where "z3 = z2\<lparr>z_disp := DDeq\<rparr>"
  have "sys_step ?r z2 z3" using sys_disp_top[of z2 ?r] by (simp add: z3_def z2_def z1_def sys_start_def)
  then have r3: "sys_run ?r ?z0 z3" by (rule sys_run.step[OF r2])
  define z4 where "z4 = z3\<lparr>z_disp := DSubmit False [?task], z_world := (sample_world [])\<lparr>x_ring := one_slot None 1 1\<rparr>\<rparr>"
  have "sys_step ?r z3 z4"
    using sys_disp_batch[of z3 False "[Some ?m1]" "one_slot None 1 1" ?r "\<lambda>_. at_second 0" "[?task]" "z_world z4"]
      one_slot_ops(3)[of ?m1 0]
    by (simp add: z4_def z3_def z2_def z1_def ev dispatchBatch_def unfiltered_calls)
  then have r4: "sys_run ?r ?z0 z4" by (rule sys_run.step[OF r3])
  have "sys_step ?r z4 crowded"
    using sys_poll_message[of 0 z4 ?m2 "[]" ?r "at_second 0" Finished "z_world crowded"] nb one_slot_ops(2)[of 1]
    by (simp add: crowded_def z4_def z3_def z2_def z1_def ev)
  then show ?thesis by (rule sys_run.step[OF r4])
qed

lemma deadlock_reachable: "\<exists>z. sys_run retry_runtime (sys_start (sample_world []) 1 1) z \<and> stuck z"
proof -
  let ?r = retry_runtime and ?task = "task_of retry_runtime (sample_msg 0)" and ?z0 = "sys_start (sample_world []) 1 1"
  have pool: "pool_Start (pool_New 1) = \<lparr>p_workCh = [], p_cap = 1, p_closed = False, p_wg = 1, p_started = True,
      p_workers = [WIdle], p_ran = []\<rparr>" by (simp add: pool_Start_eq pool_New_def)
  note ev = crowded_def sys_start_def pool
  define z6 where "z6 = crowded\<lparr>z_disp := DSubmit False [], z_pool := (z_pool crowded)\<lparr>p_workCh := [Job ?task]\<rparr>, z_wg := 1\<rparr>"
  have "sys_step ?r crowded z6"
    using sys_disp_submit[of crowded False ?task "[]" "z_pool z6" ?r] by (simp add: z6_def ev pool_Submit_def)
  then have r6: "sys_run ?r ?z0 z6" by (rule sys_run.step[OF crowded_reachable])
  define z7 where "z7 = z6\<lparr>z_disp := DWait False\<rparr>"
  have "sys_step ?r z6 z7" using sys_disp_submitted[of z6 False ?r] by (simp add: z7_def z6_def)
  then have r7: "sys_run ?r ?z0 z7" by (rule sys_run.step[OF r6])
  define z8 where "z8 = z7\<lparr>z_pool := (z_pool z7)\<lparr>p_workCh := [], p_workers := [WRunning (Job ?task)]\<rparr>\<rparr>"
  have "sys_step ?r z7 z8"
    using sys_work_take[of 0 z7 "z_pool z8" ?r] by (simp add: z8_def z7_def z6_def ev worker_step_def)
  then have r8: "sys_run ?r ?z0 z8" by (rule sys_run.step[OF r7])
  have ring: "x_ring (z_world z8) = one_slot (Some (sample_msg 2)) (1 + 1) 1" by (simp add: z8_def z7_def z6_def ev)
  obtain w where w: "run_task ?r (at_second 0) ?task (z_world z8) = Inr (Blocked (sample_msg 1), w)"
    "x_ring w = (one_slot (Some (sample_msg 2)) (1 + 1) 1)\<lparr>b_cond := \<lparr>waiting = [Some (sample_msg 1)], woken = []\<rparr>\<rparr>"
    using retry_task_parks[OF ring] by blast
  define z9 where "z9 = z8\<lparr>z_pool := (z_pool z8)\<lparr>p_workers := [WRunning (JParked (sample_msg 1))]\<rparr>, z_world := w,
    z_calls := z_calls z8 @ task_calls ?r (at_second 0) ?task (z_world z8)\<rparr>"
  have "sys_step ?r z8 z9"
    using sys_work_park[of 0 z8 ?task ?r "at_second 0" "sample_msg 1" w] w(1) by (simp add: z9_def z8_def)
  then have r9: "sys_run ?r ?z0 z9" by (rule sys_run.step[OF r8])
  have main: "phase (z_main z9) < 2" by (simp add: z9_def z8_def z7_def z6_def ev)
  have "open_world (z_world z9)"
    using open_sys[of z9] main sys_inv_run[OF r9 retry_runtime_ids sys_inv_start[OF sample_world_fresh]]
    by (simp add: sys_inv_def)
  moreover have "ring_cap (x_ring w) \<le> length (contents (x_ring w))"
    by (simp add: w(2) ring_cap_def one_slot_def sample_ring_def)
  ultimately have "stuck z9" using w(2) main by (auto simp: stuck_def jammed_def z9_def z8_def z7_def z6_def)
  with r9 show ?thesis by blast
qed

section \<open>A shutdown\<close>

lemma ok_runtime_ids: "coordinators_keep_ids ok_runtime"
  by (auto simp: coordinators_keep_ids_def ok_runtime_def ok_entry_def sample_runtime_def split: if_splits)

text \<open>An idle pipeline that is cancelled shuts down.\<close>

lemma idle_stops:
  "sys_run ok_runtime (sys_start (sample_world []) 1 1) (stopping MWaitTimer)"
proof -
  let ?r = ok_runtime and ?z0 = "sys_start (sample_world []) 1 1"
  have deq: "DequeueBatch sample_ring k = ([], sample_ring)" for k by (simp add: DequeueBatch_def sample_ring_def)
  note ev = sys_start_def stopping_def sample_world_def
  define z1 where "z1 = ?z0\<lparr>z_ctx := True, z_dispDone := True, z_pollDone := True, z_tick := (z_tick ?z0)\<lparr>tk_ctxDone := True\<rparr>\<rparr>"
  have "sys_step ?r ?z0 z1" using sys_step.cancel[of ?r ?z0] by (simp add: z1_def)
  then have r1: "sys_run ?r ?z0 z1" by (rule sys_run.step[OF sys_run.refl])
  have "sys_step ?r z1 (z1\<lparr>z_main := MWaitDisp\<rparr>)" (is "sys_step _ _ ?z2")
    using sys_main_select[of z1 ?r] by (simp add: z1_def ev)
  then have r2: "sys_run ?r ?z0 ?z2" by (rule sys_run.step[OF r1])
  have "sys_step ?r ?z2 (?z2\<lparr>z_disp := DDrain\<rparr>)" (is "sys_step _ _ ?z3")
    using sys_disp_top[of ?z2 ?r] by (simp add: z1_def ev)
  then have r3: "sys_run ?r ?z0 ?z3" by (rule sys_run.step[OF r2])
  have "sys_step ?r ?z3 (?z3\<lparr>z_disp := DReturned\<rparr>)" (is "sys_step _ _ ?z4")
    using sys_disp_drained[of ?z3 sample_ring ?r] deq by (simp add: z1_def ev)
  then have r4: "sys_run ?r ?z0 ?z4" by (rule sys_run.step[OF r3])
  have "sys_step ?r ?z4 (?z4\<lparr>z_main := MWaitTimer\<rparr>)" (is "sys_step _ _ ?z5")
    using sys_main_disp[of ?z4 ?r] by (simp add: z1_def ev)
  then have r5: "sys_run ?r ?z0 ?z5" by (rule sys_run.step[OF r4])
  have "sys_step ?r ?z5 (?z5\<lparr>z_polls := [FReturned]\<rparr>)" (is "sys_step _ _ ?z6")
    using sys_poll_return[of ?z5 ?r None] by (simp add: z1_def ev)
  then have r6: "sys_run ?r ?z0 ?z6" by (rule sys_run.step[OF r5])
  have "sys_step ?r ?z6 (stopping MWaitTimer)"
    using sys_timer_return[of ?z6 ?r] by (simp add: z1_def ev)
  then show ?thesis by (rule sys_run.step[OF r6])
qed

lemma idle_returns: "\<exists>z. sys_run ok_runtime (sys_start (sample_world []) 1 1) z \<and> z_main z = MReturned"
proof -
  let ?r = ok_runtime and ?z0 = "sys_start (sample_world []) 1 1" and ?z7 = "stopping MWaitTimer"
  have pool: "pool_Start (pool_New 1) = \<lparr>p_workCh = [], p_cap = 1, p_closed = False, p_wg = 1, p_started = True,
      p_workers = [WIdle], p_ran = []\<rparr>" by (simp add: pool_Start_eq pool_New_def)
  note ev = sys_start_def stopping_def pool
  define t where "t = (snd (mem_Close (fst (x_transport (z_world ?z7)))), calls (z_world ?z7) @ [CClose])"
  define z8 where "z8 = ?z7\<lparr>z_main := MWaitPoller, z_world := (z_world ?z7)\<lparr>x_transport := t\<rparr>, z_calls := [CClose]\<rparr>"
  have "t_Close (rt_transport ?r) (x_transport (z_world ?z7)) = Inr (None, t)"
    by (simp add: t_def ok_runtime_def sample_runtime_def logged_def recorded_go_def MemoryTransport_def mem_Close_def)
  from sys_main_timer[OF _ _ this] have "sys_step ?r ?z7 z8" by (simp add: z8_def ev)
  then have r8: "sys_run ?r ?z0 z8" by (rule sys_run.step[OF idle_stops])
  define z9 where "z9 = z8\<lparr>z_main := MWaitPool, z_pool := (z_pool z8)\<lparr>p_closed := True\<rparr>\<rparr>"
  have "sys_step ?r z8 z9"
    using sys_main_poller[of z8 "z_pool z9" ?r] by (simp add: z9_def z8_def ev pool_StopDispatching_def)
  then have r9: "sys_run ?r ?z0 z9" by (rule sys_run.step[OF r8])
  define z10 where "z10 = z9\<lparr>z_pool := (z_pool z9)\<lparr>p_wg := 0, p_workers := [WExited]\<rparr>\<rparr>"
  have "sys_step ?r z9 z10"
    using sys_work_take[of 0 z9 "z_pool z10" ?r] by (simp add: z10_def z9_def z8_def ev worker_step_def)
  then have r10: "sys_run ?r ?z0 z10" by (rule sys_run.step[OF r9])
  have "x_wheel (z_world z10) = wheel_New" by (simp add: z10_def z9_def z8_def ev sample_world_def frame_simps)
  then have "iteration_order (x_wheel (z_world z10)) []" by (simp add: iteration_order_def wheel_New_def bucket_keys_def)
  moreover obtain w where "shutdown_drain [] (z_world z10) = (PollDone, w)"
    by (simp add: shutdown_drain_def wheel_Drain_def)
  moreover have "z_main z10 = MWaitPool" "pool_Wait (z_pool z10)"
    by (simp_all add: z10_def z9_def z8_def ev pool_Wait_def)
  moreover have "rt_idemFilter ?r = None" by (simp add: ok_runtime_def sample_runtime_def)
  ultimately have "\<exists>z. sys_step ?r z10 z \<and> z_main z = MReturned"
    using sys_main_pool[of z10 "[]" w w ?r] by auto
  then show ?thesis using sys_run.step[OF r10] by blast
qed

section \<open>Properties\<close>

text \<open>C3. No message is lost while the pipeline runs: in every interleaving of the poller, the
  timer, the dispatcher and the workers, each received message is, exactly as often as it
  was received, in one place (rest of a batch, ring, parked at the ring, wheel, ticker or
  its channel, tasks to submit, pool), or acknowledged or handed back by a call the pipeline
  has made on the transport, or left with the broker, or lost; the losses are after a
  cancellation only, and nothing is left with the broker unless a dead-letter send fails
  or an outcome has an unknown action.\<close>

theorem pipeline_conserves:
  assumes "sys_run r (sys_start w n k) z" and "fresh_world w" and "coordinators_keep_ids r"
  shows "feeds (z_polls z) + ids (feed_rest (z_timer z)) + ring_ids (z_world z) + timer_ids (x_wheel (z_world z)) (z_tick z) +
      ids (map task_msg (disp_tasks (z_disp z))) + job_ids (z_pool z) + call_ids (z_calls z) + z_left z + z_lost z = z_received z \<and>
    (\<not> tk_ctxDone (z_tick z) \<longrightarrow> z_lost z = {#}) \<and> (dependable r \<longrightarrow> z_left z = {#})"
proof -
  note start = sys_inv_start[OF assms(2), of r n k]
  have "sys_inv r z" by (rule sys_inv_run[OF assms(1,3) start])
  moreover have "z_left z = {#}" if "dependable r"
    using left_run[OF assms(1,3) start that] by (simp add: sys_start_def)
  ultimately show ?thesis by (auto simp: sys_inv_def balance_def accounted_def lost_inv_def)
qed

theorem pipeline_conserves_witness:
  "sys_run retry_runtime (sys_start (sample_world []) 1 1) crowded \<and> {#''1'', ''1''#} =
     ring_ids (z_world crowded) + ids (map task_msg (disp_tasks (z_disp crowded)))"
  using pipeline_conserves[OF crowded_reachable sample_world_fresh retry_runtime_ids] crowded_reachable
    wheel_New_items[where 'a = Message]
  by (simp add: crowded_def sys_start_def ticker_New_def feeds_def timer_ids_def job_ids_def started_jobs sample_world_def)

text \<open>C19. Graceful shutdown finishes the work in flight: when \<open>Run\<close> returns, the dispatcher, the
  poller and the timer have returned, no task is queued or running and every batch has
  completed; what was received is settled by a call, or left with the broker, or was lost from the timer, or was left in the
  ring or the ticker's channel by a goroutine that outlived the dispatcher.\<close>

theorem run_returns_no_inflight:
  assumes "sys_run r (sys_start w n k) z" and "fresh_world w" and "coordinators_keep_ids r" and "z_main z = MReturned"
  shows "z_disp z = DReturned \<and> (\<forall>p\<in>set (z_polls z). p = FReturned) \<and> z_timer z = FReturned \<and> jobs (z_pool z) = {#} \<and> z_wg z = 0 \<and>
    pool_Wait (z_pool z) \<and> b_closed (x_ring (z_world z)) \<and> wheel_items (x_wheel (z_world z)) = {#} \<and>
    z_received z = z_settled z + z_left z + z_lost z + ring_ids (z_world z) + timer_ids (x_wheel (z_world z)) (z_tick z)"
proof -
  have inv: "shared_inv z" "phase_inv z" "wait_inv z" "balance z = z_received z"
    using sys_inv_run[OF assms(1,3) sys_inv_start[OF assms(2)]] by (simp_all add: sys_inv_def)
  have pcs: "z_disp z = DReturned" "z_timer z = FReturned" "\<forall>p\<in>set (z_polls z). p = FReturned" "pool_Wait (z_pool z)"
    using inv(2) assms(4) by (simp_all add: phase_inv_def)
  then have jobs: "z_wg z = 0" "jobs (z_pool z) = {#}" using inv(3) by (auto simp: wait_inv_def)
  have "w_buckets (x_wheel (z_world z)) = None" "b_closed (x_ring (z_world z))"
    using inv(1) assms(4) by (auto simp: shared_inv_def wheel_inv_def)
  then show ?thesis
    using pcs jobs inv(4) feeds_quiet(1)[of "z_polls z"] by (simp add: balance_def accounted_def job_ids_def wheel_slots_def bucket_keys_def ac_simps)
qed

theorem run_returns_no_inflight_witness:
  "\<exists>z. sys_run ok_runtime (sys_start (sample_world []) 1 1) z \<and> z_main z = MReturned \<and> jobs (z_pool z) = {#}"
proof -
  obtain z where z: "sys_run ok_runtime (sys_start (sample_world []) 1 1) z" "z_main z = MReturned"
    using idle_returns by blast
  from run_returns_no_inflight[OF z(1) sample_world_fresh ok_runtime_ids z(2)] z show ?thesis by blast
qed

text \<open>C24. A local retry can deadlock the pipeline for good: with the coordinator of package
  \<open>retry\<close>, one worker and a ring of one slot, two messages suffice to reach a state in which
  the worker is parked in \<open>Enqueue\<close> at the full ring and the dispatcher, the only consumer of
  the ring, waits for that worker; from there, whatever happens (a cancellation included),
  the batch never completes and \<open>Run\<close> never returns.\<close>

theorem local_retry_deadlock:
  "\<exists>z. sys_run retry_runtime (sys_start (sample_world []) 1 1) z \<and> stuck z \<and>
     \<not> (\<exists>z'. sys_run retry_runtime z z' \<and> (z_wg z' = 0 \<or> z_main z' = MReturned))"
proof -
  obtain z where z: "sys_run retry_runtime (sys_start (sample_world []) 1 1) z" "stuck z"
    using deadlock_reachable by blast
  have "0 < z_wg z' \<and> z_main z' \<noteq> MReturned" if "sys_run retry_runtime z z'" for z'
    using stuck_run[OF that z(2)] by (auto simp: stuck_def)
  with z show ?thesis by force
qed

end
