(* ===== verification/Delivery_Spec.thy ===== *)
theory Delivery_Spec
  imports System_Runs
begin

text \<open>
  What \<open>Run\<close> promises about deliveries, as an abstract machine, and that the transition system of
  \<open>System\<close> implements it.

  The machine knows only which messages are pending, settled, left with the broker and lost, and
  whether a stop has been asked for and \<open>Run\<close> has returned. Messages become pending by being
  received, a pending message is settled, or left unsettled with the broker, or, after the stop
  only, lost, and once \<open>Run\<close> has returned nothing is received or settled any more. The abstraction
  forgets the ring, the wheel, the pool and all goroutines: \<open>delivery_of\<close> adds up the places where a
  message can be, and takes as settled what the calls made on the transport settle.
\<close>

section \<open>The abstract machine\<close>

record delivery =
  d_received :: "string multiset"
  d_pending :: "string multiset"
  d_settled :: "string multiset"
  d_left :: "string multiset"
  d_lost :: "string multiset"
  d_stop :: bool
  d_returned :: bool

definition delivery_start :: delivery where
  "delivery_start = \<lparr>d_received = {#}, d_pending = {#}, d_settled = {#}, d_left = {#}, d_lost = {#}, d_stop = False, d_returned = False\<rparr>"

inductive delivery_step :: "delivery \<Rightarrow> delivery \<Rightarrow> bool" where
  receive: "\<not> d_returned s \<Longrightarrow>
     delivery_step s (s\<lparr>d_received := d_received s + M, d_pending := d_pending s + M\<rparr>)"
| settle: "\<not> d_returned s \<Longrightarrow> M \<subseteq># d_pending s \<Longrightarrow>
     delivery_step s (s\<lparr>d_pending := d_pending s - M, d_settled := d_settled s + M\<rparr>)"
| leave: "\<not> d_returned s \<Longrightarrow> M \<subseteq># d_pending s \<Longrightarrow>
     delivery_step s (s\<lparr>d_pending := d_pending s - M, d_left := d_left s + M\<rparr>)"
| lose: "d_stop s \<Longrightarrow> M \<subseteq># d_pending s \<Longrightarrow>
     delivery_step s (s\<lparr>d_pending := d_pending s - M, d_lost := d_lost s + M\<rparr>)"
| stop: "delivery_step s (s\<lparr>d_stop := True\<rparr>)"
| return: "d_stop s \<Longrightarrow> M \<subseteq># d_pending s \<Longrightarrow>
     delivery_step s (s\<lparr>d_pending := d_pending s - M, d_lost := d_lost s + M, d_returned := True\<rparr>)"

inductive delivery_run :: "delivery \<Rightarrow> delivery \<Rightarrow> bool" where
  refl: "delivery_run s s"
| step: "delivery_run s s' \<Longrightarrow> delivery_step s' s'' \<Longrightarrow> delivery_run s s''"

inductive_cases delivery_stepE: "delivery_step s s'"

section \<open>The abstraction\<close>

text \<open>The places of a message that has not been settled.\<close>

definition in_flight :: "('t, 's, 'h) sys \<Rightarrow> string multiset" where
  "in_flight z = feeds (z_polls z) + ids (feed_rest (z_timer z)) + ring_ids (z_world z) +
     timer_ids (x_wheel (z_world z)) (z_tick z) + ids (map task_msg (disp_tasks (z_disp z))) + job_ids (z_pool z)"

definition delivery_of :: "('t, 's, 'h) sys \<Rightarrow> delivery" where
  "delivery_of z = \<lparr>d_received = z_received z, d_pending = in_flight z, d_settled = z_settled z, d_left = z_left z, d_lost = z_lost z,
     d_stop = tk_ctxDone (z_tick z), d_returned = (z_main z = MReturned)\<rparr>"

text \<open>What a step of the system does to the books.\<close>

inductive booked :: "('t, 's, 'h) sys \<Rightarrow> ('t, 's, 'h) sys \<Rightarrow> bool" for z z' :: "('t, 's, 'h) sys" where
  receive: "z_received z' = z_received z + M \<Longrightarrow> z_settled z' = z_settled z \<Longrightarrow> z_left z' = z_left z \<Longrightarrow> z_lost z' = z_lost z \<Longrightarrow>
     tk_ctxDone (z_tick z') = tk_ctxDone (z_tick z) \<Longrightarrow> z_main z' = z_main z \<Longrightarrow> z_main z \<noteq> MReturned \<Longrightarrow> booked z z'"
| settle: "z_received z' = z_received z \<Longrightarrow> z_settled z' = z_settled z + M \<Longrightarrow> z_left z' = z_left z \<Longrightarrow> z_lost z' = z_lost z \<Longrightarrow>
     tk_ctxDone (z_tick z') = tk_ctxDone (z_tick z) \<Longrightarrow> z_main z' = z_main z \<Longrightarrow> z_main z \<noteq> MReturned \<Longrightarrow> booked z z'"
| leave: "z_received z' = z_received z \<Longrightarrow> z_settled z' = z_settled z \<Longrightarrow> z_left z' = z_left z + M \<Longrightarrow> z_lost z' = z_lost z \<Longrightarrow>
     tk_ctxDone (z_tick z') = tk_ctxDone (z_tick z) \<Longrightarrow> z_main z' = z_main z \<Longrightarrow> z_main z \<noteq> MReturned \<Longrightarrow> booked z z'"
| lose: "z_received z' = z_received z \<Longrightarrow> z_settled z' = z_settled z \<Longrightarrow> z_left z' = z_left z \<Longrightarrow> z_lost z' = z_lost z + M \<Longrightarrow>
     tk_ctxDone (z_tick z) \<Longrightarrow> tk_ctxDone (z_tick z') \<Longrightarrow> z_main z' = z_main z \<Longrightarrow> booked z z'"
| stop: "z_received z' = z_received z \<Longrightarrow> z_settled z' = z_settled z \<Longrightarrow> z_left z' = z_left z \<Longrightarrow> z_lost z' = z_lost z \<Longrightarrow>
     tk_ctxDone (z_tick z') \<Longrightarrow> (z_main z' = MReturned) = (z_main z = MReturned) \<Longrightarrow> booked z z'"
| return: "z_received z' = z_received z \<Longrightarrow> z_settled z' = z_settled z \<Longrightarrow> z_left z' = z_left z \<Longrightarrow> z_lost z' = z_lost z + M \<Longrightarrow>
     tk_ctxDone (z_tick z) \<Longrightarrow> tk_ctxDone (z_tick z') \<Longrightarrow> z_main z' = MReturned \<Longrightarrow> booked z z'"
| internal: "z_received z' = z_received z \<Longrightarrow> z_settled z' = z_settled z \<Longrightarrow> z_left z' = z_left z \<Longrightarrow> z_lost z' = z_lost z \<Longrightarrow>
     tk_ctxDone (z_tick z') = tk_ctxDone (z_tick z) \<Longrightarrow> (z_main z' = MReturned) = (z_main z = MReturned) \<Longrightarrow> booked z z'"

section \<open>The machine alone\<close>

lemma mset_move: "M \<subseteq># P \<Longrightarrow> P - M + (S + M) = P + (S :: 'a multiset)"
  by (metis add.assoc add.commute subset_mset.diff_add)

lemma delivery_step_balance:
  assumes "delivery_step s s'" and "d_pending s + (d_settled s + d_left s + d_lost s) = d_received s"
  shows "d_pending s' + (d_settled s' + d_left s' + d_lost s') = d_received s'"
  using assms(1)
proof (cases rule: delivery_step.cases)
  case (settle M)
  with assms(2) mset_move[of M "d_pending s" "d_settled s + d_left s + d_lost s"] show ?thesis by (simp add: ac_simps)
next
  case (leave M)
  with assms(2) mset_move[of M "d_pending s" "d_settled s + d_left s + d_lost s"] show ?thesis by (simp add: ac_simps)
next
  case (lose M)
  with assms(2) mset_move[of M "d_pending s" "d_settled s + d_left s + d_lost s"] show ?thesis by (simp add: ac_simps)
next
  case (return M)
  with assms(2) mset_move[of M "d_pending s" "d_settled s + d_left s + d_lost s"] show ?thesis by (simp add: ac_simps)
qed (use assms(2) in \<open>simp_all add: ac_simps\<close>)

lemma delivery_balance:
  "delivery_run s s' \<Longrightarrow> d_pending s + (d_settled s + d_left s + d_lost s) = d_received s \<Longrightarrow> d_pending s' + (d_settled s' + d_left s' + d_lost s') = d_received s'"
  by (induction rule: delivery_run.induct) (blast intro: delivery_step_balance)+

lemma delivery_returned_frozen:
  assumes "delivery_run s s'" and "d_returned s"
  shows "d_returned s' \<and> d_received s' = d_received s \<and> d_settled s' = d_settled s"
  using assms by (induction rule: delivery_run.induct) (auto elim!: delivery_stepE)

section \<open>Refinement\<close>

lemma in_flight_balance: "balance z = in_flight z + z_settled z + z_left z + z_lost z"
  by (simp add: balance_def accounted_def in_flight_def ac_simps)

lemma returned_idle:
  assumes "sys_inv r z" and "z_main z = MReturned"
  shows "z_disp z = DReturned" and "jobs (z_pool z) = {#}" and "\<forall>p\<in>set (z_polls z). p = FReturned" and "tk_ctxDone (z_tick z)"
  using assms by (auto simp: sys_inv_def phase_inv_def wait_inv_def lost_inv_def)

lemma booked_timer:
  assumes "timer_step r z z'" and inv: "sys_inv r z"
  shows "booked z z'"
proof -
  have wheel: "wheel_inv (x_wheel (z_world z))" using inv by (simp add: sys_inv_def shared_inv_def)
  from assms(1) show ?thesis
  proof (cases rule: timer_step.cases)
    case (ticker e wheel tk)
    note t = ticker_ids[OF ticker(2) wheel disjI1[OF ticker(3)]]
    show ?thesis
    proof (cases "e = TkStop")
      case True
      with t ticker show ?thesis by (auto intro: booked.lose)
    next
      case False
      with t ticker show ?thesis by (auto intro: booked.internal split: tk_event.splits)
    qed
  next
    case (timer_receive batch wheel tk)
    show ?thesis using ticker_ids[OF timer_receive(3) wheel] timer_receive by (auto intro: booked.internal)
  qed (rule booked.internal; simp)+
qed

lemma booked_work:
  assumes "work_step r z z'" and inv: "sys_inv r z"
  shows "booked z z'"
proof -
  have ring: "ring_inv (x_ring (z_world z))" "b_policy (x_ring (z_world z)) = Block"
    using inv by (simp_all add: sys_inv_def shared_inv_def)
  from assms(1) show ?thesis
  proof (cases rule: work_step.cases)
    case (work_run i task now w pool)
    then have main: "z_main z \<noteq> MReturned" using returned_idle(2)[OF inv] job_running[OF work_run(2,3)] by auto
    from task_one_way[OF work_run(4) ring] show ?thesis
    proof
      assume "leaves r (z_world z) task = {#}"
      with main work_run(1) show ?thesis by (intro booked.settle[of z' z "call_ids (task_calls r now task (z_world z))"]) simp_all
    next
      assume "call_ids (task_calls r now task (z_world z)) = {#}"
      with main work_run(1) show ?thesis by (intro booked.leave[of z' z "leaves r (z_world z) task"]) simp_all
    qed
  next
    case (work_park i task now m w)
    with parked_calls[OF work_park(4) ring] show ?thesis by (intro booked.internal) simp_all
  qed (rule booked.internal; simp)+
qed

lemma step_booked:
  assumes "sys_step r z z'" and inv: "sys_inv r z"
  shows "booked z z'"
  using assms(1)
proof (cases rule: sys_step.cases)
  case poll
  then show ?thesis
  proof (cases rule: poll_step.cases)
    case (poll_receive j msgs t)
    then have "z_main z \<noteq> MReturned" using returned_idle(3)[OF inv] nth_mem[OF poll_receive(2)] by auto
    with poll_receive booked.receive[of z' z "ids msgs"] show ?thesis by simp
  qed (rule booked.internal; simp)+
next
  case timer
  then show ?thesis by (rule booked_timer[OF _ inv])
next
  case disp
  then show ?thesis
  proof (cases rule: disp_step.cases)
    case (disp_batch drain batch b now tasks w)
    then have "z_main z \<noteq> MReturned" using returned_idle(1)[OF inv] by (auto split: if_splits)
    with disp_batch show ?thesis by (auto intro: booked.settle)
  qed (rule booked.internal; simp)+
next
  case work
  then show ?thesis by (rule booked_work[OF _ inv])
next
  case main
  then show ?thesis
  proof (cases rule: main_step.cases)
    case main_disp
    then show ?thesis by (intro booked.stop) simp_all
  next
    case (main_pool order w w')
    then have "tk_ctxDone (z_tick z)" using inv by (auto simp: sys_inv_def lost_inv_def)
    with main_pool show ?thesis by (auto intro: booked.return)
  qed (rule booked.internal; simp)+
next
  case cancel
  then show ?thesis by (intro booked.stop) simp_all
qed

text \<open>What has left the pending messages, from the books before and after.\<close>

lemma pending_part:
  fixes A B D M R :: "string multiset"
  assumes "A + D = R"
  shows "B + (D + M) = R \<Longrightarrow> A = B + M" and "B + D = R + M \<Longrightarrow> B = A + M" and "B + D = R \<Longrightarrow> B = A"
proof -
  show "A = B + M" if "B + (D + M) = R"
  proof -
    have "A + D = (B + M) + D" using that assms by (simp add: ac_simps)
    then show ?thesis by (rule add_right_imp_eq)
  qed
  show "B = A + M" if "B + D = R + M"
  proof -
    have "B + D = (A + M) + D" using that by (simp add: ac_simps flip: assms)
    then show ?thesis by (rule add_right_imp_eq)
  qed
  show "B = A" if "B + D = R" using that assms by (metis add_right_cancel)
qed

lemma step_refines:
  assumes "sys_step r z z'" and "sys_inv r z" and "sys_inv r z'"
  shows "delivery_of z' = delivery_of z \<or> delivery_step (delivery_of z) (delivery_of z')"
proof -
  let ?done = "\<lambda>z. z_settled z + z_left z + z_lost z"
  have b: "in_flight z + ?done z = z_received z" "in_flight z' + ?done z' = z_received z'"
    using assms(2,3) by (simp_all add: sys_inv_def in_flight_balance add.assoc)
  note part = pending_part[OF b(1), of "in_flight z'"]
  from step_booked[OF assms(1,2)] show ?thesis
  proof (cases rule: booked.cases)
    case (receive M)
    with part(2) b(2) delivery_step.receive[of "delivery_of z" M] show ?thesis by (simp add: delivery_of_def)
  next
    case (settle M)
    have "in_flight z = in_flight z' + M" by (rule part(1)) (use settle b(2) in \<open>simp add: ac_simps\<close>)
    with settle delivery_step.settle[of "delivery_of z" M] show ?thesis by (simp add: delivery_of_def)
  next
    case (leave M)
    have "in_flight z = in_flight z' + M" by (rule part(1)) (use leave b(2) in \<open>simp add: ac_simps\<close>)
    with leave delivery_step.leave[of "delivery_of z" M] show ?thesis by (simp add: delivery_of_def)
  next
    case (lose M)
    have "in_flight z = in_flight z' + M" by (rule part(1)) (use lose b(2) in \<open>simp add: ac_simps\<close>)
    with lose delivery_step.lose[of "delivery_of z" M] show ?thesis by (simp add: delivery_of_def)
  next
    case stop
    with part(3) b(2) delivery_step.stop[of "delivery_of z"] show ?thesis by (simp add: delivery_of_def)
  next
    case (return M)
    have "in_flight z = in_flight z' + M" by (rule part(1)) (use return b(2) in \<open>simp add: ac_simps\<close>)
    with return delivery_step.return[of "delivery_of z" M] show ?thesis by (simp add: delivery_of_def)
  next
    case internal
    with part(3) b(2) show ?thesis by (simp add: delivery_of_def)
  qed
qed

lemma run_refines:
  assumes "sys_run r z z'" and "coordinators_keep_ids r" and "sys_inv r z"
  shows "delivery_run (delivery_of z) (delivery_of z')"
  using assms
proof (induction rule: sys_run.induct)
  case (refl z)
  show ?case by (rule delivery_run.refl)
next
  case (step z z' z'')
  have "sys_inv r z'" by (rule sys_inv_run[OF step.hyps(1) step.prems])
  from step_refines[OF step.hyps(2) this sys_inv_step[OF step.hyps(2) step.prems(1) this]] step.IH[OF step.prems]
  show ?case by (auto intro: delivery_run.step)
qed

lemma delivery_of_start:
  assumes "fresh_world w"
  shows "delivery_of (sys_start w n k) = delivery_start"
proof -
  have "balance (sys_start w n k) = {#}" using sys_inv_start[OF assms] by (simp add: sys_inv_def sys_start_def)
  then have "in_flight (sys_start w n k) = {#}" by (simp add: in_flight_balance)
  then show ?thesis by (simp add: delivery_of_def delivery_start_def) (simp add: sys_start_def ticker_New_def)
qed

section \<open>Properties\<close>

text \<open>C2. \<open>Run\<close> implements the delivery machine: every run of the goroutines, in every interleaving and
  for every transport, handler and coordinator that keeps identifiers, is a run of the machine in
  which a message is received, then pending, and then settled, or left with the broker, or lost
  after a stop only; what is settled is what the calls made on the transport acknowledge or hand
  back. After \<open>Run\<close> has returned nothing is received or settled any more.\<close>

theorem run_refines_delivery:
  assumes "fresh_world w" and "coordinators_keep_ids r" and "sys_run r (sys_start w n k) z" and "sys_run r z z'"
  shows "delivery_run delivery_start (delivery_of z) \<and> delivery_run (delivery_of z) (delivery_of z') \<and>
    (z_main z = MReturned \<longrightarrow> z_main z' = MReturned \<and> z_received z' = z_received z \<and> call_ids (z_calls z') = call_ids (z_calls z))"
proof -
  note start = sys_inv_start[OF assms(1), of r n k]
  have 1: "delivery_run delivery_start (delivery_of z)"
    using run_refines[OF assms(3,2) start] delivery_of_start[OF assms(1)] by simp
  have 2: "delivery_run (delivery_of z) (delivery_of z')"
    by (rule run_refines[OF assms(4,2) sys_inv_run[OF assms(3,2) start]])
  show ?thesis using 1 2 delivery_returned_frozen[OF 2] by (simp add: delivery_of_def)
qed

theorem run_refines_delivery_witness:
  "\<exists>z. sys_run ok_runtime (sys_start (sample_world []) 1 1) z \<and> delivery_run delivery_start (delivery_of z) \<and> d_returned (delivery_of z)"
proof -
  obtain z where z: "sys_run ok_runtime (sys_start (sample_world []) 1 1) z" "z_main z = MReturned" using idle_returns by blast
  from run_refines_delivery[OF sample_world_fresh ok_runtime_ids z(1) sys_run.refl] z show ?thesis
    by (auto simp: delivery_of_def)
qed

end
