(* ===== verification/Rounds.thy ===== *)
theory Rounds
  imports Pipeline
begin

text \<open>
  Whole runs of a pipeline on the in-memory transport: a program that starts \<open>Run\<close>, publishes
  messages and lets the goroutines work in rounds of receive, queue, dispatch and process.

  A run is a list of phases: the messages published, the time, and the number of rounds that
  follow. With a filter, the run is compared with a specification that knows only deadlines:
  \<open>accepted\<close> is the list of deliveries whose key has no live mark.
\<close>

section \<open>Runs\<close>

fun publish_all :: "('t, 's, 'h) runtime \<Rightarrow> Message list \<Rightarrow> ('t, 's, 'h) world \<Rightarrow> ('t, 's, 'h) world go" where
  "publish_all r [] w = Inr w"
| "publish_all r (msg # msgs) w =
     (case t_Publish (rt_transport r) (x_transport w) msg of
        Inl p \<Rightarrow> Inl p
      | Inr (_, t) \<Rightarrow> publish_all r msgs (w\<lparr>x_transport := t\<rparr>))"

fun run_phases :: "(mem \<times> t_call list, 's, 'h) runtime \<Rightarrow> (Message list \<times> gotime \<times> nat) list
    \<Rightarrow> (mem \<times> t_call list, 's, 'h) world \<Rightarrow> (mem \<times> t_call list, 's, 'h) world go" where
  "run_phases r [] w = Inr w"
| "run_phases r ((msgs, now, rounds) # phases) w =
     (case publish_all r msgs w of
        Inl p \<Rightarrow> Inl p
      | Inr w \<Rightarrow> (case memory_rounds rounds r now w of Inl p \<Rightarrow> Inl p | Inr w \<Rightarrow> run_phases r phases w))"

text \<open>\<open>go pipeline.Run(ctx)\<close> and the phases that follow; an error of \<open>Run\<close> ends the program's work.\<close>

definition run_main :: "(int \<Rightarrow> int) \<Rightarrow> (mem \<times> t_call list, MemoryStore, 'h) Pipeline \<Rightarrow> 'h
    \<Rightarrow> (Message list \<times> gotime \<times> nat) list \<Rightarrow> (go_error + (mem \<times> t_call list, MemoryStore, 'h) world) go" where
  "run_main conv p h phases =
     (case Run_start conv p (mem_New, []) NewMemoryStore h of
        Inl panic \<Rightarrow> Inl panic
      | Inr (Inl err) \<Rightarrow> Inr (Inl err)
      | Inr (Inr (r, w, pool)) \<Rightarrow> map_sum id Inr (run_phases r phases w))"

text \<open>The timer's turn at a tick, \<open>expire\<close> reading the clock later: what it releases goes to the ring.\<close>

definition timer_turn :: "gotime \<Rightarrow> gotime \<Rightarrow> int list \<Rightarrow> ('t, 's, 'h) world \<Rightarrow> poll_result \<times> ('t, 's, 'h) world" where
  "timer_turn tick now order w =
     (let (batch, wheel) = expire (x_wheel w) (time_Unix tick) now order in timer_batch batch (w\<lparr>x_wheel := wheel\<rparr>))"

section \<open>What deduplication promises\<close>

text \<open>The deadline of each key's mark; a delivery hits when its key has a mark that has not expired.\<close>

type_synonym deadlines = "string \<rightharpoonup> gotime"

definition live :: "deadlines \<Rightarrow> gotime \<Rightarrow> string \<Rightarrow> bool" where
  "live D now key = (case D key of None \<Rightarrow> False | Some d \<Rightarrow> \<not> time_After now d)"

definition mark_key :: "'s idemFilter \<Rightarrow> gotime \<Rightarrow> Message \<Rightarrow> deadlines \<Rightarrow> deadlines" where
  "mark_key f now msg D = (case msg_key f msg of None \<Rightarrow> D | Some key \<Rightarrow> D(key \<mapsto> time_Add now (f_ttl f)))"

fun accepted :: "'s idemFilter \<Rightarrow> deadlines \<Rightarrow> (Message \<times> gotime) list \<Rightarrow> Message list" where
  "accepted f D [] = []"
| "accepted f D ((msg, now) # ds) =
     (if is_dup (live D) f now msg then accepted f D ds else msg # accepted f (mark_key f now msg D) ds)"

text \<open>The user state after the handler has run on some messages.\<close>

definition handled :: "'h handlerEntry \<Rightarrow> Message list \<Rightarrow> 'h \<Rightarrow> 'h" where
  "handled entry msgs h = fold (\<lambda>msg h. snd (e_fn entry h (m_Payload msg))) msgs h"

text \<open>One phase per delivery.\<close>

definition one_by_one :: "(Message \<times> gotime) list \<Rightarrow> (Message list \<times> gotime \<times> nat) list" where
  "one_by_one ds = map (\<lambda>(msg, now). ([msg], now, 1)) ds"

text \<open>The store knows the deadlines, from a moment on.\<close>

definition knows :: "MemoryStore \<Rightarrow> deadlines \<Rightarrow> int \<Rightarrow> bool" where
  "knows s D t \<longleftrightarrow> ms_inv s \<and> (\<forall>now key. t \<le> mono now \<longrightarrow> ms_seen s now key = live D now key)"




definition collecting_pipeline :: "(mem \<times> t_call list, MemoryStore, bytes list) Pipeline" where
  "collecting_pipeline =
     pipeline_Idempotency \<lparr>ic_Store = Some MemoryIdemStore, ic_AttributeKey = '''', ic_TTL = 10 * Second\<rparr>
       (pipeline_Handle ''t'' (\<lambda>h raw. (\<lparr>r_Action = Ack, r_Delay = 0, r_Err = None\<rparr>, h @ [raw]))
         (pipeline_Transport (Some (logged MemoryTransport)) pipeline_New))"

section \<open>Starting and publishing\<close>

lemma run_start_idle:
  assumes "pl_transport p = Some (logged MemoryTransport)" and "pl_handlers p \<noteq> []"
    and "sint (cfg_BufferSize (pl_config p)) \<le> 2 ^ 32"
  obtains r w pool where "Run_start conv p (mem_New, []) s h = Inr (Inr (r, w, pool))" "idle_world w []"
    "calls w = []" "x_user w = h" "x_store w = s" "x_events w = []" "rt_transport r = logged MemoryTransport"
    "rt_handlers r = map_of (pl_handlers p)" "rt_hooks r = pl_hooks p"
    "rt_idemFilter r = map_option (\<lambda>conf. newIdemFilter conf (h_OnDuplicate (pl_hooks p))) (pl_idemConf p)"
proof -
  obtain b :: "Message buffer" where b: "ring_New (cfg_BufferSize (pl_config p)) Block = Inr b" "ring_inv b"
    "contents b = []" "b_policy b = Block" "\<not> b_closed b"
    using ring_New_ok[OF assms(3)] by metis
  show thesis
    by (rule that)
      (use assms(1,2) b wheel_New_inv[where 'a = Message] wheel_New_open[where 'a = Message] in
        \<open>auto simp: Run_start_def Let_def idle_world_def open_world_def mem_New_def split: option.split\<close>)
qed

lemma publish_all_idle:
  assumes "rt_transport r = logged MemoryTransport" and "idle_world w queued"
  shows "\<exists>w'. publish_all r msgs w = Inr w' \<and> idle_world w' (queued @ msgs) \<and> calls w' = calls w @ map CPublish msgs \<and>
    x_user w' = x_user w \<and> x_store w' = x_store w \<and> x_events w' = x_events w"
  using assms(2)
proof (induction msgs arbitrary: w queued)
  case (Cons msg msgs)
  let ?t = "snd (mem_Publish (fst (x_transport w)) msg)"
  let ?w = "w\<lparr>x_transport := (?t, calls w @ [CPublish msg])\<rparr>"
  have "idle_world ?w (queued @ [msg])"
    using Cons.prems by (simp add: idle_world_def open_world_def mem_Publish_def)
  from Cons.IH[OF this] have "\<exists>w'. publish_all r msgs ?w = Inr w' \<and> idle_world w' (queued @ msg # msgs) \<and>
      calls w' = calls w @ map CPublish (msg # msgs) \<and> x_user w' = x_user w \<and> x_store w' = x_store w \<and> x_events w' = x_events w"
    by simp
  moreover have "publish_all r (msg # msgs) w = publish_all r msgs ?w"
    using assms(1) by (simp add: logged_def recorded_go_def MemoryTransport_def split_def)
  ultimately show ?case by simp
qed simp

section \<open>A round with a filter\<close>

lemma knows_is_dup: "knows s D t \<Longrightarrow> t \<le> mono now \<Longrightarrow> is_dup (ms_seen s) f now msg = is_dup (live D) f now msg"
  by (simp add: knows_def is_dup_def split: option.split)

lemma knows_mark:
  assumes "knows s D t" and "f_store f = Some MemoryIdemStore"
  shows "\<exists>s'. filter_mark f now s msg = Inr (None, s') \<and> knows s' (mark_key f now msg D) t"
proof (cases "msg_key f msg")
  case None
  with assms show ?thesis by (simp add: filter_mark_def msg_key_def mark_key_def)
next
  case (Some key)
  obtain s' where "st_Mark MemoryIdemStore s now key (f_ttl f) = Inr (None, s')" "ms_inv s'"
    "\<And>now' k'. ms_seen s' now' k' = (if k' = key then \<not> time_After now' (time_Add now (f_ttl f)) else ms_seen s now' k')"
    using memory.mark_records[of s now key "f_ttl f"] assms(1) unfolding knows_def by blast
  with Some assms show ?thesis by (simp add: filter_mark_def msg_key_def mark_key_def knows_def live_def)
qed

lemma dispatch_one:
  assumes "rt_transport r = logged MemoryTransport" "rt_idemFilter r = Some f" "f_store f = Some MemoryIdemStore"
    and "rt_handlers r (m_Topic msg) = Some entry" and "knows (x_store w) D t" and "t \<le> mono now" and "idle_world w []"
  shows "\<exists>w'. dispatchBatch r (\<lambda>_. now) [Some msg] w =
      Inr (if is_dup (live D) f now msg then [] else [Process msg entry], w') \<and> idle_world w' [] \<and> x_user w' = x_user w \<and>
    knows (x_store w') D (mono now) \<and> calls w' = calls w @ (if is_dup (live D) f now msg then [CAck [msg]] else [])"
proof -
  have inv: "ms_inv (x_store w)" using assms(5) by (simp add: knows_def)
  obtain s' where l: "filter_loop f MemoryIdemStore (\<lambda>_. now) (x_store w) [msg] =
      (if is_dup (ms_seen (x_store w)) f now msg then Inr ([], [msg], dup_events f [msg], s')
       else Inr ([msg], [], dup_events f [], s'))" "ms_inv s'"
    "\<And>now' k. mono now \<le> mono now' \<Longrightarrow> ms_seen s' now' k = ms_seen (x_store w) now' k"
    using memory.loop_partitions[OF inv, of "\<lambda>_. now" f "[msg]"] by (auto simp: clock_monotone_def nths_Cons)
  have k: "knows s' D (mono now)" using l(2,3) assms(5,6) by (auto simp: knows_def)
  show ?thesis
    using l(1) k assms(1-4,7) knows_is_dup[OF assms(5,6), of f msg]
    by (simp add: dispatchBatch_def filterDuplicates_def task_of_def idle_world_def open_world_def frame_simps
        recorded_def MemoryTransport_def mem_Ack_def call_transport_def)
qed

lemma ack_switch:
  assumes "rt_transport r = logged MemoryTransport" "rt_idemFilter r = Some f" "f_store f = Some MemoryIdemStore"
    and "knows (x_store w) D t" and "idle_world w []" and "o_Action out = Ack" and "o_Message out = msg"
  shows "\<exists>w'. process_switch r now msg out w = Inr (Finished, w') \<and> idle_world w' [] \<and> x_user w' = x_user w \<and>
    knows (x_store w') (mark_key f now msg D) t \<and> calls w' = calls w @ [CAck [msg]]"
proof -
  obtain s' where "filter_mark f now (x_store w) msg = Inr (None, s')" "knows s' (mark_key f now msg D) t"
    using knows_mark[OF assms(4,3)] by blast
  with assms(1,2,5-7) show ?thesis
    by (simp add: process_switch_def settle_Ack_def call_transport_def split_def Let_def recorded_def frame_simps
        MemoryTransport_def mem_Ack_def idle_world_def open_world_def)
qed

lemma filtered_round:
  assumes r: "rt_transport r = logged MemoryTransport" "rt_idemFilter r = Some f" "f_store f = Some MemoryIdemStore"
      "rt_handlers r (m_Topic msg) = Some entry"
    and e: "e_coordinator entry = None" "\<And>h. r_Action (fst (e_fn entry h (m_Payload msg))) = Ack"
    and m: "m_NotBefore msg \<le> 0" and w: "idle_world w [msg]" and k: "knows (x_store w) D t" "t \<le> mono now"
  shows "\<exists>w'. memory_round r now w = Inr w' \<and> idle_world w' [] \<and> calls w' = calls w @ [CAck [msg]] \<and>
    (if is_dup (live D) f now msg then x_user w' = x_user w \<and> knows (x_store w') D (mono now)
     else x_user w' = snd (e_fn entry (x_user w) (m_Payload msg)) \<and>
       knows (x_store w') (mark_key f now msg D) (mono now))"
proof -
  obtain w1 where w1: "idle_world w1 []" "x_user w1 = x_user w" "x_store w1 = x_store w" "calls w1 = calls w"
    and round: "memory_round r now w = (case dispatchBatch r (\<lambda>_. now) [Some msg] w1 of Inl p \<Rightarrow> Inl p
       | Inr (tasks, w') \<Rightarrow> run_tasks r now tasks w')"
    using memory_round_dispatch[OF w m] by metis
  obtain w2 where w2: "dispatchBatch r (\<lambda>_. now) [Some msg] w1 =
      Inr (if is_dup (live D) f now msg then [] else [Process msg entry], w2)" "idle_world w2 []" "x_user w2 = x_user w"
    "knows (x_store w2) D (mono now)" "calls w2 = calls w @ (if is_dup (live D) f now msg then [CAck [msg]] else [])"
    using dispatch_one[OF r k(1)[folded w1(3)] k(2) w1(1)] w1 by auto
  show ?thesis
  proof (cases "is_dup (live D) f now msg")
    case True
    with w2 show ?thesis by (simp add: round)
  next
    case False
    let ?out = "outcome_of r (x_user w2) msg entry"
    obtain result h where fn: "e_fn entry (x_user w2) (m_Payload msg) = (result, h)" by fastforce
    have "r_Action result = Ack" using e(2)[of "x_user w2"] fn by simp
    then have out: "o_Action ?out = Ack" "o_Message ?out = msg"
      using fn e(1) by (simp_all add: outcome_of_def resolveOutcome_def default_Handle_def)
    obtain w3 where w3: "x_ring w3 = x_ring w2" "x_transport w3 = x_transport w2" "x_wheel w3 = x_wheel w2" "x_store w3 = x_store w2"
      "x_user w3 = h" "processMessage r now msg entry w2 = process_switch r now msg ?out w3"
      using processMessage_default[OF e(1) fn] by metis
    have idle: "idle_world w3 []" using w2(2) w3 by (simp add: idle_world_def open_world_def)
    have kn: "knows (x_store w3) D (mono now)" using w2(4) w3(4) by simp
    obtain w' where "process_switch r now msg ?out w3 = Inr (Finished, w')" "idle_world w' []" "x_user w' = h"
      "knows (x_store w') (mark_key f now msg D) (mono now)" "calls w' = calls w @ [CAck [msg]]"
      using ack_switch[OF r(1-3) kn idle out] w3 w2(5) False by fastforce
    then show ?thesis using False fn w2(1,3) w3(6) by (simp add: round)
  qed
qed

lemma filtered_run:
  assumes r: "rt_transport r = logged MemoryTransport" "rt_idemFilter r = Some f" "f_store f = Some MemoryIdemStore"
    and e: "e_coordinator entry = None"
    and "\<And>msg now. (msg, now) \<in> set ds \<Longrightarrow> rt_handlers r (m_Topic msg) = Some entry \<and> m_NotBefore msg \<le> 0 \<and>
      (\<forall>h. r_Action (fst (e_fn entry h (m_Payload msg))) = Ack)"
    and "sorted_wrt (\<lambda>(_, s) (_, t). mono s \<le> mono t) ds" and "\<And>msg now. (msg, now) \<in> set ds \<Longrightarrow> t \<le> mono now"
    and "idle_world w []" and "knows (x_store w) D t"
  shows "\<exists>w'. run_phases r (one_by_one ds) w = Inr w' \<and> idle_world w' [] \<and>
    x_user w' = handled entry (accepted f D ds) (x_user w) \<and>
    calls w' = calls w @ concat (map (\<lambda>(msg, _). [CPublish msg, CAck [msg]]) ds)"
  using assms(5-9)
proof (induction ds arbitrary: w D t)
  case Nil
  then show ?case by (simp add: one_by_one_def handled_def)
next
  case (Cons d ds)
  obtain msg now where d: "d = (msg, now)" by (cases d)
  have m: "rt_handlers r (m_Topic msg) = Some entry" "m_NotBefore msg \<le> 0" "\<And>h. r_Action (fst (e_fn entry h (m_Payload msg))) = Ack"
    "t \<le> mono now" using Cons.prems(1,3)[of msg now] d by simp_all
  obtain w1 where w1: "publish_all r [msg] w = Inr w1" "idle_world w1 [msg]" "calls w1 = calls w @ [CPublish msg]"
    "x_user w1 = x_user w" "knows (x_store w1) D t"
    using publish_all_idle[OF r(1) Cons.prems(4), of "[msg]"] Cons.prems(5) by auto
  let ?D = "if is_dup (live D) f now msg then D else mark_key f now msg D"
  obtain w2 where w2: "memory_round r now w1 = Inr w2" "idle_world w2 []" "calls w2 = calls w @ [CPublish msg, CAck [msg]]"
    "x_user w2 = handled entry (if is_dup (live D) f now msg then [] else [msg]) (x_user w)" "knows (x_store w2) ?D (mono now)"
    using filtered_round[OF r m(1) e m(3,2) w1(2,5) m(4)] w1(3,4) by (auto simp: handled_def split: if_splits)
  have "\<exists>w'. run_phases r (one_by_one ds) w2 = Inr w' \<and> idle_world w' [] \<and>
      x_user w' = handled entry (accepted f ?D ds) (x_user w2) \<and>
      calls w' = calls w2 @ concat (map (\<lambda>(msg, _). [CPublish msg, CAck [msg]]) ds)"
    by (rule Cons.IH[OF _ _ _ w2(2,5)]) (use Cons.prems(1,2) d in \<open>auto split: prod.splits\<close>)
  moreover have "run_phases r (one_by_one (d # ds)) w = run_phases r (one_by_one ds) w2"
    using w1(1) w2(1) by (simp add: one_by_one_def d)
  ultimately show ?case using w2(3,4) by (auto simp: d handled_def split: if_splits)
qed

lemma run_main_filtered:
  assumes "pl_transport p = Some (logged MemoryTransport)" and "sint (cfg_BufferSize (pl_config p)) \<le> 2 ^ 32"
    and "pl_idemConf p = Some cfg" and "ic_Store cfg = Some MemoryIdemStore" and "pl_handlers p \<noteq> []"
    and "e_coordinator entry = None"
    and "\<forall>(msg, now) \<in> set ds. map_of (pl_handlers p) (m_Topic msg) = Some entry \<and> m_NotBefore msg \<le> 0 \<and>
      (\<forall>h. r_Action (fst (e_fn entry h (m_Payload msg))) = Ack)"
    and "sorted_wrt (\<lambda>(_, s) (_, t). mono s \<le> mono t) ds"
  shows "\<exists>w'. run_main conv p h (one_by_one ds) = Inr (Inr w') \<and> idle_world w' [] \<and>
    x_user w' = handled entry (accepted (newIdemFilter cfg (h_OnDuplicate (pl_hooks p))) Map.empty ds) h \<and>
    calls w' = concat (map (\<lambda>(msg, _). [CPublish msg, CAck [msg]]) ds)"
proof -
  obtain r w pool where start: "Run_start conv p (mem_New, []) NewMemoryStore h = Inr (Inr (r, w, pool))" "idle_world w []"
    "calls w = []" "x_user w = h" "x_store w = NewMemoryStore" and r: "rt_transport r = logged MemoryTransport"
    "rt_handlers r = map_of (pl_handlers p)" "rt_idemFilter r = Some (newIdemFilter cfg (h_OnDuplicate (pl_hooks p)))"
    by (rule run_start_idle[OF assms(1,5,2), of conv NewMemoryStore h]) (use assms(3) in auto)
  have f: "f_store (newIdemFilter cfg (h_OnDuplicate (pl_hooks p))) = Some MemoryIdemStore"
    using assms(4) by (simp add: newIdemFilter_def)
  have k: "knows (x_store w) Map.empty t" for t
    by (simp add: start knows_def ms_inv_def NewMemoryStore_def ms_seen_def ms_read_def live_def)
  have t: "mono (snd (hd ds)) \<le> mono now" if "(msg, now) \<in> set ds" for msg now
    using that assms(8) by (cases ds) auto
  from filtered_run[OF r(1,3) f assms(6) _ assms(8) t start(2) k] assms(7) start(1,3,4) r(2)
  show ?thesis by (fastforce simp: run_main_def)
qed

section \<open>A round with a delayed message\<close>

lemma no_items_no_keys: "wheel_inv v \<Longrightarrow> wheel_items v = {#} \<Longrightarrow> bucket_keys v = {}"
  by (auto simp: wheel_inv_def wheel_slots_def sum_eq_empty_iff)

lemma Insert_first:
  assumes "wheel_inv v" "\<not> w_closed v" "wheel_items v = {#}" "wheel_Insert v item delay now = Inr v'"
  shows "wheel_slots v' = {#\<lparr>s_target = time_Add now delay, s_item = item\<rparr>#}"
proof -
  have "bucket_keys v = {}" by (rule no_items_no_keys[OF assms(1,3)])
  moreover have "bucket v t = []" for t using calculation by (auto simp: bucket_def bucket_keys_def split: option.splits)
  ultimately show ?thesis using Insert_bucket[OF assms(2,4)] by (simp add: wheel_slots_def)
qed

lemma dequeue_nothing:
  assumes "ring_inv b" and "contents b = []" and "DequeueBatch b 10 = (xs, b')"
  shows "xs = [] \<and> ring_inv b' \<and> contents b' = [] \<and> b_closed b' = b_closed b \<and> b_policy b' = b_policy b"
  using DequeueBatch_correct[OF assms(1,3)] DequeueBatch_frame[of b 10] assms(2,3)
  by (simp add: batch_size_def)

lemma delayed_round:
  assumes idle: "idle_world w [msg]" and nb: "0 < m_NotBefore msg" and r: "rt_idemFilter r = None"
  obtains w1 v where "memory_round r now w = Inr w1" "idle_world w1 []" "x_user w1 = x_user w" "calls w1 = calls w"
    "x_wheel w1 = v" "wheel_Insert (x_wheel w) msg (m_NotBefore msg) now = Inr v"
proof -
  let ?t = "(fst (x_transport w))\<lparr>mt_messages := []\<rparr>"
  have sub: "Subscribe_check (fst (x_transport w)) 0 = (SubDeliver [msg], ?t)"
    using idle by (simp add: idle_world_def Subscribe_check_def)
  have wheel: "wheel_inv (x_wheel w)" "\<not> w_closed (x_wheel w)" using idle by (simp_all add: idle_world_def open_world_def)
  obtain v where v: "wheel_Insert (x_wheel w) msg (m_NotBefore msg) now = Inr v" using Insert_ok[OF wheel(1)] by blast
  obtain w0 where c: "consume r (\<lambda>_. now) [msg] (w\<lparr>x_transport := (?t, calls w)\<rparr>) = Inr (PollDone, w0)"
    and w0: "x_ring w0 = x_ring w" "x_wheel w0 = v" "x_transport w0 = (?t, calls w)" "x_user w0 = x_user w"
    using nb v by (simp add: consume_def poll_one_def log_events_def Let_def)
  obtain xs b where d: "DequeueBatch (x_ring w) 10 = (xs, b)" by fastforce
  have q: "xs = [] \<and> ring_inv b \<and> contents b = [] \<and> b_closed b = b_closed (x_ring w) \<and> b_policy b = b_policy (x_ring w)"
    by (rule dequeue_nothing[OF _ _ d]) (use idle in \<open>simp_all add: idle_world_def open_world_def\<close>)
  have "memory_round r now w = Inr (w0\<lparr>x_ring := b\<rparr>)"
    using c d q r w0(1) by (simp add: memory_round_def sub dispatchBatch_def)
  moreover have "idle_world (w0\<lparr>x_ring := b\<rparr>) []"
    using idle q w0 Insert_inv[OF wheel(1) v] Insert_bucket(3)[OF wheel(2) v] by (simp add: idle_world_def open_world_def)
  ultimately show thesis using that[of "w0\<lparr>x_ring := b\<rparr>" v] w0 v by simp
qed

lemma timer_turn_single:
  assumes w: "idle_world w []" and v: "wheel_slots (x_wheel w) = {#s#}" and ord: "iteration_order (x_wheel w) order"
  shows "\<exists>w'. timer_turn tick now order w = (PollDone, w') \<and> x_user w' = x_user w \<and> calls w' = calls w \<and>
    contents (x_ring w') = (if due (time_Unix tick) now s then [Some (s_item s)] else []) \<and>
    wheel_items (x_wheel w') = (if due (time_Unix tick) now s then {#} else {#s_item s#})"
proof -
  obtain batch v' where e: "expire (x_wheel w) (time_Unix tick) now order = (batch, v')" by fastforce
  have inv: "wheel_inv (x_wheel w)" "\<not> w_closed (x_wheel w)" using w by (simp_all add: idle_world_def open_world_def)
  have slots: "mset batch = (if due (time_Unix tick) now s then {#s_item s#} else {#})"
    "wheel_slots v' = (if due (time_Unix tick) now s then {#} else {#s#})"
    using expire_slots[OF inv(1) ord e] v by auto
  have open_: "open_world (w\<lparr>x_wheel := v'\<rparr>)" "contents (x_ring (w\<lparr>x_wheel := v'\<rparr>)) = []"
    using w expire_inv[OF inv(1) ord e] expire_bucket(2)[OF ord e] by (simp_all add: idle_world_def open_world_def)
  show ?thesis
  proof (cases "due (time_Unix tick) now s")
    case True
    obtain b where "enqueue_msg (s_item s) (w\<lparr>x_wheel := v'\<rparr>) = (Finished, (w\<lparr>x_wheel := v'\<rparr>)\<lparr>x_ring := b\<rparr>)"
      "contents b = [Some (s_item s)]" by (rule enqueue_msg_empty[OF open_])
    with True slots show ?thesis by (simp add: timer_turn_def e)
  next
    case False
    with slots w show ?thesis by (simp add: timer_turn_def e idle_world_def)
  qed
qed

section \<open>Properties\<close>



text \<open>C8. A pipeline with an idempotency filter does what deduplication promises, from \<open>Run\<close> to the
  handler: for every sequence of deliveries in time order, each handled before the next, with a
  handler that acknowledges, the handler runs exactly on the deliveries that have no key or
  whose key has no live mark, in order, the mark of a key being set for the time-to-live when a
  delivery with it is handled; every delivery is acknowledged once, handled or not, and nothing is left.\<close>

theorem deduplicated_run_refines:
  assumes "pl_transport p = Some (logged MemoryTransport)" and "sint (cfg_BufferSize (pl_config p)) \<le> 2 ^ 32"
    and "pl_idemConf p = Some cfg" and "ic_Store cfg = Some MemoryIdemStore" and "pl_handlers p \<noteq> []"
    and "e_coordinator entry = None"
    and "\<forall>(msg, now) \<in> set ds. map_of (pl_handlers p) (m_Topic msg) = Some entry \<and> m_NotBefore msg \<le> 0 \<and>
      (\<forall>h. r_Action (fst (e_fn entry h (m_Payload msg))) = Ack)"
    and "sorted_wrt (\<lambda>(_, s) (_, t). mono s \<le> mono t) ds"
  shows "\<exists>w'. run_main conv p h (one_by_one ds) = Inr (Inr w') \<and> idle_world w' [] \<and>
    x_user w' = handled entry (accepted (newIdemFilter cfg (h_OnDuplicate (pl_hooks p))) Map.empty ds) h \<and>
    calls w' = concat (map (\<lambda>(msg, _). [CPublish msg, CAck [msg]]) ds)"
  by (rule run_main_filtered[OF assms])

theorem deduplicated_run_refines_witness:
  "\<exists>w'. run_main (\<lambda>_. 0) collecting_pipeline [] (one_by_one
       [((keyed_msg ''1'' ''k'')\<lparr>m_Payload := ''a''\<rparr>, at_second 0), ((keyed_msg ''2'' ''k'')\<lparr>m_Payload := ''b''\<rparr>, at_second 10),
        ((keyed_msg ''3'' ''k'')\<lparr>m_Payload := ''c''\<rparr>, at_second 11)]) = Inr (Inr w') \<and>
     x_user w' = [''a'', ''c''] \<and> length (calls w') = 6"
proof -
  let ?p = collecting_pipeline
  let ?cfg = "\<lparr>ic_Store = Some MemoryIdemStore, ic_AttributeKey = '''', ic_TTL = 10 * Second\<rparr>"
  let ?ds = "[((keyed_msg ''1'' ''k'')\<lparr>m_Payload := ''a''\<rparr>, at_second 0), ((keyed_msg ''2'' ''k'')\<lparr>m_Payload := ''b''\<rparr>, at_second 10),
        ((keyed_msg ''3'' ''k'')\<lparr>m_Payload := ''c''\<rparr>, at_second 11)]"
  let ?e = "default_entry (\<lambda>h raw. (\<lparr>r_Action = Ack, r_Delay = 0, r_Err = None\<rparr>, h @ [raw]))"
  note defs = collecting_pipeline_def pipeline_Idempotency_def pipeline_Handle_def HandleWithRetry_def default_entry_def
    pipeline_Transport_def pipeline_New_def keyed_msg_def at_second_def duration_defs
  have "pl_transport ?p = Some (logged MemoryTransport)" "sint (cfg_BufferSize (pl_config ?p)) \<le> 2 ^ 32"
    "pl_idemConf ?p = Some ?cfg" "ic_Store ?cfg = Some MemoryIdemStore" "pl_handlers ?p \<noteq> []" "e_coordinator ?e = None"
    "\<forall>(msg, now) \<in> set ?ds. map_of (pl_handlers ?p) (m_Topic msg) = Some ?e \<and> m_NotBefore msg \<le> 0 \<and>
      (\<forall>h. r_Action (fst (e_fn ?e h (m_Payload msg))) = Ack)"
    "sorted_wrt (\<lambda>(_, s) (_, t). mono s \<le> mono t) ?ds"
    by (simp_all add: defs)
  from deduplicated_run_refines[OF this, of "\<lambda>_. 0" "[]"] show ?thesis
    by (auto simp: handled_def defs newIdemFilter_def is_dup_def live_def mark_key_def msg_key_def go_simps
        time_After_def time_Add_def)
qed

text \<open>C23. A delayed message waits and then comes: on the in-memory transport, a message with a positive
  delay that is received is neither handled nor acknowledged nor queued; the timer leaves it in
  the wheel at every turn whose pass reads the clock before its delay has passed, and the first
  turn whose tick comes after that (in any map iteration order, with the wall clock not set in
  between) queues it in the ring and empties the wheel.\<close>

theorem delayed_end_to_end:
  assumes "idle_world w [msg]" and "0 < m_NotBefore msg" and "rt_idemFilter r = None" and "wheel_items (x_wheel w) = {#}"
  shows "\<exists>w1. memory_round r now w = Inr w1 \<and> idle_world w1 [] \<and> x_user w1 = x_user w \<and> calls w1 = calls w \<and>
    (\<forall>tick later order. iteration_order (x_wheel w1) order \<and> wall tick - mono tick = wall now - mono now \<and>
        wall later - mono later = wall now - mono now \<and> mono tick \<le> mono later \<longrightarrow>
      (\<exists>w2. timer_turn tick later order w1 = (PollDone, w2) \<and> x_user w2 = x_user w \<and> calls w2 = calls w \<and>
        (mono later < mono now + m_NotBefore msg \<longrightarrow> contents (x_ring w2) = [] \<and> wheel_items (x_wheel w2) = {#msg#}) \<and>
        (mono now + m_NotBefore msg \<le> mono tick \<longrightarrow> contents (x_ring w2) = [Some msg] \<and> wheel_items (x_wheel w2) = {#})))"
proof -
  obtain w1 v where w1: "memory_round r now w = Inr w1" "idle_world w1 []" "x_user w1 = x_user w" "calls w1 = calls w"
    "x_wheel w1 = v" and i: "wheel_Insert (x_wheel w) msg (m_NotBefore msg) now = Inr v"
    by (rule delayed_round[OF assms(1-3)])
  have wheel: "wheel_inv (x_wheel w)" "\<not> w_closed (x_wheel w)" using assms(1) by (simp_all add: idle_world_def open_world_def)
  let ?s = "\<lparr>s_target = time_Add now (m_NotBefore msg), s_item = msg\<rparr>"
  have v: "wheel_slots (x_wheel w1) = {#?s#}" using Insert_first[OF wheel assms(4) i] w1(5) by simp
  have due: "due (time_Unix tick) later ?s \<Longrightarrow> mono now + m_NotBefore msg \<le> mono later"
    "mono now + m_NotBefore msg \<le> mono tick \<Longrightarrow> due (time_Unix tick) later ?s"
    if "wall tick - mono tick = wall now - mono now" "mono tick \<le> mono later" for tick later
    using that by (auto simp: due_def time_After_def time_Add_def time_Unix_def Second_def intro: zdiv_mono1)
  have "\<exists>w2. timer_turn tick later order w1 = (PollDone, w2) \<and> x_user w2 = x_user w \<and> calls w2 = calls w \<and>
        (mono later < mono now + m_NotBefore msg \<longrightarrow> contents (x_ring w2) = [] \<and> wheel_items (x_wheel w2) = {#msg#}) \<and>
        (mono now + m_NotBefore msg \<le> mono tick \<longrightarrow> contents (x_ring w2) = [Some msg] \<and> wheel_items (x_wheel w2) = {#})"
    if "iteration_order (x_wheel w1) order" "wall tick - mono tick = wall now - mono now" "mono tick \<le> mono later" for tick later order
    using timer_turn_single[OF w1(2) v that(1), of tick later] due[OF that(2,3)] w1(3,4) by (auto simp: not_le)
  with w1(1-4) show ?thesis by blast
qed

theorem delayed_end_to_end_witness:
  "\<exists>w1 w2. memory_round sample_runtime (at_second 0) (sample_world [(sample_msg 0)\<lparr>m_NotBefore := 5 * Second\<rparr>]) = Inr w1 \<and>
     timer_turn (at_second 5) (at_second 5) [5] w1 = (PollDone, w2) \<and> contents (x_ring w2) = [Some ((sample_msg 0)\<lparr>m_NotBefore := 5 * Second\<rparr>)]"
proof -
  let ?msg = "(sample_msg 0)\<lparr>m_NotBefore := 5 * Second\<rparr>"
  have w: "idle_world (sample_world [?msg]) [?msg]" "0 < m_NotBefore ?msg" "rt_idemFilter sample_runtime = None"
    "wheel_items (x_wheel (sample_world [?msg])) = {#}"
    using sample_world_idle[of "[?msg]"] wheel_New_items[where 'a = Message]
    by (simp_all add: sample_runtime_def sample_world_def Second_def)
  obtain w1 where w1: "memory_round sample_runtime (at_second 0) (sample_world [?msg]) = Inr w1"
    and later: "\<And>tick later order. iteration_order (x_wheel w1) order \<and> wall tick - mono tick = wall (at_second 0) - mono (at_second 0) \<and>
        wall later - mono later = wall (at_second 0) - mono (at_second 0) \<and> mono tick \<le> mono later \<Longrightarrow>
      \<exists>w2. timer_turn tick later order w1 = (PollDone, w2) \<and>
        (mono (at_second 0) + m_NotBefore ?msg \<le> mono tick \<longrightarrow> contents (x_ring w2) = [Some ?msg] \<and> wheel_items (x_wheel w2) = {#})"
    using delayed_end_to_end[OF w, of "at_second 0"] by blast
  obtain w1' v where v: "memory_round sample_runtime (at_second 0) (sample_world [?msg]) = Inr w1'" "x_wheel w1' = v"
    "wheel_Insert (x_wheel (sample_world [?msg])) ?msg (m_NotBefore ?msg) (at_second 0) = Inr v"
    by (rule delayed_round[OF w(1-3)])
  have "bucket_keys v = {5}"
    using Insert_bucket(2)[OF _ v(3)]
    by (simp add: sample_world_def wheel_New_def bucket_keys_def at_second_def time_Add_def time_Unix_def Second_def)
  then have "iteration_order (x_wheel w1) [5]" using w1 v(1,2) by (auto simp: iteration_order_def)
  then obtain w2 where "timer_turn (at_second 5) (at_second 5) [5] w1 = (PollDone, w2)" "contents (x_ring w2) = [Some ?msg]"
    using later[of "[5]" "at_second 5" "at_second 5"] by (auto simp: at_second_def)
  with w1 show ?thesis by blast
qed

end
