(* ===== verification/Go_Duration.thy ===== *)
theory Go_Duration
  imports Prelude
begin

text \<open>
  \<open>time.Duration.String\<close>, \<open>time.Duration.Seconds\<close> and \<open>time.ParseDuration\<close> of Go's standard
  library, which the transports use to carry a message's delay through an attribute of the
  broker (\<open>X-NotBefore\<close>) and to hand a delay to the broker in seconds.

  \<open>String\<close> fills a buffer from the right, so its helpers prepend to the text that follows.
  \<open>ParseDuration\<close> scales a fraction in floating point; where the scale divides the unit the
  float operations are exact and the model computes them, and elsewhere their result is the
  parameter \<open>fl\<close>. The main result is that parsing inverts printing for every positive
  duration (\<open>parse_string\<close>), whatever \<open>fl\<close> is.
\<close>

section \<open>Printing\<close>

definition digit :: "nat \<Rightarrow> char" where
  "digit n = char_of (48 + n)"

definition is_digit :: "char \<Rightarrow> bool" where
  "is_digit c \<longleftrightarrow> 48 \<le> (of_char c :: nat) \<and> (of_char c :: nat) \<le> 57"

definition digit_val :: "char \<Rightarrow> nat" where
  "digit_val c = of_char c - 48"

fun fmtInt_loop :: "nat \<Rightarrow> string \<Rightarrow> string" where
  "fmtInt_loop v buf = (if v = 0 then buf else fmtInt_loop (v div 10) (digit (v mod 10) # buf))"

declare fmtInt_loop.simps [simp del]

definition fmtInt :: "nat \<Rightarrow> string \<Rightarrow> string" where
  "fmtInt v buf = (if v = 0 then digit 0 # buf else fmtInt_loop v buf)"

fun fmtFrac_loop :: "nat \<Rightarrow> bool \<Rightarrow> nat \<Rightarrow> string \<Rightarrow> bool \<times> nat \<times> string" where
  "fmtFrac_loop 0 print v buf = (print, v, buf)"
| "fmtFrac_loop (Suc i) print v buf =
     (let d = v mod 10; print' = (print \<or> d \<noteq> 0)
      in fmtFrac_loop i print' (v div 10) (if print' then digit d # buf else buf))"

definition fmtFrac :: "nat \<Rightarrow> nat \<Rightarrow> string \<Rightarrow> nat \<times> string" where
  "fmtFrac v prec buf =
     (let (print, v', buf') = fmtFrac_loop prec False v buf
      in (v', if print then CHR ''.'' # buf' else buf'))"

text \<open>The micro sign is two bytes of UTF-8.\<close>

definition micro_s :: string where "micro_s = [CHR 0xC2, CHR 0xB5, CHR ''s'']"
definition mu_s :: string where "mu_s = [CHR 0xCE, CHR 0xBC, CHR ''s'']"

definition fmt_small :: "nat \<Rightarrow> nat \<Rightarrow> string \<Rightarrow> string" where
  "fmt_small u prec unit = (let (v, buf) = fmtFrac u prec unit in fmtInt v buf)"

definition fmt_large :: "nat \<Rightarrow> string" where
  "fmt_large u =
     (let (u, buf) = fmtFrac u 9 ''s'';
          buf = fmtInt (u mod 60) buf;
          u = u div 60
      in if u = 0 then buf
         else let buf = fmtInt (u mod 60) (CHR ''m'' # buf); u = u div 60
              in if u = 0 then buf else fmtInt u (CHR ''h'' # buf))"

definition Duration_String :: "duration \<Rightarrow> string" where
  "Duration_String d =
     (let u = nat \<bar>d\<bar>;
          s = (if u = 0 then ''0s''
               else if u < 1000 then fmt_small u 0 ''ns''
               else if u < 1000000 then fmt_small u 3 micro_s
               else if u < 1000000000 then fmt_small u 6 ''ms''
               else fmt_large u)
      in if d < 0 then CHR ''-'' # s else s)"

section \<open>Parsing\<close>

fun leadingInt :: "nat \<Rightarrow> string \<Rightarrow> (nat \<times> string) option" where
  "leadingInt x [] = Some (x, [])"
| "leadingInt x (c # s) =
     (if \<not> is_digit c then Some (x, c # s)
      else if x > 2 ^ 63 div 10 then None
      else let y = x * 10 + digit_val c in if y > 2 ^ 63 then None else leadingInt y s)"

fun leadingFraction :: "nat \<Rightarrow> nat \<Rightarrow> bool \<Rightarrow> string \<Rightarrow> nat \<times> nat \<times> string" where
  "leadingFraction x scale overflow [] = (x, scale, [])"
| "leadingFraction x scale overflow (c # s) =
     (if \<not> is_digit c then (x, scale, c # s)
      else if overflow then leadingFraction x scale overflow s
      else if x > (2 ^ 63 - 1) div 10 then leadingFraction x scale True s
      else let y = x * 10 + digit_val c
           in if y > 2 ^ 63 then leadingFraction x scale True s else leadingFraction y (scale * 10) overflow s)"

definition unitMap :: "string \<Rightarrow> nat option" where
  "unitMap u =
     (if u = ''ns'' then Some 1
      else if u = ''us'' \<or> u = micro_s \<or> u = mu_s then Some 1000
      else if u = ''ms'' then Some 1000000
      else if u = ''s'' then Some 1000000000
      else if u = ''m'' then Some 60000000000
      else if u = ''h'' then Some 3600000000000
      else None)"

definition num_char :: "char \<Rightarrow> bool" where
  "num_char c \<longleftrightarrow> c = CHR ''.'' \<or> is_digit c"

text \<open>\<open>uint64(float64(f) * (float64(unit) / scale))\<close>, exact where the scale divides the unit.\<close>

definition frac_ns :: "(nat \<Rightarrow> nat \<Rightarrow> nat \<Rightarrow> nat) \<Rightarrow> nat \<Rightarrow> nat \<Rightarrow> nat \<Rightarrow> nat" where
  "frac_ns fl f unit scale = (if scale dvd unit \<and> f < scale then f * (unit div scale) else fl f unit scale)"

text \<open>\<open>(\.[0-9]*)?\<close>: the fraction, its scale, the rest and whether there were digits.\<close>

fun parse_fraction :: "string \<Rightarrow> nat \<times> nat \<times> string \<times> bool" where
  "parse_fraction [] = (0, 1, [], False)"
| "parse_fraction (c # t) =
     (if c = CHR ''.'' then (let (f, scale, s) = leadingFraction 0 1 False t in (f, scale, s, length t \<noteq> length s))
      else (0, 1, c # t, False))"

text \<open>The end of an iteration: the unit and the value in nanoseconds.\<close>

definition parse_unit :: "(nat \<Rightarrow> nat \<Rightarrow> nat \<Rightarrow> nat) \<Rightarrow> nat \<Rightarrow> nat \<Rightarrow> nat \<Rightarrow> string \<Rightarrow> (nat \<times> string) option" where
  "parse_unit fl v f scale s =
     (let u = takeWhile (\<lambda>c. \<not> num_char c) s; rest = dropWhile (\<lambda>c. \<not> num_char c) s
      in if u = [] then None
         else case unitMap u of
           None \<Rightarrow> None
         | Some unit \<Rightarrow>
             if v > 2 ^ 63 div unit then None
             else if f > 0 then
               (let v' = (v * unit + frac_ns fl f unit scale) mod 2 ^ 64 in if v' > 2 ^ 63 then None else Some (v', rest))
             else Some (v * unit, rest))"

definition parse_step :: "(nat \<Rightarrow> nat \<Rightarrow> nat \<Rightarrow> nat) \<Rightarrow> string \<Rightarrow> (nat \<times> string) option" where
  "parse_step fl s =
     (if s = [] \<or> \<not> num_char (hd s) then None
      else case leadingInt 0 s of
        None \<Rightarrow> None
      | Some (v, s1) \<Rightarrow>
          (let (f, scale, s2, post) = parse_fraction s1
           in if length s = length s1 \<and> \<not> post then None else parse_unit fl v f scale s2))"

lemma leadingInt_length: "leadingInt x s = Some (v, r) \<Longrightarrow> length r \<le> length s"
  by (induction x s rule: leadingInt.induct) (fastforce simp: Let_def split: if_splits)+

lemma leadingFraction_length: "length (snd (snd (leadingFraction x sc ov s))) \<le> length s"
proof (induction s arbitrary: x sc ov)
  case (Cons c s)
  then show ?case by (auto simp: Let_def intro: le_SucI)
qed simp

lemma parse_fraction_length: "length (fst (snd (snd (parse_fraction s)))) \<le> length s"
  by (cases s) (auto simp: split_def Let_def intro: le_SucI leadingFraction_length)

lemma parse_unit_length: "parse_unit fl v f sc s = Some (v', r) \<Longrightarrow> length r < length s"
proof -
  assume "parse_unit fl v f sc s = Some (v', r)"
  then have r: "r = dropWhile (\<lambda>c. \<not> num_char c) s" and "takeWhile (\<lambda>c. \<not> num_char c) s \<noteq> []"
    by (auto simp: parse_unit_def Let_def split: if_splits option.splits)
  moreover have "length s = length (takeWhile (\<lambda>c. \<not> num_char c) s) + length r"
    by (metis r length_append takeWhile_dropWhile_id)
  ultimately show ?thesis by simp
qed

lemma parse_step_length: "parse_step fl s = Some (v, r) \<Longrightarrow> length r < length s"
proof -
  assume a: "parse_step fl s = Some (v, r)"
  then obtain v1 s1 where l: "leadingInt 0 s = Some (v1, s1)"
    by (auto simp: parse_step_def split: if_splits option.splits)
  obtain f sc s2 post where p: "parse_fraction s1 = (f, sc, s2, post)" by (cases "parse_fraction s1") auto
  from a l p have "parse_unit fl v1 f sc s2 = Some (v, r)"
    by (auto simp: parse_step_def split: if_splits)
  from parse_unit_length[OF this] leadingInt_length[OF l] parse_fraction_length[of s1] p
  show ?thesis by simp
qed

text \<open>The loop over the terms; every iteration consumes at least the unit's first byte.\<close>

function parse_loop :: "(nat \<Rightarrow> nat \<Rightarrow> nat \<Rightarrow> nat) \<Rightarrow> nat \<Rightarrow> string \<Rightarrow> nat option" where
  "parse_loop fl d s =
     (if s = [] then Some d
      else case parse_step fl s of
        None \<Rightarrow> None
      | Some (v, rest) \<Rightarrow>
          (let d' = (d + v) mod 2 ^ 64 in if d' > 2 ^ 63 then None else parse_loop fl d' rest))"
  by auto
termination
  by (relation "measure (\<lambda>(_, _, s). length s)") (auto intro: parse_step_length)

declare parse_loop.simps [simp del]

text \<open>\<open>None\<close> is the error; the duration that comes with it is 0.\<close>

definition ParseDuration :: "(nat \<Rightarrow> nat \<Rightarrow> nat \<Rightarrow> nat) \<Rightarrow> string \<Rightarrow> duration option" where
  "ParseDuration fl orig =
     (let neg = (orig \<noteq> [] \<and> hd orig = CHR ''-'');
          s = (if orig \<noteq> [] \<and> (hd orig = CHR ''-'' \<or> hd orig = CHR ''+'') then tl orig else orig)
      in if s = ''0'' then Some 0
         else if s = [] then None
         else case parse_loop fl 0 s of
           None \<Rightarrow> None
         | Some d \<Rightarrow> if neg then Some (wrap64 (- int d)) else if d > 2 ^ 63 - 1 then None else Some (int d))"

text \<open>\<open>d, _ := time.ParseDuration(s)\<close>\<close>

definition duration_or_zero :: "(nat \<Rightarrow> nat \<Rightarrow> nat \<Rightarrow> nat) \<Rightarrow> string \<Rightarrow> duration" where
  "duration_or_zero fl s = (case ParseDuration fl s of None \<Rightarrow> 0 | Some d \<Rightarrow> d)"

section \<open>Parsing inverts printing\<close>

lemma digit_facts [simp]:
  assumes "n < 10"
  shows "is_digit (digit n)" "digit_val (digit n) = n" "num_char (digit n)"
  using assms by (simp_all add: digit_def is_digit_def digit_val_def num_char_def)

lemma not_digit [simp]:
  "\<not> is_digit CHR ''.''" "\<not> is_digit CHR ''s''" "\<not> is_digit CHR ''n''" "\<not> is_digit CHR ''m''"
  "\<not> is_digit CHR ''h''" "\<not> is_digit CHR 0xC2" "\<not> is_digit CHR 0xB5"
  by (simp_all add: is_digit_def)

lemma leadingInt_loop:
  assumes "v \<le> 2 ^ 63"
  shows "leadingInt 0 (fmtInt_loop v buf) = leadingInt v buf"
  using assms
proof (induction v arbitrary: buf rule: less_induct)
  case (less v)
  show ?case
  proof (cases "v = 0")
    case True
    then show ?thesis by (simp add: fmtInt_loop.simps)
  next
    case False
    have "leadingInt 0 (fmtInt_loop v buf) = leadingInt (v div 10) (digit (v mod 10) # buf)"
      using False less.IH[of "v div 10" "digit (v mod 10) # buf"] less.prems
      by (subst fmtInt_loop.simps) auto
    also have "v div 10 \<le> 2 ^ 63 div 10" using less.prems by (rule div_le_mono)
    then have "leadingInt (v div 10) (digit (v mod 10) # buf) = leadingInt v buf"
      using less.prems by (auto simp: Let_def)
    finally show ?thesis .
  qed
qed

lemma leadingInt_fmtInt: "v \<le> 2 ^ 63 \<Longrightarrow> leadingInt 0 (fmtInt v buf) = leadingInt v buf"
  by (simp add: fmtInt_def leadingInt_loop)

lemma fmtInt_loop_head: "\<lbrakk>v \<noteq> 0 \<or> (buf \<noteq> [] \<and> is_digit (hd buf))\<rbrakk> \<Longrightarrow>
  fmtInt_loop v buf \<noteq> [] \<and> is_digit (hd (fmtInt_loop v buf))"
proof (induction v arbitrary: buf rule: less_induct)
  case (less v)
  then show ?case
    by (cases "v = 0") (simp_all add: fmtInt_loop.simps[of v] less.IH[of "v div 10" "digit (v mod 10) # buf"] fmtInt_loop.simps[of 0])
qed

lemma fmtInt_head: "fmtInt v buf \<noteq> []" "is_digit (hd (fmtInt v buf))"
  using fmtInt_loop_head[of v buf] by (auto simp: fmtInt_def)

lemma fmtInt_loop_length: "length buf \<le> length (fmtInt_loop v buf)"
proof (induction v arbitrary: buf rule: less_induct)
  case (less v)
  show ?case
    using less.IH[of "v div 10" "digit (v mod 10) # buf"] by (cases "v = 0") (simp_all add: fmtInt_loop.simps[of v] fmtInt_loop.simps[of 0])
qed

lemma fmtInt_length: "length buf < length (fmtInt v buf)"
  using fmtInt_loop_length[of "digit (v mod 10) # buf" "v div 10"]
  by (simp add: fmtInt_def fmtInt_loop.simps[of v])

text \<open>Fractions: once a digit is printed all further ones are.\<close>

lemma frac_loop_printing:
  assumes "i \<le> 9"
  shows "\<exists>buf'. fmtFrac_loop i True v buf = (True, v div 10 ^ i, buf') \<and>
    leadingFraction 0 1 False buf' = leadingFraction (v mod 10 ^ i) (10 ^ i) False buf"
  using assms
proof (induction i arbitrary: v buf)
  case 0
  then show ?case by simp
next
  case (Suc i)
  obtain buf' where b: "fmtFrac_loop i True (v div 10) (digit (v mod 10) # buf) = (True, v div 10 div 10 ^ i, buf')"
    and l: "leadingFraction 0 1 False buf' =
      leadingFraction (v div 10 mod 10 ^ i) (10 ^ i) False (digit (v mod 10) # buf)"
    using Suc by fastforce
  have m: "v mod 10 ^ Suc i = (v div 10 mod 10 ^ i) * 10 + v mod 10"
    using mod_mult2_eq[of v 10 "10 ^ i"] by simp
  have "v div 10 mod 10 ^ i < 10 ^ i" by simp
  also have "(10::nat) ^ i \<le> 10 ^ 8" using Suc.prems by (intro power_increasing) auto
  finally have "v div 10 mod 10 ^ i < 10 ^ 8" .
  moreover have "v mod 10 < 10" by simp
  ultimately have "v div 10 mod 10 ^ i \<le> (2 ^ 63 - 1) div 10" "v div 10 mod 10 ^ i * 10 + v mod 10 \<le> 2 ^ 63"
    by auto
  then have "leadingFraction (v div 10 mod 10 ^ i) (10 ^ i) False (digit (v mod 10) # buf) =
      leadingFraction (v mod 10 ^ Suc i) (10 ^ Suc i) False buf"
    unfolding m by (auto simp: Let_def mult.commute)
  with b l show ?case by (auto simp: Let_def div_mult2_eq)
qed

lemma frac_loop:
  assumes "i \<le> 9"
  shows "\<exists>p buf' k f. fmtFrac_loop i False v buf = (p, v div 10 ^ i, buf') \<and>
    (if v mod 10 ^ i = 0 then \<not> p \<and> buf' = buf
     else p \<and> k \<le> i \<and> 0 < f \<and> f < 10 ^ k \<and> f * 10 ^ (i - k) = v mod 10 ^ i \<and>
       leadingFraction 0 1 False buf' = leadingFraction f (10 ^ k) False buf)"
  using assms
proof (induction i arbitrary: v)
  case 0
  then show ?case by (auto intro: exI[of _ False])
next
  case (Suc i)
  have m: "v mod 10 ^ Suc i = (v div 10 mod 10 ^ i) * 10 + v mod 10"
    using mod_mult2_eq[of v 10 "10 ^ i"] by simp
  show ?case
  proof (cases "v mod 10 = 0")
    case True
    obtain p buf' k f where ih: "fmtFrac_loop i False (v div 10) buf = (p, v div 10 div 10 ^ i, buf')"
      "if v div 10 mod 10 ^ i = 0 then \<not> p \<and> buf' = buf
       else p \<and> k \<le> i \<and> 0 < f \<and> f < 10 ^ k \<and> f * 10 ^ (i - k) = v div 10 mod 10 ^ i \<and>
         leadingFraction 0 1 False buf' = leadingFraction f (10 ^ k) False buf"
      using Suc.IH[of "v div 10"] Suc.prems by fastforce
    have "fmtFrac_loop (Suc i) False v buf = (p, v div 10 ^ Suc i, buf')"
      using ih(1) True by (simp add: div_mult2_eq)
    moreover have "v mod 10 ^ Suc i = 0 \<longleftrightarrow> v div 10 mod 10 ^ i = 0" using True m by simp
    moreover have "f * 10 ^ (Suc i - k) = v mod 10 ^ Suc i" if "k \<le> i" "f * 10 ^ (i - k) = v div 10 mod 10 ^ i"
      using that True m by (simp add: Suc_diff_le)
    ultimately show ?thesis using ih(2) by (intro exI[of _ p] exI[of _ buf'] exI[of _ k] exI[of _ f]) (auto split: if_splits)
  next
    case False
    obtain buf' where b: "fmtFrac_loop i True (v div 10) (digit (v mod 10) # buf) = (True, v div 10 div 10 ^ i, buf')"
      using frac_loop_printing[of i "v div 10" "digit (v mod 10) # buf"] Suc.prems by fastforce
    have t: "fmtFrac_loop (Suc i) True v buf = (True, v div 10 ^ Suc i, buf')"
      using b by (simp add: div_mult2_eq)
    with frac_loop_printing[of "Suc i" v buf] Suc.prems
    have "leadingFraction 0 1 False buf' = leadingFraction (v mod 10 ^ Suc i) (10 ^ Suc i) False buf" by simp
    moreover have "fmtFrac_loop (Suc i) False v buf = (True, v div 10 ^ Suc i, buf')"
      using b False by (simp add: div_mult2_eq)
    moreover have "0 < v mod 10 ^ Suc i" using False m by simp
    ultimately show ?thesis by (intro exI[of _ True] exI[of _ buf'] exI[of _ "Suc i"] exI[of _ "v mod 10 ^ Suc i"]) auto
  qed
qed


text \<open>One term of the printed text.\<close>

lemma unit_facts:
  "unitMap ''ns'' = Some 1" "unitMap micro_s = Some 1000" "unitMap ''ms'' = Some 1000000"
  "unitMap ''s'' = Some 1000000000" "unitMap ''m'' = Some 60000000000" "unitMap ''h'' = Some 3600000000000"
  by (simp_all add: unitMap_def micro_s_def mu_s_def)

text \<open>A unit: not empty, without digits, followed by nothing or by another number.\<close>

definition unit_text :: "string \<Rightarrow> nat \<Rightarrow> bool" where
  "unit_text u n \<longleftrightarrow> u \<noteq> [] \<and> list_all (\<lambda>c. \<not> num_char c) u \<and> unitMap u = Some n \<and> 0 < n"

lemma unit_text_facts [simp]:
  "unit_text ''ns'' 1" "unit_text micro_s 1000" "unit_text ''ms'' 1000000"
  "unit_text ''s'' 1000000000" "unit_text ''m'' 60000000000" "unit_text ''h'' 3600000000000"
  by (simp_all add: unit_text_def unit_facts num_char_def) (simp_all add: micro_s_def num_char_def)

definition number_or_end :: "string \<Rightarrow> bool" where
  "number_or_end s \<longleftrightarrow> s = [] \<or> num_char (hd s)"

lemma number_or_end_simps [simp]: "number_or_end []" "number_or_end (fmtInt v buf)"
  by (simp_all add: number_or_end_def num_char_def fmtInt_head)

lemma unit_split:
  assumes "unit_text u n" and "number_or_end rest"
  shows "takeWhile (\<lambda>c. \<not> num_char c) (u @ rest) = u" "dropWhile (\<lambda>c. \<not> num_char c) (u @ rest) = rest"
  using assms by (auto simp: unit_text_def number_or_end_def list_all_iff takeWhile_append dropWhile_append
      takeWhile_eq_Nil_iff dropWhile_eq_self_iff)

lemma unit_head:
  assumes "unit_text u n"
  obtains c t where "u = c # t" "\<not> is_digit c" "c \<noteq> CHR ''.''"
  using assms by (cases u) (auto simp: unit_text_def num_char_def)

lemma parse_step_head: "\<not> (fmtInt v buf = [] \<or> \<not> num_char (hd (fmtInt v buf)))"
  by (simp add: fmtInt_head num_char_def)

lemma parse_step_int:
  assumes u: "unit_text u n" and rest: "number_or_end rest" and v: "v * n \<le> 2 ^ 63"
  shows "parse_step fl (fmtInt v (u @ rest)) = Some (v * n, rest)"
proof -
  obtain c t where c: "u = c # t" "\<not> is_digit c" "c \<noteq> CHR ''.''" using u by (rule unit_head)
  have n: "0 < n" using u by (simp add: unit_text_def)
  have "v \<le> v * n" using n by simp
  then have "v \<le> 2 ^ 63" using v by linarith
  then have "leadingInt 0 (fmtInt v (u @ rest)) = Some (v, u @ rest)"
    using c by (simp add: leadingInt_fmtInt)
  moreover have "parse_fraction (u @ rest) = (0, 1, u @ rest, False)" using c by simp
  moreover have "length (fmtInt v (u @ rest)) \<noteq> length (u @ rest)" using fmtInt_length by (metis less_irrefl)
  moreover have "v \<le> 2 ^ 63 div n" using v n by (simp add: less_eq_div_iff_mult_less_eq)
  then have "parse_unit fl v 0 1 (u @ rest) = Some (v * n, rest)"
    using u unit_split[OF u rest] by (simp add: parse_unit_def unit_text_def)
  ultimately show ?thesis
    using parse_step_head[of v "u @ rest"] by (simp add: parse_step_def)
qed

text \<open>A term with its fraction: \<open>v\<close> in units of \<open>10 ^ prec\<close> nanoseconds.\<close>

lemma parse_step_frac:
  assumes u: "unit_text u (10 ^ prec)" and p: "prec \<le> 9" and v: "v < 2 ^ 63" and f: "fmtFrac v prec u = (w, buf)"
  shows "w = v div 10 ^ prec"
    and "m * 10 ^ prec + v mod 10 ^ prec < 2 ^ 63 \<Longrightarrow>
      parse_step fl (fmtInt m buf) = Some (m * 10 ^ prec + v mod 10 ^ prec, [])"
proof -
  let ?N = "(10::nat) ^ prec"
  obtain q buf' k g where loop: "fmtFrac_loop prec False v u = (q, v div ?N, buf')"
    and alt: "if v mod ?N = 0 then \<not> q \<and> buf' = u
       else q \<and> k \<le> prec \<and> 0 < g \<and> g < 10 ^ k \<and> g * 10 ^ (prec - k) = v mod ?N \<and>
         leadingFraction 0 1 False buf' = leadingFraction g (10 ^ k) False u"
    using frac_loop[OF p, of v u] by blast
  from f loop have w: "w = v div ?N" and buf: "buf = (if q then CHR ''.'' # buf' else buf')"
    by (auto simp: fmtFrac_def)
  show "w = v div ?N" by (fact w)
  assume m: "m * ?N + v mod ?N < 2 ^ 63"
  show "parse_step fl (fmtInt m buf) = Some (m * ?N + v mod ?N, [])"
  proof (cases "v mod ?N = 0")
    case True
    with alt buf have "buf = u @ []" by simp
    then show ?thesis using parse_step_int[OF u, of "[]" m fl] m True by simp
  next
    case False
    with alt have q: q and k: "k \<le> prec" and g: "0 < g" "g < 10 ^ k" "g * 10 ^ (prec - k) = v mod ?N"
      and lf: "leadingFraction 0 1 False buf' = leadingFraction g (10 ^ k) False u" by auto
    obtain c t where c: "u = c # t" "\<not> is_digit c" "c \<noteq> CHR ''.''" using u by (rule unit_head)
    have lfu: "leadingFraction 0 1 False buf' = (g, 10 ^ k, u)" using lf c by simp
    have fr: "parse_fraction buf = (g, 10 ^ k, u, length buf' \<noteq> length u)" using q buf lfu by simp
    have mN: "m * ?N < 2 ^ 63" using m by simp
    have "m \<le> m * ?N" by simp
    then have "m \<le> 2 ^ 63" using mN by linarith
    then have li: "leadingInt 0 (fmtInt m buf) = Some (m, buf)" using q buf by (simp add: leadingInt_fmtInt)
    have "(10::nat) ^ k dvd ?N" "?N div 10 ^ k = 10 ^ (prec - k)"
      using k by (simp_all add: le_imp_power_dvd power_diff)
    then have "frac_ns fl g ?N (10 ^ k) = v mod ?N" using g by (simp add: frac_ns_def)
    moreover have "m \<le> 2 ^ 63 div ?N" using mN by (simp add: less_eq_div_iff_mult_less_eq)
    moreover have "(m * ?N + v mod ?N) mod 2 ^ 64 = m * ?N + v mod ?N" using m by simp
    moreover note unit_split[OF u number_or_end_simps(1), unfolded append_Nil2]
    ultimately have "parse_unit fl m g (10 ^ k) u = Some (m * ?N + v mod ?N, [])"
      using u g m unfolding parse_unit_def by (simp only: Let_def unit_text_def) simp
    then show ?thesis
      using fr li parse_step_head[of m buf] fmtInt_length[of buf m] by (simp add: parse_step_def)
  qed
qed


lemma parse_loop_term:
  assumes "parse_step fl s = Some (v, rest)" and "d + v < 2 ^ 63" and "s \<noteq> []"
  shows "parse_loop fl d s = parse_loop fl (d + v) rest"
  using assms by (subst parse_loop.simps) simp

lemma parse_loop_end: "parse_loop fl d [] = Some d"
  by (simp add: parse_loop.simps)

lemma parse_fmt_small:
  assumes "unit_text unit (10 ^ prec)" and "prec \<le> 9" and "u < 2 ^ 63"
  shows "parse_loop fl 0 (fmt_small u prec unit) = Some u"
proof -
  obtain w buf where f: "fmtFrac u prec unit = (w, buf)" by fastforce
  note step = parse_step_frac[OF assms f]
  have "w * 10 ^ prec + u mod 10 ^ prec = u" by (simp only: step(1) div_mult_mod_eq)
  then have "parse_step fl (fmtInt w buf) = Some (u, [])" using step(2)[of w fl] assms(3) by simp
  from parse_loop_term[OF this] f assms(3) show ?thesis
    by (simp add: fmt_small_def fmtInt_head parse_loop_end)
qed

lemma parse_loop_int:
  assumes "unit_text u n" and "number_or_end rest" and "d + v * n < 2 ^ 63"
  shows "parse_loop fl d (fmtInt v (u @ rest)) = parse_loop fl (d + v * n) rest"
  using parse_loop_term[OF parse_step_int[OF assms(1,2)]] assms(3) by (simp add: fmtInt_head)

lemma clock_sum:
  fixes u w r h m s k :: nat
  assumes "u = w * 10 ^ 9 + r" and "w = k * 60 + s" and "k = h * 60 + m"
  shows "u = h * 3600000000000 + m * 60000000000 + (s * 10 ^ 9 + r)"
  unfolding assms by (simp add: algebra_simps)

lemma parse_fmt_large:
  assumes "u < 2 ^ 63"
  shows "parse_loop fl 0 (fmt_large u) = Some u"
proof -
  let ?N = "10 ^ 9 :: nat"
  obtain w buf where f: "fmtFrac u 9 ''s'' = (w, buf)" by fastforce
  have s: "unit_text ''s'' (10 ^ 9)" by simp
  note step = parse_step_frac[OF s order_refl assms f]
  have w: "w = u div ?N" by (rule step(1))
  have u: "u = w * ?N + u mod ?N" by (simp add: w)
  have sec: "parse_loop fl d (fmtInt (w mod 60) buf) = Some (d + (w mod 60 * ?N + u mod ?N))"
    if "d + (w mod 60 * ?N + u mod ?N) < 2 ^ 63" for d
    using parse_loop_term[OF step(2)[of "w mod 60" fl], of d] that by (simp add: fmtInt_head parse_loop_end)
  let ?m = "w div 60"
  have w60: "w = ?m * 60 + w mod 60" by simp
  have minutes: "parse_loop fl d (fmtInt (?m mod 60) (''m'' @ fmtInt (w mod 60) buf)) =
      Some (d + ?m mod 60 * 60000000000 + (w mod 60 * ?N + u mod ?N))"
    if "d + ?m mod 60 * 60000000000 + (w mod 60 * ?N + u mod ?N) < 2 ^ 63" for d
    using that by (subst parse_loop_int[where n = 60000000000]) (simp_all add: sec)
  have hours: "parse_loop fl 0 (fmtInt (?m div 60) (''h'' @ fmtInt (?m mod 60) (''m'' @ fmtInt (w mod 60) buf))) =
      Some (?m div 60 * 3600000000000 + ?m mod 60 * 60000000000 + (w mod 60 * ?N + u mod ?N))"
    if "?m div 60 * 3600000000000 + ?m mod 60 * 60000000000 + (w mod 60 * ?N + u mod ?N) < 2 ^ 63"
    using that by (subst parse_loop_int[where n = 3600000000000]) (simp_all add: minutes[unfolded append.simps])
  have total: "u = ?m div 60 * 3600000000000 + ?m mod 60 * 60000000000 + (w mod 60 * ?N + u mod ?N)"
  proof -
    have "?m = ?m div 60 * 60 + ?m mod 60" by simp
    from clock_sum[OF u w60 this] show ?thesis .
  qed
  show ?thesis
  proof (cases "?m = 0")
    case True
    with total f sec[of 0] assms show ?thesis by (simp add: fmt_large_def Let_def)
  next
    case False
    show ?thesis
    proof (cases "?m div 60 = 0")
      case True
      with False total f minutes[of 0] assms show ?thesis by (simp add: fmt_large_def Let_def)
    next
      case hour: False
      with False total f hours assms show ?thesis by (simp add: fmt_large_def Let_def)
    qed
  qed
qed

lemma parse_string:
  assumes "0 < d" and "d < 2 ^ 63"
  shows "ParseDuration fl (Duration_String d) = Some d"
proof -
  let ?u = "nat d" and ?s = "Duration_String d"
  have u: "?u < 2 ^ 63" "?u \<noteq> 0" using assms by auto
  have ns: "unit_text ''ns'' (10 ^ 0)" by (simp only: power_0 unit_text_facts)
  have loop: "parse_loop fl 0 ?s = Some ?u"
    using assms u parse_fmt_small[OF ns, of ?u fl] parse_fmt_small[of micro_s 3 ?u fl]
      parse_fmt_small[of "''ms''" 6 ?u fl] parse_fmt_large[of ?u fl]
    by (simp add: Duration_String_def Let_def)
  have "is_digit (hd ?s)" "?s \<noteq> []"
    using assms by (simp_all add: Duration_String_def fmt_small_def fmt_large_def split_def Let_def fmtInt_head)
  moreover have "?s \<noteq> ''0''"
  proof
    assume "?s = ''0''"
    moreover have "parse_loop fl 0 ''0'' = None"
      by (simp add: parse_loop.simps parse_step_def num_char_def is_digit_def digit_val_def parse_unit_def)
    ultimately show False using loop by simp
  qed
  moreover have "hd ?s \<noteq> CHR ''-''" "hd ?s \<noteq> CHR ''+''" using \<open>is_digit (hd ?s)\<close> by (auto simp: is_digit_def)
  ultimately show ?thesis using loop u assms by (simp add: ParseDuration_def)
qed

text \<open>A parsed duration is always in the range of its type.\<close>

lemma ParseDuration_int64: "ParseDuration fl s = Some d \<Longrightarrow> int64 d"
proof -
  assume "ParseDuration fl s = Some d"
  then consider "d = 0" | n where "d = wrap64 n" | n where "d = int n" "n \<le> 2 ^ 63 - 1"
    by (fastforce simp: ParseDuration_def Let_def split: if_splits option.splits)
  then show ?thesis
  proof cases
    case 3
    then have "int n \<le> int (2 ^ 63 - 1)" by (simp only: of_nat_le_iff)
    with 3 show ?thesis by (simp add: int64_def)
  qed (simp_all add: int64_def [of 0])
qed

lemma duration_or_zero_int64: "int64 (duration_or_zero fl s)"
  using ParseDuration_int64 by (auto simp: duration_or_zero_def int64_def [of 0] split: option.split)

lemma duration_or_zero_string:
  "0 < d \<Longrightarrow> d < 2 ^ 63 \<Longrightarrow> duration_or_zero fl (Duration_String d) = d"
  by (simp add: duration_or_zero_def parse_string)

section \<open>Whole seconds\<close>

text \<open>
  \<open>int32(d.Seconds())\<close>: the float is exact enough below \<open>2^22\<close> seconds (about 48 days) that
  truncation gives the whole seconds, rounded toward zero; beyond that the rounding of the
  float and the conversion of an out-of-range value are the parameter \<open>secs\<close>.
\<close>

definition seconds_int32 :: "(duration \<Rightarrow> int) \<Rightarrow> duration \<Rightarrow> int" where
  "seconds_int32 secs d =
     (if \<bar>d\<bar> < 2 ^ 22 * Second then sgn d * (\<bar>d\<bar> div Second) else secs d)"

end
