(* ===== verification/Broker_Interface.thy ===== *)
theory Broker_Interface
  imports Dispatch Go_Duration
begin

text \<open>
  What the broker transports (\<open>src/transport/sqs\<close>, \<open>pubsub\<close>, \<open>redis\<close>, \<open>redisstreams\<close>) have in
  common, and the interface between them and the pipeline.

  A client library is a parameter. Its answers may depend on everything that was asked
  before, so an answer is any function of the list of calls made so far, the present one
  last; the list is part of the transport's state. This covers a broker that fails, loses,
  duplicates or reorders, and one that other parties use at the same time.

  \<open>stamped\<close> are the attributes \<open>Publish\<close> sends. \<open>sub_env\<close> is what the goroutine of a \<open>Subscribe\<close> loop
  sees in an iteration: whether the context is done at the top, whether the transport has
  been closed, which case the \<open>select\<close> picks when several are ready, and whether the context
  is done when the receiving call returns; a loop runs over a list of them and ends with
  \<open>SubRunning\<close> when the list does.

  The locale \<open>broker\<close> is the contract on which the pipeline's part rests: every settlement
  method keeps the transport's invariant and adds exactly the client calls it says. Inside it, \<open>processMessage\<close> is shown to add
  exactly the calls of the message's outcome. Interpreted for all five transports.
\<close>

section \<open>Attributes of a published message\<close>

definition notBefore_key :: string where "notBefore_key = ''X-NotBefore''"

definition topicKey_or_default :: "string \<Rightarrow> string" where
  "topicKey_or_default k = (if k = '''' then ''X-Topic'' else k)"

definition attrs_or_make :: "smap \<Rightarrow> (string \<rightharpoonup> string)" where
  "attrs_or_make m = (case m of None \<Rightarrow> Map.empty | Some f \<Rightarrow> f)"

definition stamped :: "string \<Rightarrow> Message \<Rightarrow> (string \<rightharpoonup> string)" where
  "stamped topicKey msg =
     (let attrs = (attrs_or_make (m_Attributes msg))(topicKey \<mapsto> m_Topic msg)
      in if m_NotBefore msg > 0 then attrs(notBefore_key \<mapsto> Duration_String (m_NotBefore msg)) else attrs)"

text \<open>
  The assignments of \<open>Publish\<close> go to the caller's map unless it is nil: what the caller's
  map holds afterwards.
\<close>

definition callers_map :: "smap \<Rightarrow> (string \<rightharpoonup> string) \<Rightarrow> smap" where
  "callers_map m attrs = (case m of None \<Rightarrow> None | Some _ \<Rightarrow> Some attrs)"

text \<open>The receiving side: \<open>if nb, ok := attrs["X-NotBefore"]; ok { notBefore, _ = time.ParseDuration(nb) }\<close>.\<close>

definition read_notBefore :: "(nat \<Rightarrow> nat \<Rightarrow> nat \<Rightarrow> nat) \<Rightarrow> smap \<Rightarrow> duration" where
  "read_notBefore fl attrs = (case smap_get attrs notBefore_key of None \<Rightarrow> 0 | Some nb \<Rightarrow> duration_or_zero fl nb)"

text \<open>
  A message that can be carried: its delay is a duration that is not negative, and an
  immediate message has no left-over delay attribute.
\<close>

definition carriable :: "Message \<Rightarrow> bool" where
  "carriable msg \<longleftrightarrow> 0 \<le> m_NotBefore msg \<and> m_NotBefore msg < 2 ^ 63 \<and>
     (m_NotBefore msg = 0 \<longrightarrow> smap_get (m_Attributes msg) notBefore_key = None)"

lemma stamped_topic [simp]:
  "k \<noteq> notBefore_key \<Longrightarrow> stamped k msg k = Some (m_Topic msg)"
  by (simp add: stamped_def Let_def)

lemma stamped_other:
  "j \<noteq> k \<Longrightarrow> j \<noteq> notBefore_key \<Longrightarrow> stamped k msg j = smap_get (m_Attributes msg) j"
  by (auto simp: stamped_def Let_def attrs_or_make_def smap_get_def split: option.split)

lemma stamped_notBefore:
  assumes "carriable msg" and "k \<noteq> notBefore_key"
  shows "read_notBefore fl (Some (stamped k msg)) = m_NotBefore msg"
  using assms duration_or_zero_string[of "m_NotBefore msg" fl]
  by (cases "m_NotBefore msg = 0")
    (auto simp: carriable_def stamped_def read_notBefore_def Let_def smap_get_def attrs_or_make_def split: option.splits)

lemma read_notBefore_int64: "int64 (read_notBefore fl attrs)"
  using duration_or_zero_int64 by (auto simp: read_notBefore_def int64_def [of 0] split: option.split)

lemma default_topicKey [simp]:
  "topicKey_or_default (topicKey_or_default k) = topicKey_or_default k"
  "topicKey_or_default k = notBefore_key \<longleftrightarrow> k = notBefore_key"
  by (auto simp: topicKey_or_default_def notBefore_key_def)

section \<open>Subscribe loops\<close>

record sub_env =
  ev_ctx :: bool
  ev_close :: bool
  ev_pickCtx :: bool
  ev_ctxAfter :: bool

datatype sub_result = SubRunning | SubReturned "go_error option"

type_synonym 'h ConsumeHandler = "'h \<Rightarrow> Message list \<Rightarrow> go_error option \<times> 'h"

text \<open>A handler that also keeps the batches it gets.\<close>

definition keeping :: "'h ConsumeHandler \<Rightarrow> ('h \<times> Message list list) ConsumeHandler" where
  "keeping handler h msgs = (let (err, h') = handler (fst h) msgs in (err, (h', snd h @ [msgs])))"

text \<open>\<open>for i, m := range ms { messages[i] = f(m) }\<close> where \<open>f\<close> may panic.\<close>

fun map_go :: "('a \<Rightarrow> 'b go) \<Rightarrow> 'a list \<Rightarrow> 'b list go" where
  "map_go f [] = Inr []"
| "map_go f (x # xs) = (case f x of Inl p \<Rightarrow> Inl p | Inr y \<Rightarrow> map_sum id ((#) y) (map_go f xs))"

lemma map_go_Cons_Inr:
  "map_go f (x # xs) = Inr ys \<longleftrightarrow> (\<exists>y ys'. ys = y # ys' \<and> f x = Inr y \<and> map_go f xs = Inr ys')"
  by (cases "f x"; cases "map_go f xs") auto

lemma map_go_Inr: "map_go f xs = Inr ys \<longleftrightarrow> list_all2 (\<lambda>x y. f x = Inr y) xs ys"
  by (induction xs arbitrary: ys) (auto simp: map_go_Cons_Inr list_all2_Cons1 simp del: map_go.simps(2))

text \<open>The answers to the calls of a history that satisfy \<open>P\<close>, in order.\<close>

definition answers :: "('c \<Rightarrow> bool) \<Rightarrow> ('c list \<Rightarrow> 'r) \<Rightarrow> 'c list \<Rightarrow> 'r list" where
  "answers P ans hist = map (\<lambda>n. ans (take (Suc n) hist)) (filter (\<lambda>n. P (hist ! n)) [0..<length hist])"

lemma answers_Nil [simp]: "answers P ans [] = []"
  by (simp add: answers_def)

lemma answers_snoc: "answers P ans (hist @ [c]) = answers P ans hist @ (if P c then [ans (hist @ [c])] else [])"
proof -
  have "filter (\<lambda>n. P ((hist @ [c]) ! n)) [0..<length hist] = filter (\<lambda>n. P (hist ! n)) [0..<length hist]"
    by (rule filter_cong) (auto simp: nth_append)
  then show ?thesis by (auto simp: answers_def)
qed

text \<open>
  The shape of every \<open>Subscribe\<close>: an iteration either returns from the loop or has batches
  for the handler, whose error ends the loop as well.
\<close>

datatype iteration = Stop "go_error option" | Batches "Message list list"

fun handle_batches :: "'h ConsumeHandler \<Rightarrow> Message list list \<Rightarrow> 'h \<Rightarrow> go_error option \<times> 'h" where
  "handle_batches handler [] h = (None, h)"
| "handle_batches handler (b # bs) h =
     (case handler h b of (Some err, h') \<Rightarrow> (Some err, h') | (None, h') \<Rightarrow> handle_batches handler bs h')"

fun subscribe_loop :: "(sub_env \<Rightarrow> 's \<Rightarrow> (iteration \<times> 's) go) \<Rightarrow> 'h ConsumeHandler \<Rightarrow> sub_env list \<Rightarrow> 's \<Rightarrow> 'h
    \<Rightarrow> (sub_result \<times> 's \<times> 'h) go" where
  "subscribe_loop body handler [] s h = Inr (SubRunning, s, h)"
| "subscribe_loop body handler (e # es) s h =
     (case body e s of
        Inl p \<Rightarrow> Inl p
      | Inr (Stop r, s') \<Rightarrow> Inr (SubReturned r, s', h)
      | Inr (Batches bs, s') \<Rightarrow>
          (case handle_batches handler bs h of
             (Some err, h') \<Rightarrow> Inr (SubReturned (Some err), s', h')
           | (None, h') \<Rightarrow> subscribe_loop body handler es s' h'))"

text \<open>
  Why a subscription is where it is: it still runs and nothing is left over, an iteration
  returned, or the handler failed on the last batch it got and the rest of that read is left.
\<close>

fun ended :: "('s \<Rightarrow> bool) \<Rightarrow> (sub_env \<Rightarrow> 's \<Rightarrow> (iteration \<times> 's) go) \<Rightarrow> 'h ConsumeHandler \<Rightarrow> sub_env list \<Rightarrow> 's \<Rightarrow>
    Message list list \<Rightarrow> Message list list \<Rightarrow> sub_result \<Rightarrow> bool" where
  "ended ok body handler es s' bs rest SubRunning \<longleftrightarrow> rest = []"
| "ended ok body handler es s' bs rest (SubReturned x) \<longleftrightarrow>
     rest = [] \<and> (\<exists>e \<in> set es. \<exists>s. ok s \<and> body e s = Inr (Stop x, s')) \<or>
     bs \<noteq> [] \<and> x \<noteq> None \<and> (\<exists>g. fst (handler g (last bs)) = x) \<and>
       (\<exists>e \<in> set es. \<exists>s new. ok s \<and> body e s = Inr (Batches new, s') \<and> length rest < length new)"

lemma keeping_step: "handler h b = (err, h') \<Longrightarrow> keeping handler (h, log) b = (err, (h', log @ [b]))"
  by (simp add: keeping_def)

lemma handle_batches_keeping:
  "\<exists>h' got rest err. handle_batches (keeping handler) bs (h, log) = (err, (h', log @ got)) \<and>
    bs = got @ rest \<and> (err = None \<longrightarrow> rest = []) \<and>
    (\<forall>e. err = Some e \<longrightarrow> got \<noteq> [] \<and> (\<exists>g. fst (handler g (last got)) = Some e))"
proof (induction bs arbitrary: h log)
  case Nil
  show ?case by auto
next
  case (Cons b bs)
  obtain herr h1 where hh: "handler h b = (herr, h1)" by fastforce
  show ?case
  proof (cases herr)
    case (Some e)
    then have "handle_batches (keeping handler) (b # bs) (h, log) = (Some e, (h1, log @ [b]))"
      using hh by (simp add: keeping_step)
    moreover have "\<exists>g. fst (handler g (last [b])) = Some e" using hh Some by (auto intro: exI[of _ h])
    ultimately show ?thesis
      by - (rule exI[of _ h1], rule exI[of _ "[b]"], rule exI[of _ bs], rule exI[of _ "Some e"], simp)
  next
    case None
    obtain h' got rest err where ih: "handle_batches (keeping handler) bs (h1, log @ [b]) = (err, (h', (log @ [b]) @ got))"
      "bs = got @ rest" "err = None \<longrightarrow> rest = []"
      "\<forall>e. err = Some e \<longrightarrow> got \<noteq> [] \<and> (\<exists>g. fst (handler g (last got)) = Some e)"
      using Cons.IH[of h1 "log @ [b]"] by blast
    then show ?thesis using hh None
      by - (rule exI[of _ h'], rule exI[of _ "b # got"], rule exI[of _ rest], rule exI[of _ err],
          auto simp: keeping_step)
  qed
qed


lemma ended_later:
  assumes "ended ok body handler es s' bs rest r"
  shows "ended ok body handler (e # es) s' (got @ bs) rest r"
  using assms by (cases r) auto

text \<open>
  The contract of an iteration: it does not panic, and it has for the handler exactly what
  it received.
\<close>

locale subscription =
  fixes body :: "sub_env \<Rightarrow> 's \<Rightarrow> (iteration \<times> 's) go" and ok :: "'s \<Rightarrow> bool"
    and received :: "'s \<Rightarrow> Message list list"
  assumes body_total: "ok s \<Longrightarrow> \<exists>it s'. body e s = Inr (it, s') \<and> ok s'"
    and body_stop: "ok s \<Longrightarrow> body e s = Inr (Stop r, s') \<Longrightarrow> received s' = received s"
    and body_batches: "ok s \<Longrightarrow> body e s = Inr (Batches bs, s') \<Longrightarrow> received s' = received s @ bs"
begin

text \<open>
  The handler gets what was received, once and in order, and the loop returns only because
  an iteration did or because the handler failed on the last batch it got.
\<close>

lemma delivers:
  assumes "ok s"
  shows "\<exists>r s' h' bs rest. subscribe_loop body (keeping handler) es s (h, log) = Inr (r, s', (h', log @ bs)) \<and>
    ok s' \<and> received s' = received s @ bs @ rest \<and> ended ok body handler es s' bs rest r"
  using assms
proof (induction es arbitrary: s h log)
  case Nil
  show ?case by (intro exI[of _ SubRunning] exI[of _ s] exI[of _ h] exI[of _ "[]"]) (simp add: Nil)
next
  case (Cons e es)
  obtain it s1 where b: "body e s = Inr (it, s1)" and ok1: "ok s1" using body_total Cons.prems by blast
  show ?case
  proof (cases it)
    case (Stop x)
    have "ended ok body handler (e # es) s1 [] [] (SubReturned x)" using b Stop Cons.prems by auto
    with Stop b ok1 body_stop[OF Cons.prems] show ?thesis
      by (intro exI[of _ "SubReturned x"] exI[of _ s1] exI[of _ h] exI[of _ "[]"]) simp
  next
    case (Batches new)
    from b Batches have rec: "received s1 = received s @ new" using body_batches[OF Cons.prems] by simp
    obtain h1 got rest err where hb: "handle_batches (keeping handler) new (h, log) = (err, (h1, log @ got))"
      "new = got @ rest" "err = None \<Longrightarrow> rest = []"
      "\<And>e. err = Some e \<Longrightarrow> got \<noteq> [] \<and> (\<exists>g. fst (handler g (last got)) = Some e)"
      using handle_batches_keeping[of handler new h log] by blast
    show ?thesis
    proof (cases err)
      case (Some x)
      have "ended ok body handler (e # es) s1 got rest (SubReturned (Some x))"
        using b Batches hb(2,4) Some Cons.prems by auto
      with b Batches hb(1,2) rec ok1 Some show ?thesis
        by (intro exI[of _ "SubReturned (Some x)"] exI[of _ s1] exI[of _ h1] exI[of _ got] exI[of _ rest]) simp
    next
      case None
      obtain r s' h' bs rest' where ih: "ok s'" "received s' = received s1 @ bs @ rest'" "ended ok body handler es s' bs rest' r"
        "subscribe_loop body (keeping handler) es s1 (h1, log @ got) = Inr (r, s', (h', (log @ got) @ bs))"
        using Cons.IH[OF ok1, of h1 "log @ got"] by blast
      with b Batches hb(1-3) rec None ended_later[OF ih(3), of e got] show ?thesis
        by (intro exI[of _ r] exI[of _ s'] exI[of _ h'] exI[of _ "got @ bs"] exI[of _ rest']) simp
    qed
  qed
qed

end

text \<open>Where an iteration has at most one batch, nothing that was received is left over.\<close>

locale batch_subscription = subscription +
  assumes body_one: "ok s \<Longrightarrow> body e s = Inr (Batches bs, s') \<Longrightarrow> length bs \<le> 1"
begin

lemma delivers_all:
  assumes "ok s"
  shows "\<exists>r s' h' bs. subscribe_loop body (keeping handler) es s (h, log) = Inr (r, s', (h', log @ bs)) \<and>
    ok s' \<and> received s' = received s @ bs \<and>
    (\<forall>x. r = SubReturned x \<longrightarrow>
       (\<exists>e \<in> set es. \<exists>s1. ok s1 \<and> body e s1 = Inr (Stop x, s')) \<or>
       bs \<noteq> [] \<and> x \<noteq> None \<and> (\<exists>g. fst (handler g (last bs)) = x))"
proof -
  obtain r s' h' bs rest where run: "subscribe_loop body (keeping handler) es s (h, log) = Inr (r, s', (h', log @ bs))"
    and ok: "ok s'" and rec: "received s' = received s @ bs @ rest"
    and why: "ended ok body handler es s' bs rest r"
    using delivers[OF assms, of handler es h log] by blast
  have "rest = []"
  proof (rule ccontr)
    assume ne: "rest \<noteq> []"
    with why obtain e s1 new where "ok s1" "body e s1 = Inr (Batches new, s')" and len: "length rest < length new"
      by (cases r) auto
    with body_one have "length new \<le> 1" by blast
    with len ne show False by (cases rest) auto
  qed
  with run ok rec why show ?thesis
    by (intro exI[of _ r] exI[of _ s'] exI[of _ h'] exI[of _ bs]) auto
qed

end

section \<open>The contract with the pipeline\<close>

text \<open>The client calls with which the pipeline settles an outcome.\<close>

definition settle_calls :: "'t Transport \<Rightarrow> ('t \<Rightarrow> Message list \<Rightarrow> 'c list) \<Rightarrow> ('t \<Rightarrow> Message \<Rightarrow> duration \<Rightarrow> 'c list)
    \<Rightarrow> ('t \<Rightarrow> Message \<Rightarrow> 'c list) \<Rightarrow> 't \<Rightarrow> RetryOutcome \<Rightarrow> 'c list" where
  "settle_calls T ack nack dlq t outcome =
     (let m = o_Message outcome
      in case o_Action outcome of
           Ack \<Rightarrow> ack t [m]
         | RetryWithDelay \<Rightarrow> nack t m (o_Delay outcome)
         | DLQ \<Rightarrow> dlq t m @ (if fst (t_SendToDLQ T t m) = None then ack (snd (t_SendToDLQ T t m)) [m] else [])
         | _ \<Rightarrow> [])"

locale broker =
  fixes T :: "'t Transport" and ok :: "'t \<Rightarrow> bool" and client_calls :: "'t \<Rightarrow> 'c list"
    and ack_calls :: "'t \<Rightarrow> Message list \<Rightarrow> 'c list"
    and nack_calls :: "'t \<Rightarrow> Message \<Rightarrow> duration \<Rightarrow> 'c list"
    and dlq_calls :: "'t \<Rightarrow> Message \<Rightarrow> 'c list"
  assumes Ack_ok: "ok t \<Longrightarrow> ok (snd (t_Ack T t ms))"
    and Nack_ok: "ok t \<Longrightarrow> ok (snd (t_Nack T t m d))"
    and DLQ_ok: "ok t \<Longrightarrow> ok (snd (t_SendToDLQ T t m))"
    and Ack_law: "ok t \<Longrightarrow> client_calls (snd (t_Ack T t ms)) = client_calls t @ ack_calls t ms"
    and Nack_law: "ok t \<Longrightarrow> client_calls (snd (t_Nack T t m d)) = client_calls t @ nack_calls t m d"
    and DLQ_law: "ok t \<Longrightarrow> client_calls (snd (t_SendToDLQ T t m)) = client_calls t @ dlq_calls t m"
begin

lemmas laws = Ack_ok Nack_ok DLQ_ok Ack_law Nack_law DLQ_law

lemma settle_DLQ_law:
  assumes "rt_transport r = T" and "ok (x_transport w)"
  shows "ok (x_transport (settle_DLQ r topic m err w)) \<and>
    client_calls (x_transport (settle_DLQ r topic m err w)) = client_calls (x_transport w) @
      dlq_calls (x_transport w) m @ (if fst (t_SendToDLQ T (x_transport w) m) = None
        then ack_calls (snd (t_SendToDLQ T (x_transport w) m)) [m] else [])"
  using assms(2) by (auto simp: settle_DLQ_def split_def Let_def frame_simps assms(1) laws split: option.split)

lemma settle_Ack_law:
  assumes "rt_transport r = T" and "ok (x_transport w)" and "settle_Ack r now msg outcome w = Inr (res, w')"
  shows "ok (x_transport w') \<and>
    client_calls (x_transport w') = client_calls (x_transport w) @ ack_calls (x_transport w) [o_Message outcome]"
  using assms(2,3)
  by (auto simp: settle_Ack_def split_def Let_def frame_simps assms(1) laws split: option.splits sum.splits)

lemma switch_law:
  assumes T: "rt_transport r = T" and ok: "ok (x_transport w)"
    and p: "process_switch r now msg outcome w = Inr (res, w')"
  shows "ok (x_transport w') \<and> client_calls (x_transport w') = client_calls (x_transport w) @
    settle_calls T ack_calls nack_calls dlq_calls (x_transport w) outcome"
proof (cases "o_Action outcome")
  case Ack
  with p settle_Ack_law[OF T ok] show ?thesis by (simp add: process_switch_def settle_calls_def)
next
  case Retry
  with p have "x_transport w' = x_transport w"
    by (auto simp: process_switch_def settle_Retry_def frame_simps dest: arg_cong[where f = "\<lambda>x. x_transport (snd x)"])
  with Retry ok show ?thesis by (simp add: settle_calls_def)
next
  case RetryWithDelay
  with p ok show ?thesis
    by (auto simp: process_switch_def settle_calls_def settle_RetryWithDelay_def frame_simps T laws)
next
  case DLQ
  with p settle_DLQ_law[OF T ok] show ?thesis by (auto simp: process_switch_def settle_calls_def Let_def)
next
  case (OtherAction a)
  with p ok show ?thesis by (simp add: process_switch_def settle_calls_def)
qed

lemma process_law:
  assumes T: "rt_transport r = T" and ok: "ok (x_transport w)" and p: "processMessage r now msg entry w = Inr (res, w')"
  shows "ok (x_transport w') \<and> client_calls (x_transport w') = client_calls (x_transport w) @
    settle_calls T ack_calls nack_calls dlq_calls (x_transport w) (outcome_of r (x_user w) msg entry)"
proof -
  obtain w1 where w1: "x_transport w1 = x_transport w"
    and "processMessage r now msg entry w = process_switch r now msg (outcome_of r (x_user w) msg entry) w1"
    by (rule processMessage_switch)
  with switch_law[OF T, of w1 now msg "outcome_of r (x_user w) msg entry" res w'] ok p show ?thesis by simp
qed

end

text \<open>
  The in-memory transport as a broker: its backlog stands for the calls. A nack adds the
  message to it, unless the transport is closed.
\<close>

interpretation memory: broker MemoryTransport "\<lambda>_. True" mt_messages "\<lambda>_ _. []"
    "\<lambda>t m d. if mt_closed t then [] else [m]" "\<lambda>_ _. []"
  by unfold_locales
    (simp_all add: MemoryTransport_def mem_Ack_def mem_Nack_def mem_SendToDLQ_def mem_Publish_def)

section \<open>Messages that come back with no attempts\<close>

text \<open>
  The broker transports hand out every delivery with the attempt counter at 0. A message
  whose handler asks for a retry is then nacked with the base delay each time.
\<close>

lemma first_attempt_nacked:
  assumes coord: "e_coordinator entry = None" and budget: "1 \<le> e_maxRetries entry"
    and base: "0 < e_baseDelay entry" "e_baseDelay entry < 2 ^ 63"
    and poison: "\<forall>h raw. fst (e_fn entry h raw) = ask_retry" and fresh: "\<forall>m \<in> set msgs. m_Attempts m = 0"
  shows "\<exists>w'. run_tasks r now (map (\<lambda>m. Process m entry) msgs) w = Inr w' \<and>
    x_transport w' = fold (\<lambda>m t. snd (t_Nack (rt_transport r) t (m\<lparr>m_Attempts := 1\<rparr>) (retry_delay (e_baseDelay entry) 0)))
      msgs (x_transport w)"
  using fresh
proof (induction msgs arbitrary: w)
  case (Cons m msgs)
  let ?o = "outcome_of r (x_user w) m entry"
  have m: "m_Attempts m = 0" using Cons.prems by simp
  have fn: "e_fn entry (x_user w) (m_Payload m) = (ask_retry, snd (e_fn entry (x_user w) (m_Payload m)))"
    using poison by (metis prod.collapse)
  have o: "?o = \<lparr>o_Action = RetryWithDelay, o_Message = m\<lparr>m_Attempts := 1\<rparr>,
      o_Delay = retry_delay (e_baseDelay entry) 0, o_Err = None\<rparr>"
    using default_outcome[OF coord _ _ base(1) _ fn, of r] m budget base(2) by (auto simp: ask_retry_def)
  obtain w1 where w1: "x_transport w1 = x_transport w"
    and p: "processMessage r now m entry w = process_switch r now m ?o w1" by (rule processMessage_switch)
  let ?w = "settle_RetryWithDelay r m ?o w1"
  have "run_task r now (Process m entry) w = Inr (Finished, ?w)"
    using p o by (simp add: process_switch_def)
  moreover have "x_transport ?w = snd (t_Nack (rt_transport r) (x_transport w) (m\<lparr>m_Attempts := 1\<rparr>) (retry_delay (e_baseDelay entry) 0))"
    using o w1 by (simp add: settle_RetryWithDelay_def frame_simps)
  ultimately show ?case using Cons.IH[of ?w] Cons.prems by simp
qed simp

end
