(* ===== verification/SQS_Transport.thy ===== *)
theory SQS_Transport
  imports Broker_Interface
begin

text \<open>
  The Amazon SQS transport, \<open>src/transport/sqs/sqs.go\<close>.

  \<open>sqs\<close> is \<open>SQSTransport\<close>: the client (nil until the first call that needs it), the
  configuration, whether \<open>stopCh\<close> is closed, and the calls made to the SDK so far. The SDK is
  a parameter: \<open>sqs_client\<close> answers each call as any function of that history, \<open>aws\<close> loads the
  default configuration and makes a client from it. \<open>fl\<close> and \<open>secs\<close> are the float operations
  of \<open>Go_Duration\<close>.

  Shown here: what \<open>Publish\<close> sends is what \<open>fromSQSMessage\<close> reads, including the delay; the
  calls with which each outcome is settled; the bounds of the visibility timeout; the
  batches \<open>Subscribe\<close> hands over and when it returns; and that a redelivered message starts
  over at attempt 0, so that a message that always asks for a retry is never dead-lettered.
\<close>

section \<open>Configuration and client\<close>

record sqs_Config =
  sc_QueueURL :: string
  sc_DLQURL :: string
  sc_MaxMessages :: int
  sc_WaitTime :: int
  sc_VisibilityTimeout :: int
  sc_TopicAttribute :: string
  sc_BaseEndpoint :: string

definition sqs_defaults :: "sqs_Config \<Rightarrow> sqs_Config" where
  "sqs_defaults c =
     (let c = (if sc_MaxMessages c = 0 then c\<lparr>sc_MaxMessages := 10\<rparr> else c);
          c = (if sc_WaitTime c = 0 then c\<lparr>sc_WaitTime := 20\<rparr> else c)
      in if sc_VisibilityTimeout c = 0 then c\<lparr>sc_VisibilityTimeout := 30\<rparr> else c)"

record MessageAttributeValue =
  mav_DataType :: "string option"
  mav_StringValue :: "string option"

type_synonym sqs_attrs = "(string \<rightharpoonup> MessageAttributeValue) option"

text \<open>The calls of the SDK, with the fields of their inputs that the code sets.\<close>

datatype sqs_call =
    LoadDefaultConfig
  | SendMessage string bytes sqs_attrs                        \<comment> \<open>queue, body, attributes\<close>
  | ReceiveMessage string int int int                         \<comment> \<open>queue, maximum, wait, visibility\<close>
  | DeleteMessageBatch string "(string \<times> string) list"       \<comment> \<open>queue, entries (id, receipt handle)\<close>
  | ChangeMessageVisibility string string int                 \<comment> \<open>queue, receipt handle, seconds\<close>

text \<open>\<open>types.Message\<close>: the pointers may be nil.\<close>

record sqs_message =
  sm_MessageId :: "string option"
  sm_Body :: "bytes option"
  sm_ReceiptHandle :: "string option"
  sm_MessageAttributes :: sqs_attrs

record sqs_client =
  on_SendMessage :: "sqs_call list \<Rightarrow> go_error option"
  on_ReceiveMessage :: "sqs_call list \<Rightarrow> go_error + sqs_message list"
  on_DeleteMessageBatch :: "sqs_call list \<Rightarrow> go_error + string list"  \<comment> \<open>the ids reported as failed\<close>
  on_ChangeMessageVisibility :: "sqs_call list \<Rightarrow> go_error option"

record 'a aws =
  on_LoadDefaultConfig :: "sqs_call list \<Rightarrow> go_error + 'a"
  NewFromConfig :: "'a \<Rightarrow> string option \<Rightarrow> sqs_client"             \<comment> \<open>with the base endpoint, if any\<close>

record sqs =
  q_client :: "sqs_client option"
  q_config :: sqs_Config
  q_stopCh :: bool
  q_calls :: "sqs_call list"

definition sqs_New :: "sqs_Config \<Rightarrow> sqs" where
  "sqs_New cfg = \<lparr>q_client = None, q_config = sqs_defaults cfg, q_stopCh = False, q_calls = []\<rparr>"

definition WithClient :: "sqs \<Rightarrow> sqs_client \<Rightarrow> sqs" where
  "WithClient t client = t\<lparr>q_client := Some client\<rparr>"

definition sqs_log :: "sqs_call \<Rightarrow> sqs \<Rightarrow> sqs" where
  "sqs_log c t = t\<lparr>q_calls := q_calls t @ [c]\<rparr>"

text \<open>\<open>ensureClient\<close>: its error, or the client that \<open>t.client\<close> holds when it returns nil.\<close>

definition ensureClient :: "'a aws \<Rightarrow> sqs \<Rightarrow> (go_error + sqs_client) \<times> sqs" where
  "ensureClient A t =
     (case q_client t of
        Some client \<Rightarrow> (Inr client, t)
      | None \<Rightarrow>
          (let t = sqs_log LoadDefaultConfig t
           in case on_LoadDefaultConfig A (q_calls t) of
                Inl err \<Rightarrow> (Inl (Wrapped ''sqs: failed to load AWS config'' err), t)
              | Inr awsCfg \<Rightarrow>
                  (let endpoint = sc_BaseEndpoint (q_config t);
                       client = NewFromConfig A awsCfg (if endpoint = '''' then None else Some endpoint)
                   in (Inr client, t\<lparr>q_client := Some client\<rparr>))))"

section \<open>Conversions\<close>

definition toSQSAttributes :: "smap \<Rightarrow> sqs_attrs" where
  "toSQSAttributes attrs = (case attrs of
     None \<Rightarrow> None
   | Some m \<Rightarrow> Some (\<lambda>k. map_option (\<lambda>v. \<lparr>mav_DataType = Some ''String'', mav_StringValue = Some v\<rparr>) (m k)))"

definition fromSQSAttributes :: "sqs_attrs \<Rightarrow> smap" where
  "fromSQSAttributes attrs = (case attrs of
     None \<Rightarrow> None
   | Some m \<Rightarrow> Some (\<lambda>k. case m k of None \<Rightarrow> None | Some v \<Rightarrow> mav_StringValue v))"

definition fromSQSMessage :: "(nat \<Rightarrow> nat \<Rightarrow> nat \<Rightarrow> nat) \<Rightarrow> sqs \<Rightarrow> sqs_message \<Rightarrow> Message go" where
  "fromSQSMessage fl t m =
     (let attrs = fromSQSAttributes (sm_MessageAttributes m);
          topic = smap_val attrs (topicKey_or_default (sc_TopicAttribute (q_config t)));
          notBefore = read_notBefore fl attrs
      in case (sm_MessageId m, sm_Body m, sm_ReceiptHandle m) of
           (Some messageId, Some body, Some handle) \<Rightarrow>
             Inr \<lparr>m_ID = messageId, m_Topic = topic, m_Payload = body, m_Attributes = attrs,
                  m_ReceiptHandle = handle, m_Attempts = 0, m_NotBefore = notBefore\<rparr>
         | _ \<Rightarrow> Inl NilDereference)"

section \<open>The methods\<close>

text \<open>\<open>Publish\<close> also returns what the caller's attribute map holds afterwards.\<close>

definition sqs_Publish :: "'a aws \<Rightarrow> sqs \<Rightarrow> Message \<Rightarrow> go_error option \<times> smap \<times> sqs" where
  "sqs_Publish A t msg =
     (case ensureClient A t of
        (Inl err, t) \<Rightarrow> (Some err, m_Attributes msg, t)
      | (Inr client, t) \<Rightarrow>
          (let attrs = stamped (topicKey_or_default (sc_TopicAttribute (q_config t))) msg;
               t = sqs_log (SendMessage (sc_QueueURL (q_config t)) (m_Payload msg) (toSQSAttributes (Some attrs))) t
           in (on_SendMessage client (q_calls t), callers_map (m_Attributes msg) attrs, t)))"

definition sqs_Ack :: "'a aws \<Rightarrow> sqs \<Rightarrow> Message list \<Rightarrow> go_error option \<times> sqs" where
  "sqs_Ack A t messages =
     (case ensureClient A t of
        (Inl err, t) \<Rightarrow> (Some err, t)
      | (Inr client, t) \<Rightarrow>
          (let entries = map (\<lambda>m. (m_ID m, m_ReceiptHandle m)) messages;
               t = sqs_log (DeleteMessageBatch (sc_QueueURL (q_config t)) entries) t
           in (case on_DeleteMessageBatch client (q_calls t) of Inl err \<Rightarrow> Some err | Inr failed \<Rightarrow> None, t)))"

definition sqs_Nack :: "'a aws \<Rightarrow> (duration \<Rightarrow> int) \<Rightarrow> sqs \<Rightarrow> Message \<Rightarrow> duration \<Rightarrow> go_error option \<times> sqs" where
  "sqs_Nack A secs t message delay =
     (case ensureClient A t of
        (Inl err, t) \<Rightarrow> (Some err, t)
      | (Inr client, t) \<Rightarrow>
          (let seconds = seconds_int32 secs delay;
               seconds = (if seconds < 0 then 0 else seconds);
               t = sqs_log (ChangeMessageVisibility (sc_QueueURL (q_config t)) (m_ReceiptHandle message) seconds) t
           in (on_ChangeMessageVisibility client (q_calls t), t)))"

definition sqs_SendToDLQ :: "'a aws \<Rightarrow> sqs \<Rightarrow> Message \<Rightarrow> go_error option \<times> sqs" where
  "sqs_SendToDLQ A t message =
     (if sc_DLQURL (q_config t) = '''' then (Some NoDLQConfigured, t)
      else case ensureClient A t of
        (Inl err, t) \<Rightarrow> (Some err, t)
      | (Inr client, t) \<Rightarrow>
          (let t = sqs_log (SendMessage (sc_DLQURL (q_config t)) (m_Payload message)
                 (toSQSAttributes (m_Attributes message))) t
           in (on_SendMessage client (q_calls t), t)))"

text \<open>\<open>close(t.stopCh)\<close> of a closed channel panics.\<close>

definition sqs_Close :: "sqs \<Rightarrow> (go_error option \<times> sqs) go" where
  "sqs_Close t = (if q_stopCh t then Inl CloseOfClosedChannel else Inr (None, t\<lparr>q_stopCh := True\<rparr>))"

definition SQSTransport :: "'a aws \<Rightarrow> (duration \<Rightarrow> int) \<Rightarrow> sqs Transport" where
  "SQSTransport A secs = \<lparr>t_Publish = \<lambda>t msg. (case sqs_Publish A t msg of (err, _, t) \<Rightarrow> Inr (err, t)),
     t_Ack = sqs_Ack A, t_Nack = sqs_Nack A secs, t_SendToDLQ = sqs_SendToDLQ A, t_Close = sqs_Close\<rparr>"

text \<open>One iteration of the loop of \<open>Subscribe\<close>.\<close>

definition sqs_iteration :: "(nat \<Rightarrow> nat \<Rightarrow> nat \<Rightarrow> nat) \<Rightarrow> sqs_client \<Rightarrow> sub_env \<Rightarrow> sqs \<Rightarrow> (iteration \<times> sqs) go" where
  "sqs_iteration fl client e t =
     (let t = t\<lparr>q_stopCh := q_stopCh t \<or> ev_close e\<rparr>
      in if ev_ctx e \<and> (ev_pickCtx e \<or> \<not> q_stopCh t) then Inr (Stop (Some ContextCanceled), t)
         else if q_stopCh t then Inr (Stop None, t)
         else
           (let c = q_config t;
                t = sqs_log (ReceiveMessage (sc_QueueURL c) (sc_MaxMessages c) (sc_WaitTime c) (sc_VisibilityTimeout c)) t
            in case on_ReceiveMessage client (q_calls t) of
                 Inl err \<Rightarrow> Inr (Stop (Some (Wrapped ''sqs: receive message'' err)), t)
               | Inr output \<Rightarrow>
                   if output = [] then Inr (Batches [], t)
                   else (case map_go (fromSQSMessage fl t) output of
                       Inl p \<Rightarrow> Inl p
                     | Inr messages \<Rightarrow> Inr (Batches [messages], t))))"

definition sqs_Subscribe :: "'a aws \<Rightarrow> (nat \<Rightarrow> nat \<Rightarrow> nat \<Rightarrow> nat) \<Rightarrow> 'h ConsumeHandler \<Rightarrow> sub_env list \<Rightarrow> sqs \<Rightarrow> 'h
    \<Rightarrow> (sub_result \<times> sqs \<times> 'h) go" where
  "sqs_Subscribe A fl handler es t h =
     (case ensureClient A t of
        (Inl err, t) \<Rightarrow> Inr (SubReturned (Some err), t, h)
      | (Inr client, t) \<Rightarrow> subscribe_loop (sqs_iteration fl client) handler es t h)"

section \<open>The client\<close>

lemma ensureClient_ready [simp]: "q_client t = Some client \<Longrightarrow> ensureClient A t = (Inr client, t)"
  by (simp add: ensureClient_def)

lemma sqs_log_sel [simp]:
  "q_client (sqs_log c t) = q_client t" "q_config (sqs_log c t) = q_config t"
  "q_stopCh (sqs_log c t) = q_stopCh t" "q_calls (sqs_log c t) = q_calls t @ [c]"
  by (simp_all add: sqs_log_def)

lemma ensureClient_keeps:
  "q_config (snd (ensureClient A t)) = q_config t" "q_stopCh (snd (ensureClient A t)) = q_stopCh t"
  by (auto simp: ensureClient_def Let_def split: option.split sum.split)

lemma ensureClient_sets:
  "ensureClient A t = (Inr client, t') \<Longrightarrow> q_client t' = Some client"
  by (auto simp: ensureClient_def Let_def split: option.splits sum.splits)

text \<open>The calls that bring the client up: one, as long as there is no client.\<close>

definition connect_calls :: "sqs \<Rightarrow> sqs_call list" where
  "connect_calls t = (if q_client t = None then [LoadDefaultConfig] else [])"

lemma ensureClient_calls: "q_calls (snd (ensureClient A t)) = q_calls t @ connect_calls t"
  by (auto simp: ensureClient_def connect_calls_def Let_def split: option.split sum.split)

text \<open>A call is made only when the client is there.\<close>

definition when_connected :: "'a aws \<Rightarrow> sqs \<Rightarrow> sqs_call \<Rightarrow> sqs_call list" where
  "when_connected A t c = connect_calls t @ (if isl (fst (ensureClient A t)) then [] else [c])"

section \<open>The contract with the pipeline\<close>

definition sqs_ack_calls :: "'a aws \<Rightarrow> sqs \<Rightarrow> Message list \<Rightarrow> sqs_call list" where
  "sqs_ack_calls A t ms = when_connected A t
     (DeleteMessageBatch (sc_QueueURL (q_config t)) (map (\<lambda>m. (m_ID m, m_ReceiptHandle m)) ms))"

definition visibility :: "(duration \<Rightarrow> int) \<Rightarrow> duration \<Rightarrow> int" where
  "visibility secs d = max 0 (seconds_int32 secs d)"

definition sqs_nack_calls :: "'a aws \<Rightarrow> (duration \<Rightarrow> int) \<Rightarrow> sqs \<Rightarrow> Message \<Rightarrow> duration \<Rightarrow> sqs_call list" where
  "sqs_nack_calls A secs t m d = when_connected A t
     (ChangeMessageVisibility (sc_QueueURL (q_config t)) (m_ReceiptHandle m) (visibility secs d))"

definition sqs_dlq_calls :: "'a aws \<Rightarrow> sqs \<Rightarrow> Message \<Rightarrow> sqs_call list" where
  "sqs_dlq_calls A t m = (if sc_DLQURL (q_config t) = '''' then []
     else when_connected A t (SendMessage (sc_DLQURL (q_config t)) (m_Payload m) (toSQSAttributes (m_Attributes m))))"

lemma connected_cases:
  obtains (failed) err t' where "ensureClient A t = (Inl err, t')" "q_config t' = q_config t"
    "q_calls t' = q_calls t @ connect_calls t"
  | (ready) client t' where "ensureClient A t = (Inr client, t')" "q_config t' = q_config t"
    "q_calls t' = q_calls t @ connect_calls t"
proof (cases "ensureClient A t")
  case (Pair r t')
  with ensureClient_calls[of A t] ensureClient_keeps(1)[of A t] that show ?thesis by (cases r) auto
qed

lemma SQSTransport_sel [frame_simps]:
  "t_Ack (SQSTransport A secs) = sqs_Ack A" "t_Nack (SQSTransport A secs) = sqs_Nack A secs"
  "t_SendToDLQ (SQSTransport A secs) = sqs_SendToDLQ A" "t_Close (SQSTransport A secs) = sqs_Close"
  by (simp_all add: SQSTransport_def)

interpretation sqs: broker "SQSTransport A secs" "\<lambda>_. True" q_calls "sqs_ack_calls A" "sqs_nack_calls A secs" "sqs_dlq_calls A"
  for A :: "'a aws" and secs
proof (unfold_locales, simp_all)
  fix t ms
  show "q_calls (snd (t_Ack (SQSTransport A secs) t ms)) = q_calls t @ sqs_ack_calls A t ms"
    by (cases rule: connected_cases[of A t])
      (simp_all add: frame_simps sqs_Ack_def sqs_ack_calls_def when_connected_def Let_def)
next
  fix t m d
  show "q_calls (snd (t_Nack (SQSTransport A secs) t m d)) = q_calls t @ sqs_nack_calls A secs t m d"
    by (cases rule: connected_cases[of A t])
      (auto simp: frame_simps sqs_Nack_def sqs_nack_calls_def when_connected_def visibility_def Let_def)
next
  fix t m
  show "q_calls (snd (t_SendToDLQ (SQSTransport A secs) t m)) = q_calls t @ sqs_dlq_calls A t m"
    by (cases rule: connected_cases[of A t])
      (simp_all add: frame_simps sqs_SendToDLQ_def sqs_dlq_calls_def when_connected_def)
qed

section \<open>The messages that Subscribe hands over\<close>

lemma SQSAttributes_roundtrip: "fromSQSAttributes (toSQSAttributes attrs) = attrs"
proof (cases attrs)
  case (Some m)
  have "(case map_option (\<lambda>v. \<lparr>mav_DataType = Some ''String'', mav_StringValue = Some v\<rparr>) (m k) of
      None \<Rightarrow> None | Some v \<Rightarrow> mav_StringValue v) = m k" for k by (cases "m k") simp_all
  with Some show ?thesis by (simp add: fromSQSAttributes_def toSQSAttributes_def)
qed (simp add: fromSQSAttributes_def toSQSAttributes_def)

definition has_pointers :: "sqs_message \<Rightarrow> bool" where
  "has_pointers m \<longleftrightarrow> sm_MessageId m \<noteq> None \<and> sm_Body m \<noteq> None \<and> sm_ReceiptHandle m \<noteq> None"

lemma fromSQSMessage_total: "has_pointers m \<Longrightarrow> \<exists>msg. fromSQSMessage fl t m = Inr msg"
  by (auto simp: has_pointers_def fromSQSMessage_def Let_def)

lemma fromSQSMessage_batch:
  "list_all has_pointers ms \<Longrightarrow> \<exists>msgs. map_go (fromSQSMessage fl t) ms = Inr msgs"
proof (induction ms)
  case (Cons m ms)
  then show ?case using fromSQSMessage_total[of m fl t] by auto
qed simp

lemma fromSQSMessage_config: "q_config t = q_config t' \<Longrightarrow> fromSQSMessage fl t = fromSQSMessage fl t'"
  by (simp add: fromSQSMessage_def fun_eq_iff)

lemma fromSQSMessage_log [simp]:
  "fromSQSMessage fl (sqs_log c (t\<lparr>q_stopCh := b\<rparr>)) = fromSQSMessage fl t"
  by (rule fromSQSMessage_config) simp

fun is_receive :: "sqs_call \<Rightarrow> bool" where
  "is_receive (ReceiveMessage url n w v) = True"
| "is_receive _ = False"

text \<open>The batches among the answers to \<open>ReceiveMessage\<close>: those that are no error and not empty.\<close>

definition nonempty_batches :: "(go_error + 'm list) list \<Rightarrow> 'm list list" where
  "nonempty_batches outs = filter (\<lambda>ms. ms \<noteq> []) (map projr (filter (\<lambda>out. \<not> isl out) outs))"

lemma nonempty_batches_Cons:
  "nonempty_batches (out # outs) =
     (case out of Inl _ \<Rightarrow> [] | Inr ms \<Rightarrow> if ms = [] then [] else [ms]) @ nonempty_batches outs"
  by (auto simp: nonempty_batches_def split: sum.split)

definition sqs_received :: "(nat \<Rightarrow> nat \<Rightarrow> nat \<Rightarrow> nat) \<Rightarrow> sqs_client \<Rightarrow> sqs \<Rightarrow> Message list list" where
  "sqs_received fl client t = map (\<lambda>ms. projr (map_go (fromSQSMessage fl t) ms))
     (nonempty_batches (answers is_receive (on_ReceiveMessage client) (q_calls t)))"

text \<open>The documented behaviour of \<open>ReceiveMessage\<close>: the pointers of its messages are set.\<close>

definition sets_pointers :: "sqs_client \<Rightarrow> bool" where
  "sets_pointers client \<longleftrightarrow> (\<forall>hist ms. on_ReceiveMessage client hist = Inr ms \<longrightarrow> list_all has_pointers ms)"

lemma nonempty_batches_snoc:
  "nonempty_batches (outs @ [out]) =
     nonempty_batches outs @ (case out of Inl _ \<Rightarrow> [] | Inr ms \<Rightarrow> if ms = [] then [] else [ms])"
  by (auto simp: nonempty_batches_def split: sum.split)

lemma sqs_received_log:
  "sqs_received fl client (sqs_log (ReceiveMessage u n w v) (t\<lparr>q_stopCh := b\<rparr>)) = sqs_received fl client t @
     (case on_ReceiveMessage client (q_calls t @ [ReceiveMessage u n w v]) of Inl _ \<Rightarrow> []
      | Inr ms \<Rightarrow> if ms = [] then [] else [projr (map_go (fromSQSMessage fl t) ms)])"
  by (auto simp: sqs_received_def answers_snoc nonempty_batches_snoc split: sum.split)

lemma sqs_received_stop: "sqs_received fl client (t\<lparr>q_stopCh := b\<rparr>) = sqs_received fl client t"
  using fromSQSMessage_config[of "t\<lparr>q_stopCh := b\<rparr>" t fl] by (simp add: sqs_received_def)

interpretation sqs_sub: batch_subscription "sqs_iteration fl client" "\<lambda>t. sets_pointers client" "sqs_received fl client"
  for fl client
proof
  fix e t
  assume ok: "sets_pointers client"
  have "map_go (fromSQSMessage fl u) ms \<noteq> Inl p" if "on_ReceiveMessage client hist = Inr ms" for u ms hist p
    using ok that fromSQSMessage_batch[of ms fl u] by (auto simp: sets_pointers_def)
  with ok show "\<exists>it t'. sqs_iteration fl client e t = Inr (it, t') \<and> sets_pointers client"
    by (simp add: sqs_iteration_def Let_def split: sum.split) blast
next
  fix e t r t'
  assume "sqs_iteration fl client e t = Inr (Stop r, t')"
  then show "sqs_received fl client t' = sqs_received fl client t"
    by (auto simp: sqs_iteration_def Let_def sqs_received_stop sqs_received_log split: if_splits sum.splits)
next
  fix e t bs t'
  assume "sqs_iteration fl client e t = Inr (Batches bs, t')"
  then show "sqs_received fl client t' = sqs_received fl client t @ bs"
    by (auto simp: sqs_iteration_def Let_def sqs_received_log split: if_splits sum.splits)
next
  fix e t bs t'
  assume "sqs_iteration fl client e t = Inr (Batches bs, t')"
  then show "length bs \<le> 1" by (auto simp: sqs_iteration_def Let_def split: if_splits sum.splits)
qed

section \<open>Settlement\<close>

lemma sqs_ready_calls:
  assumes "q_client t = Some client"
  shows "sqs_ack_calls A t ms = [DeleteMessageBatch (sc_QueueURL (q_config t)) (map (\<lambda>m. (m_ID m, m_ReceiptHandle m)) ms)]"
    and "sqs_nack_calls A secs t m d =
      [ChangeMessageVisibility (sc_QueueURL (q_config t)) (m_ReceiptHandle m) (visibility secs d)]"
    and "sqs_dlq_calls A t m = (if sc_DLQURL (q_config t) = '''' then []
      else [SendMessage (sc_DLQURL (q_config t)) (m_Payload m) (toSQSAttributes (m_Attributes m))])"
  using assms by (simp_all add: sqs_ack_calls_def sqs_nack_calls_def sqs_dlq_calls_def when_connected_def connect_calls_def)

lemma sqs_SendToDLQ_ready:
  assumes "q_client t = Some client"
  shows "sqs_SendToDLQ A t m =
    (if sc_DLQURL (q_config t) = '''' then (Some NoDLQConfigured, t)
     else let t' = sqs_log (SendMessage (sc_DLQURL (q_config t)) (m_Payload m) (toSQSAttributes (m_Attributes m))) t
          in (on_SendMessage client (q_calls t'), t'))"
  using assms by (simp add: sqs_SendToDLQ_def)

lemma sqs_Nack_ready:
  assumes "q_client t = Some client"
  shows "snd (sqs_Nack A secs t m d) =
    sqs_log (ChangeMessageVisibility (sc_QueueURL (q_config t)) (m_ReceiptHandle m) (visibility secs d)) t"
  using assms by (simp add: sqs_Nack_def visibility_def Let_def max_def)

lemma sqs_nacks:
  assumes "q_client t = Some client"
  shows "q_calls (fold (\<lambda>m t. snd (sqs_Nack A secs t (f m) d)) msgs t) = q_calls t @
    map (\<lambda>m. ChangeMessageVisibility (sc_QueueURL (q_config t)) (m_ReceiptHandle (f m)) (visibility secs d)) msgs"
  using assms by (induction msgs arbitrary: t) (simp_all add: sqs_Nack_ready)

lemma visibility_bounds:
  assumes "\<bar>d\<bar> < 2 ^ 22 * Second"
  shows "0 \<le> visibility secs d" "visibility secs d * Second \<le> max 0 d" "d < (visibility secs d + 1) * Second"
    "d \<le> maxRetryDelay \<Longrightarrow> visibility secs d \<le> 300"
proof -
  have v: "visibility secs d = max 0 (sgn d * (\<bar>d\<bar> div Second))" using assms by (simp add: visibility_def seconds_int32_def)
  consider "d \<le> 0" | "0 < d" by linarith
  then have w: "visibility secs d = (if d \<le> 0 then 0 else d div Second)"
  proof cases
    case 1
    then have "sgn d * (\<bar>d\<bar> div Second) \<le> 0"
      by (cases "d = 0") (simp_all add: Second_def mult_le_0_iff pos_imp_zdiv_nonneg_iff)
    with v 1 show ?thesis by simp
  next
    case 2
    then show ?thesis using v by (simp add: Second_def pos_imp_zdiv_nonneg_iff)
  qed
  show "0 \<le> visibility secs d" by (simp add: visibility_def)
  show "visibility secs d * Second \<le> max 0 d" using w by (auto simp: Second_def)
  show "d < (visibility secs d + 1) * Second" using w by (auto simp: Second_def)
  assume "d \<le> maxRetryDelay"
  then show "visibility secs d \<le> 300" using w by (auto simp: maxRetryDelay_def duration_defs)
qed

lemma fromSQSMessage_fresh: "map_go (fromSQSMessage fl t) ms = Inr msgs \<Longrightarrow> \<forall>m \<in> set msgs. m_Attempts m = 0"
  by (induction ms arbitrary: msgs)
    (fastforce simp: map_go_Cons_Inr fromSQSMessage_def Let_def split: option.splits simp del: map_go.simps(2))+

text \<open>The call \<open>Publish\<close> makes, and the message made from what it sends.\<close>

lemma sqs_publish_carries:
  assumes "q_client t = Some client" and "carriable msg" and "sc_TopicAttribute (q_config t) \<noteq> notBefore_key"
    and "sqs_Publish A t msg = (err, callers, t')"
  defines "attrs \<equiv> Some (stamped (topicKey_or_default (sc_TopicAttribute (q_config t))) msg)"
  shows "q_calls t' = q_calls t @ [SendMessage (sc_QueueURL (q_config t)) (m_Payload msg) (toSQSAttributes attrs)]"
    and "fromSQSMessage fl t' \<lparr>sm_MessageId = Some i, sm_Body = Some (m_Payload msg), sm_ReceiptHandle = Some h,
        sm_MessageAttributes = toSQSAttributes attrs\<rparr> =
      Inr (msg\<lparr>m_ID := i, m_ReceiptHandle := h, m_Attempts := 0, m_Attributes := attrs\<rparr>)"
proof -
  let ?k = "topicKey_or_default (sc_TopicAttribute (q_config t))"
  have k: "?k \<noteq> notBefore_key" using assms(3) by simp
  have t': "t' = sqs_log (SendMessage (sc_QueueURL (q_config t)) (m_Payload msg) (toSQSAttributes attrs)) t"
    using assms(1,4) by (simp add: sqs_Publish_def Let_def attrs_def)
  then show "q_calls t' = q_calls t @ [SendMessage (sc_QueueURL (q_config t)) (m_Payload msg) (toSQSAttributes attrs)]" by simp
  show "fromSQSMessage fl t' \<lparr>sm_MessageId = Some i, sm_Body = Some (m_Payload msg), sm_ReceiptHandle = Some h,
        sm_MessageAttributes = toSQSAttributes attrs\<rparr> =
      Inr (msg\<lparr>m_ID := i, m_ReceiptHandle := h, m_Attempts := 0, m_Attributes := attrs\<rparr>)"
    using stamped_notBefore[OF assms(2) k, of fl] k
    by (simp add: t' fromSQSMessage_def SQSAttributes_roundtrip smap_val_def smap_get_def attrs_def)
qed

section \<open>A client for the examples\<close>

text \<open>It accepts everything and has one delayed message, once.\<close>

definition sample_sqs_message :: sqs_message where
  "sample_sqs_message = \<lparr>sm_MessageId = Some ''1'', sm_Body = Some ''p'', sm_ReceiptHandle = Some ''r'',
     sm_MessageAttributes = Some [''X-Topic'' \<mapsto> \<lparr>mav_DataType = Some ''String'', mav_StringValue = Some ''t''\<rparr>]\<rparr>"

definition sample_client :: sqs_client where
  "sample_client = \<lparr>on_SendMessage = \<lambda>_. None,
     on_ReceiveMessage = \<lambda>hist. Inr (if length hist = 1 then [sample_sqs_message] else []),
     on_DeleteMessageBatch = \<lambda>_. Inr [], on_ChangeMessageVisibility = \<lambda>_. None\<rparr>"

definition sample_aws :: "unit aws" where
  "sample_aws = \<lparr>on_LoadDefaultConfig = \<lambda>_. Inr (), NewFromConfig = \<lambda>_ _. sample_client\<rparr>"

definition sample_sqs :: sqs where
  "sample_sqs = WithClient (sqs_New \<lparr>sc_QueueURL = ''q'', sc_DLQURL = ''d'', sc_MaxMessages = 0, sc_WaitTime = 0,
     sc_VisibilityTimeout = 0, sc_TopicAttribute = '''', sc_BaseEndpoint = ''''\<rparr>) sample_client"

definition sqs_runtime :: "(sqs, MemoryStore, unit) runtime" where
  "sqs_runtime = \<lparr>rt_handlers = [''t'' \<mapsto> poison_entry], rt_transport = SQSTransport sample_aws (\<lambda>_. 0),
     rt_hooks = no_hooks, rt_idemFilter = None, rt_conv = \<lambda>_. 0\<rparr>"

definition sqs_world :: "(sqs, MemoryStore, unit) world" where
  "sqs_world = \<lparr>x_ring = sample_ring, x_transport = sample_sqs, x_store = NewMemoryStore, x_wheel = wheel_New,
     x_user = (), x_events = []\<rparr>"

lemma sample_sqs_facts [simp]:
  "q_client sample_sqs = Some sample_client" "q_calls sample_sqs = []" "\<not> q_stopCh sample_sqs"
  "sc_QueueURL (q_config sample_sqs) = ''q''" "sc_DLQURL (q_config sample_sqs) = ''d''"
  "sc_TopicAttribute (q_config sample_sqs) = ''''" "sc_MaxMessages (q_config sample_sqs) = 10"
  "sc_WaitTime (q_config sample_sqs) = 20" "sc_VisibilityTimeout (q_config sample_sqs) = 30"
  by (simp_all add: sample_sqs_def WithClient_def sqs_New_def sqs_defaults_def)

section \<open>Properties\<close>

text \<open>C9. What is published is what is received: the one \<open>SendMessage\<close> of \<open>Publish\<close> carries a body and
  attributes from which \<open>fromSQSMessage\<close> gets back the topic, the payload, the delay and
  every attribute; the identity and the receipt handle are those of the queue, and the
  attempt counter is 0. The topic attribute must not be \<open>X-NotBefore\<close>.\<close>

theorem sqs_publish_roundtrip:
  assumes "q_client t = Some client" and "carriable msg" and "sc_TopicAttribute (q_config t) \<noteq> notBefore_key"
    and "sqs_Publish A t msg = (err, callers, t')"
  shows "\<exists>body attrs. q_calls t' = q_calls t @ [SendMessage (sc_QueueURL (q_config t)) body attrs] \<and>
    (\<forall>messageId handle. \<exists>attributes. fromSQSMessage fl t'
        \<lparr>sm_MessageId = Some messageId, sm_Body = Some body, sm_ReceiptHandle = Some handle, sm_MessageAttributes = attrs\<rparr> =
      Inr (msg\<lparr>m_ID := messageId, m_ReceiptHandle := handle, m_Attempts := 0, m_Attributes := attributes\<rparr>) \<and>
      (\<forall>k. k \<noteq> topicKey_or_default (sc_TopicAttribute (q_config t)) \<and> k \<noteq> notBefore_key \<longrightarrow>
         smap_get attributes k = smap_get (m_Attributes msg) k))"
proof -
  let ?k = "topicKey_or_default (sc_TopicAttribute (q_config t))"
  have "\<forall>j. j \<noteq> ?k \<and> j \<noteq> notBefore_key \<longrightarrow> smap_get (Some (stamped ?k msg)) j = smap_get (m_Attributes msg) j"
    using stamped_other[of _ ?k msg] by (simp add: smap_get_def)
  with sqs_publish_carries(1)[OF assms] sqs_publish_carries(2)[OF assms, of fl] show ?thesis by metis
qed

theorem sqs_publish_roundtrip_witness:
  "\<exists>body attrs attributes. q_calls (snd (snd (sqs_Publish sample_aws sample_sqs ((sample_msg 3)\<lparr>m_NotBefore := 90 * Second\<rparr>)))) =
      [SendMessage ''q'' body attrs] \<and>
    fromSQSMessage (\<lambda>_ _ _. 0) (snd (snd (sqs_Publish sample_aws sample_sqs ((sample_msg 3)\<lparr>m_NotBefore := 90 * Second\<rparr>))))
      \<lparr>sm_MessageId = Some ''9'', sm_Body = Some body, sm_ReceiptHandle = Some ''h'', sm_MessageAttributes = attrs\<rparr> =
    Inr \<lparr>m_ID = ''9'', m_Topic = ''t'', m_Payload = ''p'', m_Attributes = attributes, m_ReceiptHandle = ''h'',
      m_Attempts = 0, m_NotBefore = 90 * Second\<rparr>"
proof -
  let ?msg = "(sample_msg 3)\<lparr>m_NotBefore := 90 * Second\<rparr>" and ?f = "\<lambda>_ _ _. 0 :: nat"
  obtain err callers t' where p: "sqs_Publish sample_aws sample_sqs ?msg = (err, callers, t')" by (metis prod.exhaust)
  have "carriable ?msg" by (simp add: carriable_def Second_def)
  from sqs_publish_roundtrip[OF _ this _ p, of sample_client ?f] p show ?thesis
    by (simp add: notBefore_key_def sample_msg_def) metis
qed

text \<open>C18. Every outcome is settled by exactly these calls: an acknowledgement deletes the message by its
  identity and receipt handle; a delayed retry changes its visibility; a dead letter is sent
  to the dead-letter queue and deleted only if the send succeeded, and without a dead-letter
  queue nothing is called, so that the message stays in its queue; a local retry and an
  unknown action call nothing.\<close>

theorem sqs_settlement:
  assumes "rt_transport r = SQSTransport A secs" and "q_client (x_transport w) = Some client"
    and "processMessage r now msg entry w = Inr (res, w')"
    and "out = outcome_of r (x_user w) msg entry" and "m = o_Message out" and "c = q_config (x_transport w)"
  shows "q_calls (x_transport w') = q_calls (x_transport w) @
    (let delete = DeleteMessageBatch (sc_QueueURL c) [(m_ID m, m_ReceiptHandle m)];
         dead = SendMessage (sc_DLQURL c) (m_Payload m) (toSQSAttributes (m_Attributes m))
     in case o_Action out of
          Ack \<Rightarrow> [delete]
        | RetryWithDelay \<Rightarrow> [ChangeMessageVisibility (sc_QueueURL c) (m_ReceiptHandle m) (visibility secs (o_Delay out))]
        | DLQ \<Rightarrow> if sc_DLQURL c = '''' then []
                 else if on_SendMessage client (q_calls (x_transport w) @ [dead]) = None then [dead, delete] else [dead]
        | _ \<Rightarrow> [])"
  using sqs.process_law[OF assms(1) TrueI assms(3)] sqs_ready_calls[OF assms(2)] sqs_SendToDLQ_ready[OF assms(2), of A m] assms(2,4-6)
  by (cases "o_Action out") (auto simp: settle_calls_def frame_simps Let_def sqs_ready_calls)

theorem sqs_settlement_witness:
  "\<exists>res w'. processMessage sqs_runtime (at_second 0) (sample_msg 2) poison_entry sqs_world = Inr (res, w') \<and>
     q_calls (x_transport w') = [SendMessage ''d'' ''p'' None, DeleteMessageBatch ''q'' [(''1'', ''r'')]]"
proof -
  obtain res w' where p: "processMessage sqs_runtime (at_second 0) (sample_msg 2) poison_entry sqs_world = Inr (res, w')"
    by (simp add: processMessage_def process_switch_def split_def Let_def resolveOutcome_def poison_entry_def
        default_Handle_def default_retry_def ask_retry_def sample_msg_def wrap64_def)
  have "outcome_of sqs_runtime (x_user sqs_world) (sample_msg 2) poison_entry =
    \<lparr>o_Action = DLQ, o_Message = sample_msg 2, o_Delay = 0, o_Err = Some (MaxRetriesExceeded 2 (r_Err ask_retry))\<rparr>"
    by (simp add: outcome_of_def resolveOutcome_def poison_entry_def default_Handle_def default_retry_def
        ask_retry_def sample_msg_def wrap64_def)
  with sqs_settlement[OF _ _ p, of sample_aws "\<lambda>_. 0" sample_client] p show ?thesis
    by (auto simp: sqs_runtime_def sqs_world_def sample_client_def[THEN arg_cong, of on_SendMessage] sample_msg_def
        toSQSAttributes_def)
qed

text \<open>C38. The visibility timeout of a nack: never negative, never later than the delay that was asked
  for and less than one second earlier, and at most 300 seconds for a delay within the cap
  of the default coordinator.\<close>

theorem sqs_nack_bounds:
  assumes "q_client t = Some client" and "\<bar>delay\<bar> < 2 ^ 22 * Second" and "sqs_Nack A secs t m delay = (err, t')"
  shows "\<exists>s. q_calls t' = q_calls t @ [ChangeMessageVisibility (sc_QueueURL (q_config t)) (m_ReceiptHandle m) s] \<and>
    0 \<le> s \<and> s * Second \<le> max 0 delay \<and> delay < (s + 1) * Second \<and> (delay \<le> maxRetryDelay \<longrightarrow> s \<le> 300)"
  using sqs_Nack_ready[OF assms(1), of A secs m delay] assms(3) visibility_bounds[OF assms(2), of secs]
  by (intro exI[of _ "visibility secs delay"]) simp

theorem sqs_nack_bounds_witness:
  "\<exists>s. q_calls (snd (sqs_Nack sample_aws (\<lambda>_. 0) sample_sqs (sample_msg 1) (1500 * 1000000))) =
      [ChangeMessageVisibility ''q'' ''r'' s] \<and> 0 \<le> s \<and> s * Second \<le> 1500000000 \<and> 1500000000 < (s + 1) * Second"
proof -
  obtain err t' where p: "sqs_Nack sample_aws (\<lambda>_. 0) sample_sqs (sample_msg 1) (1500 * 1000000) = (err, t')" by fastforce
  from sqs_nack_bounds[OF sample_sqs_facts(1) _ p] p show ?thesis by (auto simp: Second_def sample_msg_def)
qed

text \<open>C37. The retry budget does not hold across redeliveries: however often SQS delivers a message
  whose handler asks for a retry every time, each delivery starts at attempt 0 and is made
  visible again after the base delay; nothing is ever sent to the dead-letter queue or
  deleted.\<close>

theorem sqs_poison_never_dead_lettered:
  assumes "rt_transport r = SQSTransport A secs" and "q_client (x_transport w) = Some client"
    and "e_coordinator entry = None" and "1 \<le> e_maxRetries entry" and "0 < e_baseDelay entry"
    and "e_baseDelay entry < 2 ^ 63" and "\<forall>h raw. fst (e_fn entry h raw) = ask_retry"
    and "map_go (fromSQSMessage fl (x_transport w)) received = Inr msgs"
  shows "\<exists>w'. run_tasks r now (map (\<lambda>m. Process m entry) msgs) w = Inr w' \<and>
    q_calls (x_transport w') = q_calls (x_transport w) @
      map (\<lambda>m. ChangeMessageVisibility (sc_QueueURL (q_config (x_transport w))) (m_ReceiptHandle m)
        (visibility secs (min (e_baseDelay entry) maxRetryDelay))) msgs"
  using first_attempt_nacked[OF assms(3-7) fromSQSMessage_fresh[OF assms(8)], of r now w]
    sqs_nacks[OF assms(2), of A secs "\<lambda>m. m\<lparr>m_Attempts := 1\<rparr>"] assms(1)
  by (auto simp: frame_simps retry_delay_def)

theorem sqs_poison_never_dead_lettered_witness:
  "\<exists>w' msg. fromSQSMessage (\<lambda>_ _ _. 0) sample_sqs sample_sqs_message = Inr msg \<and>
     run_tasks sqs_runtime (at_second 0) (map (\<lambda>m. Process m poison_entry) [msg, msg, msg, msg]) sqs_world = Inr w' \<and>
     q_calls (x_transport w') = replicate 4 (ChangeMessageVisibility ''q'' ''r'' 1)"
proof -
  let ?f = "\<lambda>_ _ _. 0 :: nat" and ?ms = "replicate 4 sample_sqs_message"
  obtain msg where msg: "fromSQSMessage ?f sample_sqs sample_sqs_message = Inr msg" "m_ReceiptHandle msg = ''r''"
    by (simp add: fromSQSMessage_def Let_def sample_sqs_message_def)
  have "map_go (fromSQSMessage ?f (x_transport sqs_world)) ?ms = Inr [msg, msg, msg, msg]"
    using msg by (simp add: sqs_world_def numeral_eq_Suc)
  from sqs_poison_never_dead_lettered[OF _ _ _ _ _ _ _ this, of sqs_runtime sample_aws "\<lambda>_. 0" sample_client poison_entry "at_second 0"]
  obtain w' where "run_tasks sqs_runtime (at_second 0) (map (\<lambda>m. Process m poison_entry) [msg, msg, msg, msg]) sqs_world = Inr w'"
    and calls: "q_calls (x_transport w') = q_calls (x_transport sqs_world) @
      map (\<lambda>m. ChangeMessageVisibility (sc_QueueURL (q_config (x_transport sqs_world))) (m_ReceiptHandle m)
        (visibility (\<lambda>_. 0) (min (e_baseDelay poison_entry) maxRetryDelay))) [msg, msg, msg, msg]"
    by (auto simp: sqs_runtime_def sqs_world_def poison_entry_def Second_def)
  moreover have "visibility (\<lambda>_. 0) (min (e_baseDelay poison_entry) maxRetryDelay) = 1"
    by (simp add: poison_entry_def visibility_def seconds_int32_def maxRetryDelay_def duration_defs)
  ultimately show ?thesis using msg by (auto simp: sqs_world_def numeral_eq_Suc)
qed

text \<open>C27. \<open>Subscribe\<close> hands over every message it receives, converted, once, in batches and in order,
  for any handler; it goes on until the context is done, the transport is closed, a receive
  fails or the handler fails, and returns the error that belongs to the reason (nil only when
  closed).\<close>

theorem sqs_subscribe_delivers:
  assumes "q_client t = Some client" and "sets_pointers client"
  shows "\<exists>r t' h' batches. sqs_Subscribe A fl (keeping handler) es t (h, []) = Inr (r, t', (h', batches)) \<and>
    sqs_received fl client t' = sqs_received fl client t @ batches \<and>
    (case r of
       SubRunning \<Rightarrow> True
     | SubReturned None \<Rightarrow> q_stopCh t'
     | SubReturned (Some err) \<Rightarrow>
         err = ContextCanceled \<and> (\<exists>e \<in> set es. ev_ctx e) \<or>
         (\<exists>cause. on_ReceiveMessage client (q_calls t') = Inl cause \<and> err = Wrapped ''sqs: receive message'' cause) \<or>
         batches \<noteq> [] \<and> (\<exists>g. fst (handler g (last batches)) = Some err))"
proof -
  obtain r t' h' bs where run: "subscribe_loop (sqs_iteration fl client) (keeping handler) es t (h, []) = Inr (r, t', (h', bs))"
    and rec: "sqs_received fl client t' = sqs_received fl client t @ bs"
    and why: "\<forall>x. r = SubReturned x \<longrightarrow> (\<exists>e \<in> set es. \<exists>s. sqs_iteration fl client e s = Inr (Stop x, t')) \<or>
       bs \<noteq> [] \<and> x \<noteq> None \<and> (\<exists>g. fst (handler g (last bs)) = x)"
    using sqs_sub.delivers_all[OF assms(2), of fl handler es t h "[]"] by auto
  have "(case x of None \<Rightarrow> q_stopCh t' | Some err \<Rightarrow> err = ContextCanceled \<and> ev_ctx e \<or>
      (\<exists>cause. on_ReceiveMessage client (q_calls t') = Inl cause \<and> err = Wrapped ''sqs: receive message'' cause))"
    if "sqs_iteration fl client e s = Inr (Stop x, t')" for e s x
    using that by (auto simp: sqs_iteration_def Let_def split: if_splits sum.splits)
  with why have "case r of SubRunning \<Rightarrow> True | SubReturned None \<Rightarrow> q_stopCh t'
     | SubReturned (Some err) \<Rightarrow> err = ContextCanceled \<and> (\<exists>e \<in> set es. ev_ctx e) \<or>
         (\<exists>cause. on_ReceiveMessage client (q_calls t') = Inl cause \<and> err = Wrapped ''sqs: receive message'' cause) \<or>
         bs \<noteq> [] \<and> (\<exists>g. fst (handler g (last bs)) = Some err)"
    by (fastforce split: sub_result.split option.split)
  with run rec assms(1) show ?thesis by (auto simp: sqs_Subscribe_def)
qed

theorem sqs_subscribe_delivers_witness:
  "\<exists>r t' h' batches. sqs_Subscribe sample_aws (\<lambda>_ _ _. 0) (keeping (\<lambda>h _. (None, h)))
       [\<lparr>ev_ctx = False, ev_close = False, ev_pickCtx = False, ev_ctxAfter = False\<rparr>, \<lparr>ev_ctx = False, ev_close = True, ev_pickCtx = False, ev_ctxAfter = False\<rparr>]
       sample_sqs ((), []) = Inr (r, t', (h', batches)) \<and> length batches = 1 \<and> r = SubReturned None"
proof -
  have c: "sets_pointers sample_client"
    by (auto simp: sets_pointers_def sample_client_def sample_sqs_message_def has_pointers_def)
  let ?e = "\<lparr>ev_ctx = False, ev_close = False, ev_pickCtx = False, ev_ctxAfter = False\<rparr>"
  from sqs_subscribe_delivers[OF sample_sqs_facts(1) c, of sample_aws "\<lambda>_ _ _. 0" "\<lambda>h _. (None, h)"
      "[?e, ?e\<lparr>ev_close := True\<rparr>]" "()"]
  show ?thesis
    by (auto simp: sqs_Subscribe_def sqs_iteration_def Let_def sample_client_def[THEN arg_cong, of on_ReceiveMessage]
        fromSQSMessage_def sample_sqs_message_def keeping_def)
qed

end
