(* ===== verification/PubSub_Transport.thy ===== *)
theory PubSub_Transport
  imports Broker_Interface
begin

text \<open>
  The Google Pub/Sub transport, \<open>src/transport/pubsub/pubsub.go\<close> and \<open>convert.go\<close>.

  The SDK calls the callback of \<open>Subscribe\<close> once per delivery, in goroutines of its own. A
  callback allocates a \<open>pendingMsg\<close>, enters it into the table \<open>inflight\<close> under the message's
  identity, runs the handler and then waits for the \<open>done\<close> channel, which \<open>Ack\<close>, \<open>Nack\<close> and
  \<open>SendToDLQ\<close> close when they take the entry out of the table. \<open>ps_heap\<close> are the pending
  messages ever allocated, a pointer is an index into it; \<open>ps_calls\<close> are the calls to the SDK.
  \<open>ps_step\<close> interleaves any number of callbacks with the transport's methods; a section under
  the mutex, with the calls that follow it up to the next one, is one step.

  Shown here: \<open>close(p.done)\<close> never panics, a delivery is settled once and no settlement is
  lost, what each outcome of the pipeline comes to, the round trip of a published message,
  and that a second delivery of a message that is still in flight leaves the first callback
  waiting for ever.
\<close>

section \<open>Data\<close>

record pubsub_Config =
  pc_ProjectID :: string
  pc_TopicID :: string
  pc_SubscriptionID :: string
  pc_MaxMessages :: int
  pc_TopicAttribute :: string

definition pubsub_defaults :: "pubsub_Config \<Rightarrow> pubsub_Config" where
  "pubsub_defaults c =
     (let c = (if pc_MaxMessages c = 0 then c\<lparr>pc_MaxMessages := 10\<rparr> else c)
      in if pc_TopicAttribute c = '''' then c\<lparr>pc_TopicAttribute := ''X-Topic''\<rparr> else c)"

text \<open>\<open>pubsub.Message\<close> of the SDK.\<close>

record pubsub_message =
  gm_ID :: string
  gm_Data :: bytes
  gm_Attributes :: smap

record pendingMsg =
  pm_msg :: pubsub_message
  pm_done :: bool               \<comment> \<open>the channel is closed\<close>

datatype pubsub_call =
    TopicPublish string bytes smap     \<comment> \<open>topic, data, attributes\<close>
  | MsgAck nat                         \<comment> \<open>\<open>p.msg.Ack()\<close> of the pending message\<close>
  | MsgNack nat
  | Setenv string string
  | ClientClose

record pubsub_client =
  on_Publish :: "pubsub_call list \<Rightarrow> go_error option"
  on_ClientClose :: "pubsub_call list \<Rightarrow> go_error option"

record pubsub =
  ps_config :: pubsub_Config
  ps_maxOutstanding :: int
  ps_inflight :: "string \<rightharpoonup> nat"
  ps_heap :: "pendingMsg list"
  ps_calls :: "pubsub_call list"

section \<open>The methods\<close>

definition newWithClient :: "pubsub_Config \<Rightarrow> pubsub" where
  "newWithClient cfg = \<lparr>ps_config = cfg, ps_maxOutstanding = pc_MaxMessages cfg, ps_inflight = Map.empty,
     ps_heap = [], ps_calls = []\<rparr>"

definition pubsub_NewWithClient :: "pubsub_Config \<Rightarrow> pubsub" where
  "pubsub_NewWithClient cfg = newWithClient (pubsub_defaults cfg)"

text \<open>\<open>newClient\<close> is \<open>pubsub.NewClient\<close> of the SDK: an error or none for the project.\<close>

definition pubsub_New :: "(string \<Rightarrow> go_error option) \<Rightarrow> pubsub_Config \<Rightarrow> go_error + pubsub" where
  "pubsub_New newClient cfg =
     (let cfg = pubsub_defaults cfg
      in case newClient (pc_ProjectID cfg) of
           Some err \<Rightarrow> Inl (Wrapped ''pubsub'' err)
         | None \<Rightarrow> Inr (newWithClient cfg))"

definition toRingqMessage :: "(nat \<Rightarrow> nat \<Rightarrow> nat \<Rightarrow> nat) \<Rightarrow> pubsub_message \<Rightarrow> string \<Rightarrow> Message" where
  "toRingqMessage fl msg topicKey =
     (let topic = (if topicKey \<noteq> '''' \<and> gm_Attributes msg \<noteq> None then smap_val (gm_Attributes msg) topicKey else '''');
          attrs = Some (attrs_or_make (gm_Attributes msg))
      in \<lparr>m_ID = gm_ID msg, m_Topic = topic, m_Payload = gm_Data msg, m_Attributes = attrs,
          m_ReceiptHandle = '''', m_Attempts = 0, m_NotBefore = read_notBefore fl attrs\<rparr>)"

definition ps_log :: "pubsub_call \<Rightarrow> pubsub \<Rightarrow> pubsub" where
  "ps_log c t = t\<lparr>ps_calls := ps_calls t @ [c]\<rparr>"

definition pubsub_Publish :: "pubsub_client \<Rightarrow> pubsub \<Rightarrow> Message \<Rightarrow> go_error option \<times> smap \<times> pubsub" where
  "pubsub_Publish client t msg =
     (let attrs = stamped (pc_TopicAttribute (ps_config t)) msg;
          t = ps_log (TopicPublish (pc_TopicID (ps_config t)) (m_Payload msg) (Some attrs)) t
      in (on_Publish client (ps_calls t), callers_map (m_Attributes msg) attrs, t))"

definition close_done :: "nat \<Rightarrow> pubsub \<Rightarrow> pubsub go" where
  "close_done p t =
     (if pm_done (ps_heap t ! p) then Inl CloseOfClosedChannel
      else Inr (t\<lparr>ps_heap := (ps_heap t)[p := (ps_heap t ! p)\<lparr>pm_done := True\<rparr>]\<rparr>))"

text \<open>Look up and delete under the mutex, then settle with the SDK and close the channel.\<close>

definition ps_settle :: "(nat \<Rightarrow> pubsub_call) \<Rightarrow> pubsub \<Rightarrow> string \<Rightarrow> pubsub go" where
  "ps_settle call t mid =
     (case ps_inflight t mid of
        None \<Rightarrow> Inr t
      | Some p \<Rightarrow> close_done p (ps_log (call p) (t\<lparr>ps_inflight := (ps_inflight t)(mid := None)\<rparr>)))"

fun pubsub_Ack :: "pubsub \<Rightarrow> Message list \<Rightarrow> (go_error option \<times> pubsub) go" where
  "pubsub_Ack t [] = Inr (None, t)"
| "pubsub_Ack t (m # ms) = (case ps_settle MsgAck t (m_ID m) of Inl p \<Rightarrow> Inl p | Inr t' \<Rightarrow> pubsub_Ack t' ms)"

definition pubsub_Nack :: "pubsub \<Rightarrow> Message \<Rightarrow> duration \<Rightarrow> (go_error option \<times> pubsub) go" where
  "pubsub_Nack t message delay =
     map_sum id (\<lambda>t'. (None, t')) (ps_settle (\<lambda>p. if delay > 0 then MsgNack p else MsgNack p) t (m_ID message))"

definition pubsub_SendToDLQ :: "pubsub \<Rightarrow> Message \<Rightarrow> (go_error option \<times> pubsub) go" where
  "pubsub_SendToDLQ t message = map_sum id (\<lambda>t'. (None, t')) (ps_settle MsgNack t (m_ID message))"

definition pubsub_Close :: "pubsub_client \<Rightarrow> pubsub \<Rightarrow> go_error option \<times> pubsub" where
  "pubsub_Close client t =
     (let t = ps_log ClientClose (ps_log (Setenv ''PUBSUB_EMULATOR_HOST'' '''') t)
      in (on_ClientClose client (ps_calls t), t))"

text \<open>
  The interface value. A method that panicked would take the process down; the branch is
  dead (\<open>ps_settle_total\<close>).
\<close>

definition or_dead :: "pubsub \<Rightarrow> (go_error option \<times> pubsub) go \<Rightarrow> go_error option \<times> pubsub" where
  "or_dead t r = (case r of Inl _ \<Rightarrow> (None, t) | Inr x \<Rightarrow> x)"

definition PubSubTransport :: "pubsub_client \<Rightarrow> pubsub Transport" where
  "PubSubTransport client = \<lparr>t_Publish = \<lambda>t msg. (case pubsub_Publish client t msg of (err, _, t) \<Rightarrow> Inr (err, t)),
     t_Ack = \<lambda>t ms. or_dead t (pubsub_Ack t ms), t_Nack = \<lambda>t m d. or_dead t (pubsub_Nack t m d),
     t_SendToDLQ = \<lambda>t m. or_dead t (pubsub_SendToDLQ t m), t_Close = \<lambda>t. Inr (pubsub_Close client t)\<rparr>"

section \<open>The callbacks of Subscribe\<close>

datatype cb_pc =
    CbHandler      \<comment> \<open>in \<open>handler(gcpCtx, ...)\<close>\<close>
  | CbFailing      \<comment> \<open>the handler failed, \<open>msg.Nack()\<close> was called\<close>
  | CbFailed       \<comment> \<open>returned after deleting the entry\<close>
  | CbWait         \<comment> \<open>at \<open><-p.done\<close>\<close>
  | CbReturned

record pubsub_sys =
  g_t :: pubsub
  g_cbs :: "cb_pc list"         \<comment> \<open>the callback of each pending message\<close>

text \<open>The start of a callback: allocate and enter.\<close>

definition deliver :: "pubsub_message \<Rightarrow> pubsub_sys \<Rightarrow> pubsub_sys" where
  "deliver msg g =
     (let t = g_t g
      in \<lparr>g_t = t\<lparr>ps_heap := ps_heap t @ [\<lparr>pm_msg = msg, pm_done = False\<rparr>],
              ps_inflight := (ps_inflight t)(gm_ID msg \<mapsto> length (ps_heap t))\<rparr>,
          g_cbs = g_cbs g @ [CbHandler]\<rparr>)"

definition cb_goto :: "nat \<Rightarrow> cb_pc \<Rightarrow> pubsub_sys \<Rightarrow> pubsub_sys" where
  "cb_goto i pc g = g\<lparr>g_cbs := (g_cbs g)[i := pc]\<rparr>"

definition pending_id :: "pubsub \<Rightarrow> nat \<Rightarrow> string" where
  "pending_id t i = gm_ID (pm_msg (ps_heap t ! i))"

inductive ps_step :: "pubsub_sys \<Rightarrow> pubsub_sys \<Rightarrow> bool" where
  receive: "ps_step g (deliver msg g)"
| handler_ok: "i < length (g_cbs g) \<Longrightarrow> g_cbs g ! i = CbHandler \<Longrightarrow> ps_step g (cb_goto i CbWait g)"
| handler_err: "i < length (g_cbs g) \<Longrightarrow> g_cbs g ! i = CbHandler \<Longrightarrow>
     ps_step g (cb_goto i CbFailing (g\<lparr>g_t := ps_log (MsgNack i) (g_t g)\<rparr>))"
| failing: "i < length (g_cbs g) \<Longrightarrow> g_cbs g ! i = CbFailing \<Longrightarrow>
     ps_step g (cb_goto i CbFailed
       (g\<lparr>g_t := (g_t g)\<lparr>ps_inflight := (ps_inflight (g_t g))(pending_id (g_t g) i := None)\<rparr>\<rparr>))"
| wait_done: "i < length (g_cbs g) \<Longrightarrow> g_cbs g ! i = CbWait \<Longrightarrow> pm_done (ps_heap (g_t g) ! i) \<Longrightarrow>
     ps_step g (cb_goto i CbReturned g)"
| ack: "pubsub_Ack (g_t g) [m] = Inr (err, t) \<Longrightarrow> ps_step g (g\<lparr>g_t := t\<rparr>)"
| nack: "pubsub_Nack (g_t g) m d = Inr (err, t) \<Longrightarrow> ps_step g (g\<lparr>g_t := t\<rparr>)"
| dlq: "pubsub_SendToDLQ (g_t g) m = Inr (err, t) \<Longrightarrow> ps_step g (g\<lparr>g_t := t\<rparr>)"
| publish: "pubsub_Publish client (g_t g) m = (err, callers, t) \<Longrightarrow> ps_step g (g\<lparr>g_t := t\<rparr>)"

inductive ps_run :: "pubsub_sys \<Rightarrow> pubsub_sys \<Rightarrow> bool" where
  refl: "ps_run g g"
| step: "ps_run g g' \<Longrightarrow> ps_step g' g'' \<Longrightarrow> ps_run g g''"

inductive_cases ps_stepE: "ps_step g g'"

definition ps_start :: "pubsub_Config \<Rightarrow> pubsub_sys" where
  "ps_start cfg = \<lparr>g_t = pubsub_NewWithClient cfg, g_cbs = []\<rparr>"

section \<open>The invariant\<close>

text \<open>An entry of the table points to a pending message of that identity, not yet settled.\<close>

definition ps_inv :: "pubsub \<Rightarrow> bool" where
  "ps_inv t \<longleftrightarrow> (\<forall>mid i. ps_inflight t mid = Some i \<longrightarrow>
     i < length (ps_heap t) \<and> pending_id t i = mid \<and> \<not> pm_done (ps_heap t ! i))"

text \<open>How often \<open>Ack\<close> or \<open>Nack\<close> of the SDK was called for a delivery.\<close>

definition settle_count :: "nat \<Rightarrow> pubsub_call list \<Rightarrow> nat" where
  "settle_count i hist = length (filter (\<lambda>c. c = MsgAck i \<or> c = MsgNack i) hist)"

definition settled_by_method :: "pubsub \<Rightarrow> nat \<Rightarrow> nat" where
  "settled_by_method t i = (if i < length (ps_heap t) \<and> pm_done (ps_heap t ! i) then 1 else 0)"

definition settled_by_callback :: "cb_pc list \<Rightarrow> nat \<Rightarrow> nat" where
  "settled_by_callback cbs i = (if i < length cbs \<and> cbs ! i \<in> {CbFailing, CbFailed} then 1 else 0)"

definition gs_inv :: "pubsub_sys \<Rightarrow> bool" where
  "gs_inv g \<longleftrightarrow> ps_inv (g_t g) \<and> length (g_cbs g) = length (ps_heap (g_t g)) \<and>
     (\<forall>i. settle_count i (ps_calls (g_t g)) = settled_by_method (g_t g) i + settled_by_callback (g_cbs g) i) \<and>
     (\<forall>i < length (g_cbs g). g_cbs g ! i = CbReturned \<longrightarrow> pm_done (ps_heap (g_t g) ! i))"

lemma settle_count_snoc [simp]:
  "settle_count i (hist @ [c]) = settle_count i hist + (if c = MsgAck i \<or> c = MsgNack i then 1 else 0)"
  by (simp add: settle_count_def)

lemma settle_count_Nil [simp]: "settle_count i [] = 0"
  by (simp add: settle_count_def)

lemma ps_log_sel [simp]:
  "ps_config (ps_log c t) = ps_config t" "ps_inflight (ps_log c t) = ps_inflight t"
  "ps_heap (ps_log c t) = ps_heap t" "ps_calls (ps_log c t) = ps_calls t @ [c]"
  by (simp_all add: ps_log_def)

lemma pending_id_heap: "ps_heap t' = ps_heap t \<Longrightarrow> pending_id t' i = pending_id t i"
  by (simp add: pending_id_def)

lemma ps_inv_cong: "ps_heap t' = ps_heap t \<Longrightarrow> ps_inflight t' = ps_inflight t \<Longrightarrow> ps_inv t' = ps_inv t"
  by (simp add: ps_inv_def pending_id_def)

text \<open>A settlement takes an entry out, closes its channel and calls the SDK once; without an entry it does nothing.\<close>

lemma ps_settle_total:
  assumes "ps_inv t"
  obtains (none) "ps_inflight t mid = None" "ps_settle call t mid = Inr t"
  | (some) p t' where "ps_inflight t mid = Some p" "ps_settle call t mid = Inr t'" "p < length (ps_heap t)"
    "pending_id t p = mid" "\<not> pm_done (ps_heap t ! p)"
    "ps_heap t' = (ps_heap t)[p := (ps_heap t ! p)\<lparr>pm_done := True\<rparr>]"
    "ps_inflight t' = (ps_inflight t)(mid := None)" "ps_calls t' = ps_calls t @ [call p]"
    "ps_config t' = ps_config t" "ps_inv t'"
proof (cases "ps_inflight t mid")
  case None
  then show ?thesis using none by (simp add: ps_settle_def)
next
  case (Some p)
  with assms have p: "p < length (ps_heap t)" "pending_id t p = mid" "\<not> pm_done (ps_heap t ! p)" by (auto simp: ps_inv_def)
  let ?t = "t\<lparr>ps_inflight := (ps_inflight t)(mid := None), ps_calls := ps_calls t @ [call p],
    ps_heap := (ps_heap t)[p := (ps_heap t ! p)\<lparr>pm_done := True\<rparr>]\<rparr>"
  have "ps_settle call t mid = Inr ?t" using Some p by (simp add: ps_settle_def close_done_def ps_log_def)
  moreover have "ps_inv ?t"
    unfolding ps_inv_def
  proof (intro allI impI)
    fix m i
    assume "ps_inflight ?t m = Some i"
    then have m: "m \<noteq> mid" "ps_inflight t m = Some i" by (auto split: if_splits)
    with assms have i: "i < length (ps_heap t)" "pending_id t i = m" "\<not> pm_done (ps_heap t ! i)" by (auto simp: ps_inv_def)
    with m p have "i \<noteq> p" by auto
    with i show "i < length (ps_heap ?t) \<and> pending_id ?t i = m \<and> \<not> pm_done (ps_heap ?t ! i)" by (simp add: pending_id_def)
  qed
  ultimately show ?thesis using some[of p ?t] Some p by simp
qed

lemma ps_settle_step:
  assumes inv: "gs_inv g" and call: "call = MsgAck \<or> call = MsgNack" and r: "ps_settle call (g_t g) mid = Inr t"
  shows "gs_inv (g\<lparr>g_t := t\<rparr>)"
proof -
  have "ps_inv (g_t g)" using inv by (simp add: gs_inv_def)
  then show ?thesis
  proof (cases rule: ps_settle_total[of "g_t g" mid call])
    case none
    with r inv show ?thesis by (simp add: gs_inv_def)
  next
    case (some p t')
    with r have t: "t = t'" by simp
    have "settle_count i (ps_calls t) = settled_by_method t i + settled_by_callback (g_cbs g) i" for i
      using inv some call unfolding t gs_inv_def settled_by_method_def by (cases "i = p") auto
    moreover have "pm_done (ps_heap t ! i)" if "i < length (g_cbs g)" "g_cbs g ! i = CbReturned" for i
      using inv some that unfolding t gs_inv_def by (cases "i = p") auto
    ultimately show ?thesis using inv some unfolding t gs_inv_def by simp
  qed
qed

lemma deliver_inv:
  assumes "gs_inv g"
  shows "gs_inv (deliver msg g)"
proof -
  let ?t = "g_t g" and ?g = "deliver msg g"
  have len: "length (g_cbs g) = length (ps_heap ?t)" and inv: "ps_inv ?t" using assms by (auto simp: gs_inv_def)
  have "ps_inv (g_t ?g)"
    using inv by (auto simp: deliver_def Let_def ps_inv_def pending_id_def nth_append intro: less_SucI)
  moreover have "settled_by_method (g_t ?g) i = settled_by_method ?t i" for i
    by (auto simp: deliver_def Let_def settled_by_method_def nth_append)
  moreover have "settled_by_callback (g_cbs ?g) i = settled_by_callback (g_cbs g) i" for i
    by (auto simp: deliver_def Let_def settled_by_callback_def nth_append)
  ultimately show ?thesis using assms len
    by (auto simp: gs_inv_def deliver_def Let_def nth_append less_Suc_eq)
qed

lemma goto_inv:
  assumes "gs_inv g" and "i < length (g_cbs g)" and "g_cbs g ! i = old" and "settled_by_callback [old] 0 = settled_by_callback [new] 0"
    and "new = CbReturned \<longrightarrow> pm_done (ps_heap (g_t g) ! i)"
  shows "gs_inv (cb_goto i new g)"
proof -
  have "settled_by_callback ((g_cbs g)[i := new]) j = settled_by_callback (g_cbs g) j" for j
    using assms(2-4) by (cases "j = i") (auto simp: settled_by_callback_def split: if_splits)
  moreover have "(g_cbs g)[i := new] ! j = CbReturned \<Longrightarrow> j < length (g_cbs g) \<Longrightarrow> pm_done (ps_heap (g_t g) ! j)" for j
    using assms(1,5) by (cases "j = i") (auto simp: gs_inv_def)
  ultimately show ?thesis using assms(1) by (auto simp: gs_inv_def cb_goto_def)
qed

lemma nack_in_callback_inv:
  assumes "gs_inv g" and "i < length (g_cbs g)" and "g_cbs g ! i = CbHandler"
  shows "gs_inv (cb_goto i CbFailing (g\<lparr>g_t := ps_log (MsgNack i) (g_t g)\<rparr>))"
proof -
  have "settled_by_callback ((g_cbs g)[i := CbFailing]) j = settled_by_callback (g_cbs g) j + (if j = i then 1 else 0)" for j
    using assms(2,3) by (auto simp: settled_by_callback_def)
  moreover have "(g_cbs g)[i := CbFailing] ! j = CbReturned \<Longrightarrow> j < length (g_cbs g) \<Longrightarrow> pm_done (ps_heap (g_t g) ! j)" for j
    using assms(1) by (cases "j = i") (auto simp: gs_inv_def)
  ultimately show ?thesis
    using assms(1) by (auto simp: gs_inv_def cb_goto_def settled_by_method_def ps_inv_cong[of "ps_log (MsgNack i) (g_t g)" "g_t g"])
qed

lemma delete_inv:
  assumes "gs_inv g"
  shows "gs_inv (g\<lparr>g_t := (g_t g)\<lparr>ps_inflight := (ps_inflight (g_t g))(mid := None)\<rparr>\<rparr>)"
  using assms by (auto simp: gs_inv_def ps_inv_def pending_id_def settled_by_method_def)

lemma ps_step_inv:
  assumes "ps_step g g'" and "gs_inv g"
  shows "gs_inv g'"
  using assms
proof cases
  case (receive msg)
  then show ?thesis using deliver_inv[OF assms(2)] by simp
next
  case (handler_ok i)
  then show ?thesis using goto_inv[OF assms(2)] by (simp add: settled_by_callback_def)
next
  case (handler_err i)
  then show ?thesis using nack_in_callback_inv[OF assms(2)] by simp
next
  case (failing i)
  then show ?thesis using goto_inv[OF delete_inv[OF assms(2)], of i _ CbFailing CbFailed] by (simp add: settled_by_callback_def)
next
  case (wait_done i)
  then show ?thesis using goto_inv[OF assms(2)] by (simp add: settled_by_callback_def)
next
  case (ack m err t)
  then show ?thesis using ps_settle_step[OF assms(2), of MsgAck "m_ID m"] by (auto split: sum.splits)
next
  case (nack m d err t)
  then show ?thesis using ps_settle_step[OF assms(2), of MsgNack "m_ID m"]
    by (cases "ps_settle MsgNack (g_t g) (m_ID m)") (auto simp: pubsub_Nack_def)
next
  case (dlq m err t)
  then show ?thesis using ps_settle_step[OF assms(2), of MsgNack "m_ID m"]
    by (cases "ps_settle MsgNack (g_t g) (m_ID m)") (auto simp: pubsub_SendToDLQ_def)
next
  case (publish client m err callers t)
  then have "t = ps_log (TopicPublish (pc_TopicID (ps_config (g_t g))) (m_Payload m)
      (Some (stamped (pc_TopicAttribute (ps_config (g_t g))) m))) (g_t g)" by (simp add: pubsub_Publish_def Let_def)
  with publish assms(2) show ?thesis
    by (auto simp: gs_inv_def settled_by_method_def ps_inv_cong[of "ps_log c t" t for c t])
qed

lemma ps_run_inv: "ps_run g g' \<Longrightarrow> gs_inv g \<Longrightarrow> gs_inv g'"
  by (induction rule: ps_run.induct) (auto intro: ps_step_inv)

lemma ps_start_inv: "gs_inv (ps_start cfg)"
  by (simp add: gs_inv_def ps_start_def pubsub_NewWithClient_def newWithClient_def ps_inv_def settled_by_method_def
      settled_by_callback_def)

section \<open>The contract with the pipeline\<close>

text \<open>The pending messages an acknowledgement of these identities finds in the table.\<close>

fun acked_handles :: "(string \<rightharpoonup> nat) \<Rightarrow> string list \<Rightarrow> nat list" where
  "acked_handles f [] = []"
| "acked_handles f (m # ms) = (case f m of None \<Rightarrow> acked_handles f ms | Some p \<Rightarrow> p # acked_handles (f(m := None)) ms)"

definition ps_ack_calls :: "pubsub \<Rightarrow> Message list \<Rightarrow> pubsub_call list" where
  "ps_ack_calls t ms = map MsgAck (acked_handles (ps_inflight t) (map m_ID ms))"

definition ps_nack_calls :: "pubsub \<Rightarrow> Message \<Rightarrow> pubsub_call list" where
  "ps_nack_calls t m = (case ps_inflight t (m_ID m) of None \<Rightarrow> [] | Some p \<Rightarrow> [MsgNack p])"

lemma pubsub_Ack_law:
  assumes "ps_inv t"
  shows "\<exists>t'. pubsub_Ack t ms = Inr (None, t') \<and> ps_inv t' \<and> ps_calls t' = ps_calls t @ ps_ack_calls t ms"
  using assms
proof (induction ms arbitrary: t)
  case (Cons m ms)
  from Cons.prems show ?case
  proof (cases rule: ps_settle_total[of t "m_ID m" MsgAck])
    case none
    with Cons show ?thesis by (simp add: ps_ack_calls_def)
  next
    case (some p t')
    with Cons.IH[of t'] show ?thesis by (auto simp: ps_ack_calls_def)
  qed
qed (simp add: ps_ack_calls_def)

lemma pubsub_Nack_law:
  assumes "ps_inv t"
  shows "\<exists>t'. pubsub_Nack t m d = Inr (None, t') \<and> pubsub_SendToDLQ t m = Inr (None, t') \<and> ps_inv t' \<and>
    ps_inflight t' (m_ID m) = None \<and> ps_calls t' = ps_calls t @ ps_nack_calls t m"
  using assms
proof (cases rule: ps_settle_total[of t "m_ID m" MsgNack])
  case none
  with assms show ?thesis by (simp add: pubsub_Nack_def pubsub_SendToDLQ_def ps_nack_calls_def)
next
  case (some p t')
  then show ?thesis by (simp add: pubsub_Nack_def pubsub_SendToDLQ_def ps_nack_calls_def)
qed

lemma pubsub_Ack_one:
  assumes "ps_inv t"
  shows "\<exists>t'. pubsub_Ack t [m] = Inr (None, t') \<and> ps_inflight t' (m_ID m) = None \<and>
    ps_calls t' = ps_calls t @ (case ps_inflight t (m_ID m) of None \<Rightarrow> [] | Some i \<Rightarrow> [MsgAck i])"
  using assms by (cases rule: ps_settle_total[of t "m_ID m" MsgAck]) simp_all

lemma PubSubTransport_sel [frame_simps]:
  "t_Ack (PubSubTransport client) t ms = or_dead t (pubsub_Ack t ms)"
  "t_Nack (PubSubTransport client) t m d = or_dead t (pubsub_Nack t m d)"
  "t_SendToDLQ (PubSubTransport client) t m = or_dead t (pubsub_SendToDLQ t m)"
  by (simp_all add: PubSubTransport_def)

interpretation gcp: broker "PubSubTransport client" ps_inv ps_calls ps_ack_calls "\<lambda>t m d. ps_nack_calls t m" ps_nack_calls
  for client
proof
  fix t ms
  assume "ps_inv t"
  from pubsub_Ack_law[OF this, of ms]
  show "ps_inv (snd (t_Ack (PubSubTransport client) t ms))"
    and "ps_calls (snd (t_Ack (PubSubTransport client) t ms)) = ps_calls t @ ps_ack_calls t ms"
    by (auto simp: frame_simps or_dead_def)
next
  fix t m d
  assume "ps_inv t"
  from pubsub_Nack_law[OF this, of m d]
  show "ps_inv (snd (t_Nack (PubSubTransport client) t m d))"
    and "ps_calls (snd (t_Nack (PubSubTransport client) t m d)) = ps_calls t @ ps_nack_calls t m"
    and "ps_inv (snd (t_SendToDLQ (PubSubTransport client) t m))"
    and "ps_calls (snd (t_SendToDLQ (PubSubTransport client) t m)) = ps_calls t @ ps_nack_calls t m"
    by (auto simp: frame_simps or_dead_def)
qed

section \<open>Stranded callbacks\<close>

text \<open>A callback that waits for a channel nobody can reach any more.\<close>

definition stranded :: "nat \<Rightarrow> pubsub_sys \<Rightarrow> bool" where
  "stranded i g \<longleftrightarrow> gs_inv g \<and> i < length (g_cbs g) \<and> g_cbs g ! i = CbWait \<and> \<not> pm_done (ps_heap (g_t g) ! i) \<and>
     (\<forall>mid. ps_inflight (g_t g) mid \<noteq> Some i)"

lemma stranded_settle:
  assumes s: "stranded i g" and r: "ps_settle call (g_t g) mid = Inr t" and inv: "gs_inv (g\<lparr>g_t := t\<rparr>)"
  shows "stranded i (g\<lparr>g_t := t\<rparr>)"
proof -
  have "ps_inv (g_t g)" using s by (simp add: stranded_def gs_inv_def)
  then show ?thesis
  proof (cases rule: ps_settle_total[of "g_t g" mid call])
    case none
    with s r inv show ?thesis by (simp add: stranded_def)
  next
    case (some p t')
    with s have "p \<noteq> i" by (auto simp: stranded_def)
    with s r inv some show ?thesis by (auto simp: stranded_def)
  qed
qed

lemma stranded_goto:
  assumes "stranded i g" and "g_cbs g ! j \<noteq> CbWait \<or> pm_done (ps_heap (g_t g) ! j)" and "gs_inv (cb_goto j pc (g\<lparr>g_t := t\<rparr>))"
    and "ps_heap t = ps_heap (g_t g)" and "\<And>mid. ps_inflight t mid = None \<or> ps_inflight t mid = ps_inflight (g_t g) mid"
  shows "stranded i (cb_goto j pc (g\<lparr>g_t := t\<rparr>))"
proof -
  have "j \<noteq> i" using assms(1,2) by (auto simp: stranded_def)
  moreover have "ps_inflight t mid \<noteq> Some i" for mid using assms(1) assms(5)[of mid] by (auto simp: stranded_def)
  ultimately show ?thesis using assms(1,3,4) by (simp add: stranded_def cb_goto_def)
qed

lemma stranded_step:
  assumes "ps_step g g'" and s: "stranded i g"
  shows "stranded i g'"
proof -
  have inv: "gs_inv g'" using ps_step_inv[OF assms(1)] s by (simp add: stranded_def)
  have same: "g\<lparr>g_t := g_t g\<rparr> = g" by simp
  from assms(1) show ?thesis
  proof cases
    case (receive msg)
    with s inv show ?thesis by (auto simp: stranded_def deliver_def Let_def nth_append gs_inv_def)
  next
    case (handler_ok j)
    then show ?thesis using stranded_goto[OF s, of j CbWait "g_t g"] inv same by simp
  next
    case (handler_err j)
    then show ?thesis using stranded_goto[OF s, of j CbFailing "ps_log (MsgNack j) (g_t g)"] inv by simp
  next
    case (failing j)
    then show ?thesis using stranded_goto[OF s, of j CbFailed] inv by simp
  next
    case (wait_done j)
    then show ?thesis using stranded_goto[OF s, of j CbReturned "g_t g"] inv same by simp
  next
    case (ack m err t)
    then show ?thesis using stranded_settle[OF s, of MsgAck "m_ID m"] inv by (auto split: sum.splits)
  next
    case (nack m d err t)
    then show ?thesis using stranded_settle[OF s, of MsgNack "m_ID m"] inv
      by (cases "ps_settle MsgNack (g_t g) (m_ID m)") (auto simp: pubsub_Nack_def)
  next
    case (dlq m err t)
    then show ?thesis using stranded_settle[OF s, of MsgNack "m_ID m"] inv
      by (cases "ps_settle MsgNack (g_t g) (m_ID m)") (auto simp: pubsub_SendToDLQ_def)
  next
    case (publish client m err callers t)
    then have "ps_heap t = ps_heap (g_t g)" "ps_inflight t = ps_inflight (g_t g)" by (auto simp: pubsub_Publish_def Let_def)
    with publish s inv show ?thesis by (simp add: stranded_def)
  qed
qed

lemma stranded_run: "ps_run g g' \<Longrightarrow> stranded i g \<Longrightarrow> stranded i g'"
  by (induction rule: ps_run.induct) (auto intro: stranded_step)

lemma redelivery_strands:
  assumes "gs_inv g" and "ps_inflight (g_t g) (gm_ID m) = Some i" and "g_cbs g ! i = CbWait"
  shows "stranded i (deliver m g)"
proof -
  have i: "i < length (ps_heap (g_t g))" "\<not> pm_done (ps_heap (g_t g) ! i)" and len: "length (g_cbs g) = length (ps_heap (g_t g))"
    using assms(1,2) by (auto simp: gs_inv_def ps_inv_def)
  moreover have "mid = gm_ID m" if "ps_inflight (g_t g) mid = Some i" for mid
    using assms(1,2) that unfolding gs_inv_def ps_inv_def by metis
  ultimately show ?thesis using deliver_inv[OF assms(1), of m] assms(3)
    by (auto simp: stranded_def deliver_def Let_def nth_append)
qed

section \<open>Examples\<close>

definition sample_pubsub_Config :: pubsub_Config where
  "sample_pubsub_Config = \<lparr>pc_ProjectID = ''p'', pc_TopicID = ''topic'', pc_SubscriptionID = ''sub'', pc_MaxMessages = 0,
     pc_TopicAttribute = ''''\<rparr>"

definition sample_pubsub_message :: pubsub_message where
  "sample_pubsub_message = \<lparr>gm_ID = ''1'', gm_Data = ''p'', gm_Attributes = Some [''X-Topic'' \<mapsto> ''t'']\<rparr>"

definition sample_pubsub_client :: pubsub_client where
  "sample_pubsub_client = \<lparr>on_Publish = \<lambda>_. None, on_ClientClose = \<lambda>_. None\<rparr>"

text \<open>One delivery, handed over and waiting.\<close>

definition sample_waiting :: pubsub_sys where
  "sample_waiting = cb_goto 0 CbWait (deliver sample_pubsub_message (ps_start sample_pubsub_Config))"

lemma sample_waiting_run: "ps_run (ps_start sample_pubsub_Config) sample_waiting"
proof -
  let ?g0 = "ps_start sample_pubsub_Config" and ?g1 = "deliver sample_pubsub_message (ps_start sample_pubsub_Config)"
  have "ps_run ?g0 ?g1" by (rule ps_run.step[OF ps_run.refl ps_step.receive])
  moreover have "ps_step ?g1 sample_waiting"
    unfolding sample_waiting_def by (rule ps_step.handler_ok) (simp_all add: deliver_def ps_start_def Let_def)
  ultimately show ?thesis by (rule ps_run.step)
qed

lemma sample_waiting_facts:
  "g_cbs sample_waiting = [CbWait]" "ps_inflight (g_t sample_waiting) = [''1'' \<mapsto> 0]" "ps_calls (g_t sample_waiting) = []"
  "length (ps_heap (g_t sample_waiting)) = 1"
  by (simp_all add: sample_waiting_def deliver_def ps_start_def cb_goto_def Let_def pubsub_NewWithClient_def
      newWithClient_def sample_pubsub_message_def)

text \<open>The message is acknowledged, then its callback returns.\<close>

definition sample_acked :: pubsub where
  "sample_acked = (case ps_settle MsgAck (g_t sample_waiting) ''1'' of Inr t \<Rightarrow> t | Inl _ \<Rightarrow> g_t sample_waiting)"

definition sample_returned :: pubsub_sys where
  "sample_returned = cb_goto 0 CbReturned (sample_waiting\<lparr>g_t := sample_acked\<rparr>)"

lemma sample_acked_facts:
  "pubsub_Ack (g_t sample_waiting) [sample_msg 0] = Inr (None, sample_acked)" "ps_calls sample_acked = [MsgAck 0]"
  "ps_inflight sample_acked ''1'' = None" "pm_done (ps_heap sample_acked ! 0)"
  by (simp_all add: sample_acked_def ps_settle_def close_done_def ps_log_def sample_waiting_def deliver_def ps_start_def
      cb_goto_def Let_def pubsub_NewWithClient_def newWithClient_def sample_pubsub_message_def sample_msg_def)

lemma sample_returned_run: "ps_run (ps_start sample_pubsub_Config) sample_returned"
proof -
  have "ps_run (ps_start sample_pubsub_Config) (sample_waiting\<lparr>g_t := sample_acked\<rparr>)"
    by (rule ps_run.step[OF sample_waiting_run ps_step.ack[OF sample_acked_facts(1)]])
  moreover have "ps_step (sample_waiting\<lparr>g_t := sample_acked\<rparr>) sample_returned"
    unfolding sample_returned_def by (rule ps_step.wait_done) (simp_all add: sample_waiting_facts sample_acked_facts)
  ultimately show ?thesis by (rule ps_run.step)
qed

definition gcp_runtime :: "(pubsub, MemoryStore, unit) runtime" where
  "gcp_runtime = \<lparr>rt_handlers = [''t'' \<mapsto> poison_entry], rt_transport = PubSubTransport sample_pubsub_client,
     rt_hooks = no_hooks, rt_idemFilter = None, rt_conv = \<lambda>_. 0\<rparr>"

definition gcp_world :: "(pubsub, MemoryStore, unit) world" where
  "gcp_world = \<lparr>x_ring = sample_ring, x_transport = g_t sample_waiting, x_store = NewMemoryStore, x_wheel = wheel_New,
     x_user = (), x_events = []\<rparr>"

section \<open>Properties\<close>

text \<open>C10. The in-flight table decides who settles a delivery, in every interleaving of callbacks,
  settlements and publishes. No settlement closes a channel twice (none panics). The SDK's \<open>Ack\<close> or
  \<open>Nack\<close> has been called for a delivery exactly once when its callback has returned normally; while
  the handler runs or the callback waits, once if its channel has been closed and otherwise not
  at all (it may stay so, see \<open>pubsub_redelivery_strands\<close>); and after the handler failed, once by
  the callback and once more if a settlement method had closed the channel. For a message in the
  table each settlement method makes exactly one call, for the delivery the table names, and
  takes the entry out, so a second settlement makes no call; for any other message it makes none.\<close>

theorem pubsub_inflight_table:
  assumes "ps_run (ps_start cfg) g"
  shows "(\<forall>ms. \<exists>t'. pubsub_Ack (g_t g) ms = Inr (None, t')) \<and>
    (\<forall>i < length (g_cbs g). settle_count i (ps_calls (g_t g)) =
       (let closed = (if pm_done (ps_heap (g_t g) ! i) then 1 else 0)
        in case g_cbs g ! i of CbReturned \<Rightarrow> 1 | CbHandler \<Rightarrow> closed | CbWait \<Rightarrow> closed
           | CbFailing \<Rightarrow> 1 + closed | CbFailed \<Rightarrow> 1 + closed)) \<and>
    (\<forall>m d. \<exists>t1 t2. pubsub_Ack (g_t g) [m] = Inr (None, t1) \<and>
       pubsub_Nack (g_t g) m d = Inr (None, t2) \<and> pubsub_SendToDLQ (g_t g) m = Inr (None, t2) \<and>
       ps_inflight t1 (m_ID m) = None \<and> ps_inflight t2 (m_ID m) = None \<and>
       ps_calls t1 = ps_calls (g_t g) @ (case ps_inflight (g_t g) (m_ID m) of None \<Rightarrow> [] | Some i \<Rightarrow> [MsgAck i]) \<and>
       ps_calls t2 = ps_calls (g_t g) @ (case ps_inflight (g_t g) (m_ID m) of None \<Rightarrow> [] | Some i \<Rightarrow> [MsgNack i]))"
proof (intro conjI allI impI)
  have inv: "gs_inv g" using ps_run_inv[OF assms ps_start_inv] .
  then have pinv: "ps_inv (g_t g)" by (simp add: gs_inv_def)
  show "\<exists>t'. pubsub_Ack (g_t g) ms = Inr (None, t')" for ms using pubsub_Ack_law[OF pinv] by blast
  show "settle_count i (ps_calls (g_t g)) = (let closed = (if pm_done (ps_heap (g_t g) ! i) then 1 else 0)
        in case g_cbs g ! i of CbReturned \<Rightarrow> 1 | CbHandler \<Rightarrow> closed | CbWait \<Rightarrow> closed
           | CbFailing \<Rightarrow> 1 + closed | CbFailed \<Rightarrow> 1 + closed)" if "i < length (g_cbs g)" for i
    using inv that by (cases "g_cbs g ! i") (auto simp: gs_inv_def settled_by_method_def settled_by_callback_def)
  show "\<exists>t1 t2. pubsub_Ack (g_t g) [m] = Inr (None, t1) \<and>
       pubsub_Nack (g_t g) m d = Inr (None, t2) \<and> pubsub_SendToDLQ (g_t g) m = Inr (None, t2) \<and>
       ps_inflight t1 (m_ID m) = None \<and> ps_inflight t2 (m_ID m) = None \<and>
       ps_calls t1 = ps_calls (g_t g) @ (case ps_inflight (g_t g) (m_ID m) of None \<Rightarrow> [] | Some i \<Rightarrow> [MsgAck i]) \<and>
       ps_calls t2 = ps_calls (g_t g) @ (case ps_inflight (g_t g) (m_ID m) of None \<Rightarrow> [] | Some i \<Rightarrow> [MsgNack i])" for m d
    using pubsub_Nack_law[OF pinv, of m d] pubsub_Ack_one[OF pinv, of m] by (fastforce simp: ps_nack_calls_def)
qed

theorem pubsub_inflight_table_witness:
  "settle_count 0 (ps_calls (g_t sample_returned)) = 1 \<and>
   (\<exists>t'. pubsub_Ack (g_t sample_returned) [sample_msg 0] = Inr (None, t') \<and> ps_calls t' = [MsgAck 0])"
proof -
  have "g_cbs sample_returned = [CbReturned]" "ps_inflight (g_t sample_returned) ''1'' = None"
    "ps_calls (g_t sample_returned) = [MsgAck 0]"
    by (simp_all add: sample_returned_def sample_acked_facts cb_goto_def sample_waiting_facts)
  note f = this
  note table = pubsub_inflight_table[OF sample_returned_run, unfolded f]
  have "settle_count 0 [MsgAck 0] = 1" using conjunct1[OF conjunct2[OF table]] by (simp add: Let_def)
  moreover obtain t1 where "pubsub_Ack (g_t sample_returned) [sample_msg 0] = Inr (None, t1)"
      "ps_calls t1 = [MsgAck 0] @ (case ps_inflight (g_t sample_returned) (m_ID (sample_msg 0)) of None \<Rightarrow> [] | Some i \<Rightarrow> [MsgAck i])"
    using conjunct2[OF conjunct2[OF table]] by blast
  ultimately show ?thesis using f by (simp add: sample_msg_def)
qed

text \<open>C30. What an outcome comes to on Pub/Sub, for a message in the table: an acknowledgement is one
  \<open>Ack\<close>, a delayed retry one \<open>Nack\<close> whatever the delay, and a dead letter one \<open>Nack\<close> too: the
  acknowledgement that the pipeline adds finds the table empty, so the message is
  redelivered unless the subscription has a dead-letter policy. A message that is not in the
  table, a local retry, and an action the pipeline does not know make no call.\<close>

theorem pubsub_settlement:
  assumes "rt_transport r = PubSubTransport client" and "ps_inv (x_transport w)"
    and "processMessage r now msg entry w = Inr (res, w')"
    and "out = outcome_of r (x_user w) msg entry"
  shows "ps_calls (x_transport w') = ps_calls (x_transport w) @
    (case ps_inflight (x_transport w) (m_ID (o_Message out)) of
       None \<Rightarrow> []
     | Some p \<Rightarrow> (case o_Action out of Ack \<Rightarrow> [MsgAck p] | RetryWithDelay \<Rightarrow> [MsgNack p] | DLQ \<Rightarrow> [MsgNack p] | _ \<Rightarrow> []))"
proof -
  obtain t' where dlq: "pubsub_SendToDLQ (x_transport w) (o_Message out) = Inr (None, t')"
    "ps_inflight t' (m_ID (o_Message out)) = None"
    using pubsub_Nack_law[OF assms(2), of "o_Message out"] by blast
  show ?thesis
    using gcp.process_law[OF assms(1-3)] dlq unfolding assms(4)
    by (cases "o_Action (outcome_of r (x_user w) msg entry)")
      (auto simp: settle_calls_def Let_def ps_ack_calls_def ps_nack_calls_def frame_simps or_dead_def split: option.split)
qed

theorem pubsub_settlement_witness:
  "\<exists>res w'. processMessage gcp_runtime (at_second 0) (sample_msg 2) poison_entry gcp_world = Inr (res, w') \<and>
     ps_calls (x_transport w') = [MsgNack 0]"
proof -
  obtain res w' where p: "processMessage gcp_runtime (at_second 0) (sample_msg 2) poison_entry gcp_world = Inr (res, w')"
    by (simp add: processMessage_def process_switch_def split_def Let_def resolveOutcome_def poison_entry_def
        default_Handle_def default_retry_def ask_retry_def sample_msg_def wrap64_def)
  have "outcome_of gcp_runtime (x_user gcp_world) (sample_msg 2) poison_entry =
    \<lparr>o_Action = DLQ, o_Message = sample_msg 2, o_Delay = 0, o_Err = Some (MaxRetriesExceeded 2 (r_Err ask_retry))\<rparr>"
    by (simp add: outcome_of_def resolveOutcome_def poison_entry_def default_Handle_def default_retry_def
        ask_retry_def sample_msg_def wrap64_def)
  moreover have "ps_inv (x_transport gcp_world)"
    using ps_run_inv[OF sample_waiting_run ps_start_inv] by (simp add: gs_inv_def gcp_world_def)
  ultimately show ?thesis using pubsub_settlement[OF _ _ p, of sample_pubsub_client] p
    by (auto simp: gcp_runtime_def gcp_world_def sample_waiting_facts sample_msg_def)
qed

text \<open>C35. A redelivery strands a callback: when the broker delivers a message again while its first
  delivery is handed over and not yet settled (its deadline has passed), the table entry is
  overwritten, and in every continuation the first callback keeps waiting, occupying one of
  the subscription's outstanding slots.\<close>

theorem pubsub_redelivery_strands:
  assumes "ps_run (ps_start cfg) g" and "ps_inflight (g_t g) (gm_ID m) = Some i" and "g_cbs g ! i = CbWait"
    and "ps_run (deliver m g) g'"
  shows "g_cbs g' ! i = CbWait \<and> settle_count i (ps_calls (g_t g')) = 0"
proof -
  have "gs_inv g" using ps_run_inv[OF assms(1) ps_start_inv] .
  from stranded_run[OF assms(4) redelivery_strands[OF this assms(2,3)]]
  show ?thesis by (simp add: stranded_def gs_inv_def settled_by_method_def settled_by_callback_def)
qed

theorem pubsub_redelivery_strands_witness:
  "g_cbs (deliver sample_pubsub_message sample_waiting) ! 0 = CbWait \<and>
   settle_count 0 (ps_calls (g_t (deliver sample_pubsub_message sample_waiting))) = 0"
  using pubsub_redelivery_strands[OF sample_waiting_run _ _ ps_run.refl, of sample_pubsub_message 0]
  by (simp add: sample_waiting_facts) (simp add: sample_pubsub_message_def)

text \<open>What is published is what is received on Pub/Sub: the message that \<open>Publish\<close> gives to the
  topic is converted back to the topic, the payload, the delay and the attributes it came
  from; identity and attempt counter are the broker's and 0, and there is no receipt handle.\<close>

theorem pubsub_publish_roundtrip:
  assumes "carriable msg" and "pc_TopicAttribute (ps_config t) \<notin> {'''', notBefore_key}"
    and "pubsub_Publish client t msg = (err, callers, t')"
  shows "\<exists>data attrs attributes. ps_calls t' = ps_calls t @ [TopicPublish (pc_TopicID (ps_config t)) data attrs] \<and>
    (\<forall>mid. toRingqMessage fl \<lparr>gm_ID = mid, gm_Data = data, gm_Attributes = attrs\<rparr> (pc_TopicAttribute (ps_config t)) =
      msg\<lparr>m_ID := mid, m_ReceiptHandle := '''', m_Attempts := 0, m_Attributes := attributes\<rparr>) \<and>
    (\<forall>k. k \<noteq> pc_TopicAttribute (ps_config t) \<and> k \<noteq> notBefore_key \<longrightarrow>
       smap_get attributes k = smap_get (m_Attributes msg) k)"
proof -
  let ?k = "pc_TopicAttribute (ps_config t)"
  have k: "?k \<noteq> ''''" "?k \<noteq> notBefore_key" using assms(2) by auto
  have "toRingqMessage fl \<lparr>gm_ID = mid, gm_Data = m_Payload msg, gm_Attributes = Some (stamped ?k msg)\<rparr> ?k =
      msg\<lparr>m_ID := mid, m_ReceiptHandle := '''', m_Attempts := 0, m_Attributes := Some (stamped ?k msg)\<rparr>" for mid
    using stamped_notBefore[OF assms(1) k(2), of fl] k
    by (simp add: toRingqMessage_def Let_def smap_val_def smap_get_def attrs_or_make_def)
  moreover have "smap_get (Some (stamped ?k msg)) j = smap_get (m_Attributes msg) j" if "j \<noteq> ?k" "j \<noteq> notBefore_key" for j
    using stamped_other[OF that] by (simp add: smap_get_def)
  moreover have "ps_calls t' = ps_calls t @ [TopicPublish (pc_TopicID (ps_config t)) (m_Payload msg) (Some (stamped ?k msg))]"
    using assms(3) by (auto simp: pubsub_Publish_def Let_def)
  ultimately show ?thesis by blast
qed

theorem pubsub_publish_roundtrip_witness:
  "\<exists>data attrs attributes. ps_calls (snd (snd (pubsub_Publish sample_pubsub_client (pubsub_NewWithClient sample_pubsub_Config) (sample_msg 3)))) =
      [TopicPublish ''topic'' data attrs] \<and>
    toRingqMessage (\<lambda>_ _ _. 0) \<lparr>gm_ID = ''9'', gm_Data = data, gm_Attributes = attrs\<rparr> ''X-Topic'' =
    \<lparr>m_ID = ''9'', m_Topic = ''t'', m_Payload = ''p'', m_Attributes = attributes, m_ReceiptHandle = '''',
      m_Attempts = 0, m_NotBefore = 0\<rparr>"
proof -
  let ?t = "pubsub_NewWithClient sample_pubsub_Config"
  have t: "pc_TopicAttribute (ps_config ?t) = ''X-Topic''" "pc_TopicID (ps_config ?t) = ''topic''" "ps_calls ?t = []"
    by (simp_all add: pubsub_NewWithClient_def newWithClient_def pubsub_defaults_def sample_pubsub_Config_def)
  obtain err callers t' where p: "pubsub_Publish sample_pubsub_client ?t (sample_msg 3) = (err, callers, t')" by (metis prod.exhaust)
  have "carriable (sample_msg 3)" by (simp add: carriable_def sample_msg_def smap_get_def)
  moreover have "pc_TopicAttribute (ps_config ?t) \<notin> {'''', notBefore_key}" by (simp add: t notBefore_key_def)
  ultimately obtain data attrs attributes where "ps_calls t' = ps_calls ?t @ [TopicPublish (pc_TopicID (ps_config ?t)) data attrs]"
    and m: "\<forall>mid. toRingqMessage (\<lambda>_ _ _. 0) \<lparr>gm_ID = mid, gm_Data = data, gm_Attributes = attrs\<rparr> (pc_TopicAttribute (ps_config ?t)) =
      (sample_msg 3)\<lparr>m_ID := mid, m_ReceiptHandle := '''', m_Attempts := 0, m_Attributes := attributes\<rparr>"
    using pubsub_publish_roundtrip[OF _ _ p, of "\<lambda>_ _ _. 0"] by blast
  with m[rule_format, of "''9''"] show ?thesis unfolding t p by (auto simp: sample_msg_def)
qed

end
