(* ===== verification/Redis_Transport.thy ===== *)
theory Redis_Transport
  imports Broker_Interface
begin

text \<open>
  The Redis Pub/Sub transport, \<open>src/transport/redis/pubsub.go\<close>.

  \<open>redis\<close> is \<open>PubSubTransport\<close>: the configuration, whether \<open>pubsub\<close> is set, and the calls made to
  the client so far. The client and \<open>encoding/json\<close> for the wire format are parameters; what
  the subscription's channel has at a reception is an answer of the client like any other
  (\<open>RPoll\<close>). The deferred \<open>pubsub.Close()\<close> of \<open>Subscribe\<close> is the last call of a \<open>Subscribe\<close> that
  returns.

  Shown here: the batches \<open>Subscribe\<close> hands over, what of a published message arrives (its
  delay does not), and that no outcome of the pipeline has an effect on the broker.
\<close>

section \<open>Data\<close>

record redis_Config =
  rc_Addr :: string
  rc_Channels :: "string list"
  rc_Password :: string
  rc_DB :: int
  rc_TopicAttribute :: string

definition redis_defaults :: "redis_Config \<Rightarrow> redis_Config" where
  "redis_defaults c = (if rc_TopicAttribute c = '''' then c\<lparr>rc_TopicAttribute := ''X-Topic''\<rparr> else c)"

record wireMsg =
  wire_Payload :: bytes
  wire_Attributes :: smap

text \<open>\<open>json.Marshal\<close> and \<open>json.Unmarshal\<close> at \<open>wireMsg\<close>.\<close>

record wire_json =
  wire_Marshal :: "wireMsg \<Rightarrow> go_error + bytes"
  wire_Unmarshal :: "bytes \<Rightarrow> go_error + wireMsg"

datatype redis_call =
    RPublish string bytes
  | RSubscribe "string list"
  | RPoll                       \<comment> \<open>a look at the subscription's channel\<close>
  | RPubSubClose
  | RClientClose

datatype poll = PollNothing | PollClosed | PollMessage string bytes   \<comment> \<open>channel, payload\<close>

record redis_client =
  on_RPublish :: "redis_call list \<Rightarrow> go_error option"
  on_RPoll :: "redis_call list \<Rightarrow> poll"
  on_RClientClose :: "redis_call list \<Rightarrow> go_error option"

record redis =
  rd_config :: redis_Config
  rd_pubsub :: bool
  rd_calls :: "redis_call list"

section \<open>The methods\<close>

text \<open>\<open>New\<close> makes its client from the address, the password and the database and goes on like this.\<close>

definition redis_NewWithClient :: "redis_Config \<Rightarrow> redis" where
  "redis_NewWithClient cfg = \<lparr>rd_config = redis_defaults cfg, rd_pubsub = False, rd_calls = []\<rparr>"

definition redis_New :: "(string \<Rightarrow> string \<Rightarrow> int \<Rightarrow> redis_client) \<Rightarrow> redis_Config \<Rightarrow> redis_client \<times> redis" where
  "redis_New newClient cfg =
     (let cfg = redis_defaults cfg
      in (newClient (rc_Addr cfg) (rc_Password cfg) (rc_DB cfg), \<lparr>rd_config = cfg, rd_pubsub = False, rd_calls = []\<rparr>))"

definition rd_log :: "redis_call \<Rightarrow> redis \<Rightarrow> redis" where
  "rd_log c t = t\<lparr>rd_calls := rd_calls t @ [c]\<rparr>"

definition redis_Publish :: "wire_json \<Rightarrow> redis_client \<Rightarrow> redis \<Rightarrow> Message \<Rightarrow> (go_error option \<times> smap \<times> redis) go" where
  "redis_Publish J client t msg =
     (let attrs = (attrs_or_make (m_Attributes msg))(rc_TopicAttribute (rd_config t) \<mapsto> m_Topic msg);
          callers = callers_map (m_Attributes msg) attrs
      in case wire_Marshal J \<lparr>wire_Payload = m_Payload msg, wire_Attributes = Some attrs\<rparr> of
           Inl err \<Rightarrow> Inr (Some err, callers, t)
         | Inr data \<Rightarrow>
             (case rc_Channels (rd_config t) of
                [] \<Rightarrow> Inl IndexOutOfRange
              | channel # _ \<Rightarrow>
                  (let t = rd_log (RPublish channel data) t in Inr (on_RPublish client (rd_calls t), callers, t))))"

definition wire_message :: "string \<Rightarrow> string \<Rightarrow> wireMsg \<Rightarrow> Message" where
  "wire_message topicKey channel wire =
     \<lparr>m_ID = channel, m_Topic = (if wire_Attributes wire \<noteq> None then smap_val (wire_Attributes wire) topicKey else ''''),
      m_Payload = wire_Payload wire, m_Attributes = wire_Attributes wire, m_ReceiptHandle = '''', m_Attempts = 0,
      m_NotBefore = 0\<rparr>"

text \<open>One iteration of the loop of \<open>Subscribe\<close>; an iteration in which nothing is ready waits on.\<close>

definition redis_iteration :: "wire_json \<Rightarrow> redis_client \<Rightarrow> sub_env \<Rightarrow> redis \<Rightarrow> (iteration \<times> redis) go" where
  "redis_iteration J client e t =
     (let polled = rd_log RPoll t; ready = on_RPoll client (rd_calls polled)
      in if ev_ctx e \<and> (ev_pickCtx e \<or> ready = PollNothing) then Inr (Stop (Some ContextCanceled), t)
         else case ready of
           PollNothing \<Rightarrow> Inr (Batches [], polled)
         | PollClosed \<Rightarrow> Inr (Stop None, polled)
         | PollMessage channel payload \<Rightarrow>
             (case wire_Unmarshal J payload of
                Inl _ \<Rightarrow> Inr (Batches [], polled)
              | Inr wire \<Rightarrow> Inr (Batches [[wire_message (rc_TopicAttribute (rd_config t)) channel wire]], polled)))"

definition redis_Subscribe :: "wire_json \<Rightarrow> redis_client \<Rightarrow> 'h ConsumeHandler \<Rightarrow> sub_env list \<Rightarrow> redis \<Rightarrow> 'h
    \<Rightarrow> (sub_result \<times> redis \<times> 'h) go" where
  "redis_Subscribe J client handler es t h =
     (let t = (rd_log (RSubscribe (rc_Channels (rd_config t))) t)\<lparr>rd_pubsub := True\<rparr>
      in case subscribe_loop (redis_iteration J client) handler es t h of
           Inl p \<Rightarrow> Inl p
         | Inr (SubRunning, t, h) \<Rightarrow> Inr (SubRunning, t, h)
         | Inr (SubReturned err, t, h) \<Rightarrow> Inr (SubReturned err, rd_log RPubSubClose t, h))"

definition redis_Ack :: "redis \<Rightarrow> Message list \<Rightarrow> go_error option \<times> redis" where
  "redis_Ack t messages = (None, t)"

definition redis_Nack :: "redis \<Rightarrow> Message \<Rightarrow> duration \<Rightarrow> go_error option \<times> redis" where
  "redis_Nack t message delay = (None, t)"

definition redis_SendToDLQ :: "redis \<Rightarrow> Message \<Rightarrow> go_error option \<times> redis" where
  "redis_SendToDLQ t message = (None, t)"

definition redis_Close :: "redis_client \<Rightarrow> redis \<Rightarrow> go_error option \<times> redis" where
  "redis_Close client t =
     (let t = (if rd_pubsub t then rd_log RPubSubClose t else t);
          t = rd_log RClientClose t
      in (on_RClientClose client (rd_calls t), t))"

definition RedisTransport :: "wire_json \<Rightarrow> redis_client \<Rightarrow> redis Transport" where
  "RedisTransport J client = \<lparr>t_Publish = \<lambda>t msg. map_sum id (\<lambda>(err, _, t). (err, t)) (redis_Publish J client t msg),
     t_Ack = redis_Ack, t_Nack = redis_Nack, t_SendToDLQ = redis_SendToDLQ, t_Close = \<lambda>t. Inr (redis_Close client t)\<rparr>"

section \<open>The contract with the pipeline\<close>

interpretation redis: broker "RedisTransport J client" "\<lambda>_. True" rd_calls "\<lambda>_ _. []" "\<lambda>_ _ _. []" "\<lambda>_ _. []"
  for J client
  by unfold_locales (simp_all add: RedisTransport_def redis_Ack_def redis_Nack_def redis_SendToDLQ_def)

section \<open>What Subscribe hands over\<close>

lemma rd_log_sel [simp]:
  "rd_config (rd_log c t) = rd_config t" "rd_calls (rd_log c t) = rd_calls t @ [c]" "rd_pubsub (rd_log c t) = rd_pubsub t"
  by (simp_all add: rd_log_def)

text \<open>The messages among what the channel had: those that can be decoded, each a batch of its own.\<close>

definition poll_batch :: "wire_json \<Rightarrow> string \<Rightarrow> poll \<Rightarrow> Message list list" where
  "poll_batch J topicKey ready = (case ready of
     PollMessage channel payload \<Rightarrow>
       (case wire_Unmarshal J payload of Inl _ \<Rightarrow> [] | Inr wire \<Rightarrow> [[wire_message topicKey channel wire]])
   | _ \<Rightarrow> [])"

definition redis_received :: "wire_json \<Rightarrow> redis_client \<Rightarrow> redis \<Rightarrow> Message list list" where
  "redis_received J client t =
     concat (map (poll_batch J (rc_TopicAttribute (rd_config t))) (answers ((=) RPoll) (on_RPoll client) (rd_calls t)))"

lemma redis_received_poll:
  "redis_received J client (rd_log RPoll t) = redis_received J client t @
     poll_batch J (rc_TopicAttribute (rd_config t)) (on_RPoll client (rd_calls t @ [RPoll]))"
  by (simp add: redis_received_def answers_snoc)

lemma redis_received_other: "c \<noteq> RPoll \<Longrightarrow> redis_received J client (rd_log c t) = redis_received J client t"
  by (auto simp: redis_received_def answers_snoc)

interpretation redis_sub: batch_subscription "redis_iteration J client" "\<lambda>_. True" "redis_received J client" for J client
proof
  fix e t
  show "\<exists>it t'. redis_iteration J client e t = Inr (it, t') \<and> True"
    by (auto simp: redis_iteration_def Let_def split: poll.split sum.split)
next
  fix e t r t'
  assume "redis_iteration J client e t = Inr (Stop r, t')"
  then show "redis_received J client t' = redis_received J client t"
    by (auto simp: redis_iteration_def Let_def redis_received_poll poll_batch_def split: if_splits poll.splits sum.splits)
next
  fix e t bs t'
  assume "redis_iteration J client e t = Inr (Batches bs, t')"
  then show "redis_received J client t' = redis_received J client t @ bs" and "length bs \<le> 1"
    by (auto simp: redis_iteration_def Let_def redis_received_poll poll_batch_def split: if_splits poll.splits sum.splits)
qed

section \<open>Examples\<close>

definition sample_redis :: redis where
  "sample_redis = redis_NewWithClient \<lparr>rc_Addr = ''localhost:6379'', rc_Channels = [''events''], rc_Password = '''', rc_DB = 0,
     rc_TopicAttribute = ''''\<rparr>"

text \<open>A wire format for one payload byte string and the topic \<open>t\<close>; the empty text cannot be decoded.\<close>

definition sample_json :: wire_json where
  "sample_json = \<lparr>wire_Marshal = \<lambda>w. Inr (wire_Payload w),
     wire_Unmarshal = \<lambda>d. if d = [] then Inl (DecodeError ''json'')
       else Inr \<lparr>wire_Payload = d, wire_Attributes = Some [''X-Topic'' \<mapsto> ''t'']\<rparr>\<rparr>"

definition sample_redis_client :: redis_client where
  "sample_redis_client = \<lparr>on_RPublish = \<lambda>_. None,
     on_RPoll = \<lambda>hist. if length hist = 2 then PollMessage ''events'' [] else if length hist = 3 then PollMessage ''events'' ''p''
       else PollClosed,
     on_RClientClose = \<lambda>_. None\<rparr>"

definition redis_runtime :: "(redis, MemoryStore, unit) runtime" where
  "redis_runtime = \<lparr>rt_handlers = [''t'' \<mapsto> poison_entry], rt_transport = RedisTransport sample_json sample_redis_client,
     rt_hooks = no_hooks, rt_idemFilter = None, rt_conv = \<lambda>_. 0\<rparr>"

definition redis_world :: "(redis, MemoryStore, unit) world" where
  "redis_world = \<lparr>x_ring = sample_ring, x_transport = sample_redis, x_store = NewMemoryStore, x_wheel = wheel_New,
     x_user = (), x_events = []\<rparr>"

section \<open>Properties\<close>

text \<open>What of a message published over Redis Pub/Sub arrives, given that \<open>encoding/json\<close> decodes what
  it has encoded of it (as it does for valid UTF-8): the topic, the payload and the attributes do; the delay does not, the
  identity is the channel's name (the same for every message), and the attempt counter is 0.
  Without a channel \<open>Publish\<close> panics.\<close>

theorem redis_publish_roundtrip:
  assumes "wire = \<lparr>wire_Payload = m_Payload msg,
      wire_Attributes = Some ((attrs_or_make (m_Attributes msg))(rc_TopicAttribute (rd_config t) \<mapsto> m_Topic msg))\<rparr>"
    and "\<forall>data. wire_Marshal J wire = Inr data \<longrightarrow> wire_Unmarshal J data = Inr wire"
    and "redis_Publish J client t msg = result"
  shows "case result of
      Inl p \<Rightarrow> p = IndexOutOfRange \<and> rc_Channels (rd_config t) = []
    | Inr (err, callers, t') \<Rightarrow>
        t' = t \<and> err \<noteq> None \<or>
        (\<exists>channel data attributes. rd_calls t' = rd_calls t @ [RPublish channel data] \<and>
           channel = hd (rc_Channels (rd_config t)) \<and>
           poll_batch J (rc_TopicAttribute (rd_config t)) (PollMessage channel data) =
             [[msg\<lparr>m_ID := channel, m_Attributes := Some attributes, m_ReceiptHandle := '''', m_Attempts := 0, m_NotBefore := 0\<rparr>]] \<and>
           (\<forall>k. k \<noteq> rc_TopicAttribute (rd_config t) \<longrightarrow> attributes k = smap_get (m_Attributes msg) k))"
proof -
  let ?k = "rc_TopicAttribute (rd_config t)"
  let ?attrs = "(attrs_or_make (m_Attributes msg))(?k \<mapsto> m_Topic msg)"
  let ?wire = "\<lparr>wire_Payload = m_Payload msg, wire_Attributes = Some ?attrs\<rparr>"
  have other: "\<forall>j. j \<noteq> ?k \<longrightarrow> ?attrs j = smap_get (m_Attributes msg) j"
    by (auto simp: attrs_or_make_def smap_get_def split: option.split)
  have conv: "wire_message ?k channel ?wire =
      msg\<lparr>m_ID := channel, m_Attributes := Some ?attrs, m_ReceiptHandle := '''', m_Attempts := 0, m_NotBefore := 0\<rparr>" for channel
    by (simp add: wire_message_def smap_val_def smap_get_def)
  show ?thesis
  proof (cases "wire_Marshal J ?wire")
    case (Inl err)
    then show ?thesis using assms(3) by (auto simp: redis_Publish_def Let_def)
  next
    case (Inr data)
    with assms(1,2) have dec: "wire_Unmarshal J data = Inr ?wire" by blast
    show ?thesis
    proof (cases "rc_Channels (rd_config t)")
      case Nil
      then show ?thesis using assms(3) Inr by (auto simp: redis_Publish_def Let_def)
    next
      case (Cons channel rest)
      then have "result = Inr (on_RPublish client (rd_calls t @ [RPublish channel data]),
          callers_map (m_Attributes msg) ?attrs, rd_log (RPublish channel data) t)"
        using assms(3) Inr by (simp add: redis_Publish_def Let_def)
      then show ?thesis using Cons dec conv[of channel] other
        by (auto simp: poll_batch_def intro!: exI[of _ ?attrs])
    qed
  qed
qed

theorem redis_publish_roundtrip_witness:
  "\<exists>J t' attributes. redis_Publish J sample_redis_client sample_redis ((sample_msg 3)\<lparr>m_NotBefore := 60 * Second\<rparr>) = Inr (None, None, t') \<and>
     rd_calls t' = [RPublish ''events'' ''w''] \<and>
     poll_batch J ''X-Topic'' (PollMessage ''events'' ''w'') =
       [[\<lparr>m_ID = ''events'', m_Topic = ''t'', m_Payload = ''p'', m_Attributes = Some attributes, m_ReceiptHandle = '''',
          m_Attempts = 0, m_NotBefore = 0\<rparr>]]"
proof -
  let ?msg = "(sample_msg 3)\<lparr>m_NotBefore := 60 * Second\<rparr>"
  let ?wire = "\<lparr>wire_Payload = ''p'', wire_Attributes = Some [''X-Topic'' \<mapsto> ''t'']\<rparr>"
  let ?J = "\<lparr>wire_Marshal = \<lambda>w. if w = ?wire then Inr ''w'' else Inl (UserError ''json''), wire_Unmarshal = \<lambda>_. Inr ?wire\<rparr>"
  have J: "\<forall>data. wire_Marshal ?J ?wire = Inr data \<longrightarrow> wire_Unmarshal ?J data = Inr ?wire" by auto
  have r: "redis_Publish ?J sample_redis_client sample_redis ?msg = Inr (None, None, rd_log (RPublish ''events'' ''w'') sample_redis)"
    by (simp add: redis_Publish_def Let_def sample_redis_def redis_NewWithClient_def redis_defaults_def sample_msg_def
        attrs_or_make_def callers_map_def sample_redis_client_def)
  have t: "rd_calls sample_redis = []" "rc_TopicAttribute (rd_config sample_redis) = ''X-Topic''"
    by (simp_all add: sample_redis_def redis_NewWithClient_def redis_defaults_def)
  have ne: "rd_log c sample_redis \<noteq> sample_redis" for c using t by (metis rd_log_sel(2) append_is_Nil_conv list.distinct(1))
  have "?wire = \<lparr>wire_Payload = m_Payload ?msg,
      wire_Attributes = Some ((attrs_or_make (m_Attributes ?msg))(rc_TopicAttribute (rd_config sample_redis) \<mapsto> m_Topic ?msg))\<rparr>"
    by (simp add: t sample_msg_def attrs_or_make_def)
  from redis_publish_roundtrip[OF this J r] t ne obtain attributes where
    "poll_batch ?J ''X-Topic'' (PollMessage ''events'' ''w'') =
       [[?msg\<lparr>m_ID := ''events'', m_Attributes := Some attributes, m_ReceiptHandle := '''', m_Attempts := 0, m_NotBefore := 0\<rparr>]]"
    by auto
  with r t show ?thesis
    by (intro exI[of _ ?J] exI[of _ "rd_log (RPublish ''events'' ''w'') sample_redis"] exI[of _ attributes])
      (simp add: sample_msg_def)
qed

text \<open>No outcome reaches the broker: whatever the handler and the coordinator decide, processing a
  message leaves the Redis Pub/Sub transport as it is. A message to be retried with a delay
  or dead-lettered is thereby dropped.\<close>

lemma redis_settlement:
  assumes "rt_transport r = RedisTransport J client" and "processMessage r now msg entry w = Inr (res, w')"
  shows "rd_calls (x_transport w') = rd_calls (x_transport w)"
proof -
  have "settle_calls T (\<lambda>_ _. []) (\<lambda>_ _ _. []) (\<lambda>_ _. []) t out = ([] :: redis_call list)" for T :: "redis Transport" and t out
    by (cases "o_Action out") (simp_all add: settle_calls_def)
  with redis.process_law[OF assms(1) TrueI assms(2)] show ?thesis by simp
qed

lemma redis_settlement_witness:
  "\<exists>res w'. processMessage redis_runtime (at_second 0) (sample_msg 0) poison_entry redis_world = Inr (res, w') \<and>
     rd_calls (x_transport w') = []"
proof -
  obtain res w' where p: "processMessage redis_runtime (at_second 0) (sample_msg 0) poison_entry redis_world = Inr (res, w')"
    by (simp add: processMessage_def process_switch_def split_def Let_def resolveOutcome_def poison_entry_def
        default_Handle_def default_retry_def ask_retry_def sample_msg_def wrap64_def backoff_def pow2_int64_def
        maxRetryDelay_def duration_defs)
  from redis_settlement[OF _ p] p show ?thesis
    by (auto simp: redis_runtime_def redis_world_def sample_redis_def redis_NewWithClient_def)
qed

text \<open>\<open>Subscribe\<close> on Redis Pub/Sub hands over every message of the channel that can be decoded, once
  and in order, one per batch, and skips the others; it returns the context's error when the
  context is done, nil when the channel is closed, or the handler's error, and then closes
  the subscription.\<close>

theorem redis_subscribe_delivers:
  "\<exists>r t' h' batches. redis_Subscribe J client (keeping handler) es t (h, []) = Inr (r, t', (h', batches)) \<and>
    redis_received J client t' = redis_received J client t @ batches \<and>
    (case r of
       SubRunning \<Rightarrow> True
     | SubReturned x \<Rightarrow> last (rd_calls t') = RPubSubClose \<and>
         (x = Some ContextCanceled \<and> (\<exists>e \<in> set es. ev_ctx e) \<or>
          x = None \<and> on_RPoll client (butlast (rd_calls t')) = PollClosed \<or>
          batches \<noteq> [] \<and> x \<noteq> None \<and> (\<exists>g. fst (handler g (last batches)) = x)))"
proof -
  let ?t = "(rd_log (RSubscribe (rc_Channels (rd_config t))) t)\<lparr>rd_pubsub := True\<rparr>"
  have start: "redis_received J client ?t = redis_received J client t"
    using redis_received_other[of "RSubscribe (rc_Channels (rd_config t))" J client t] by (simp add: redis_received_def)
  obtain r t1 h' bs where run: "subscribe_loop (redis_iteration J client) (keeping handler) es ?t (h, []) = Inr (r, t1, (h', bs))"
    and rec: "redis_received J client t1 = redis_received J client t @ bs"
    and why: "\<forall>x. r = SubReturned x \<longrightarrow> (\<exists>e \<in> set es. \<exists>s. redis_iteration J client e s = Inr (Stop x, t1)) \<or>
       bs \<noteq> [] \<and> x \<noteq> None \<and> (\<exists>g. fst (handler g (last bs)) = x)"
    using redis_sub.delivers_all[OF TrueI, of J client handler es ?t h "[]"] start by auto
  have stop: "x = Some ContextCanceled \<and> ev_ctx e \<or> x = None \<and> on_RPoll client (rd_calls t1) = PollClosed"
    if "redis_iteration J client e s = Inr (Stop x, t1)" for e s x
    using that by (auto simp: redis_iteration_def Let_def split: if_splits poll.splits sum.splits)
  show ?thesis
  proof (cases r)
    case SubRunning
    with run rec show ?thesis by (auto simp: redis_Subscribe_def Let_def)
  next
    case (SubReturned x)
    with why stop have "x = Some ContextCanceled \<and> (\<exists>e \<in> set es. ev_ctx e) \<or>
        x = None \<and> on_RPoll client (rd_calls t1) = PollClosed \<or> bs \<noteq> [] \<and> x \<noteq> None \<and> (\<exists>g. fst (handler g (last bs)) = x)"
      by blast
    then show ?thesis using SubReturned run rec redis_received_other[of RPubSubClose J client t1]
      by - (rule exI[of _ r], rule exI[of _ "rd_log RPubSubClose t1"], rule exI[of _ h'], rule exI[of _ bs],
          simp add: redis_Subscribe_def Let_def)
  qed
qed

theorem redis_subscribe_delivers_witness:
  "\<exists>t' h' msg. redis_Subscribe sample_json sample_redis_client (keeping (\<lambda>h _. (None, h)))
       (replicate 3 \<lparr>ev_ctx = False, ev_close = False, ev_pickCtx = False, ev_ctxAfter = False\<rparr>) sample_redis ((), []) =
     Inr (SubReturned None, t', (h', [[msg]])) \<and> m_Topic msg = ''t''"
  using redis_subscribe_delivers[of sample_json sample_redis_client "\<lambda>h _. (None, h)"
      "replicate 3 \<lparr>ev_ctx = False, ev_close = False, ev_pickCtx = False, ev_ctxAfter = False\<rparr>" sample_redis "()"]
  by (simp add: redis_Subscribe_def redis_iteration_def Let_def sample_redis_client_def sample_redis_def redis_NewWithClient_def
      redis_defaults_def sample_json_def rd_log_def keeping_def numeral_eq_Suc wire_message_def smap_val_def smap_get_def)

end
