(* ===== verification/Examples.thy ===== *)
theory Examples
  imports Rounds SQS_Transport PubSub_Transport Redis_Transport
begin

text \<open>
  The programs of \<open>src/examples\<close>: their payload types, handlers, pipelines and messages, and what
  the pipeline does with them on the in-memory transport.

  The state of the user code is what a handler counts and prints, a printed line standing for
  the values formatted into it. \<open>encoding/json\<close> is a parameter (\<open>marshal\<close>, \<open>unmarshal\<close>) at each payload
  type, and a \<open>float64\<close>, which the programs only print, is a value of the type \<open>'f\<close>. \<open>main\<close> is a list of
  phases: the messages it publishes, the time, and how many rounds of receive, queue, dispatch
  and process the pipeline makes while \<open>main\<close> sleeps.
\<close>

section \<open>A message literal\<close>

definition message_lit :: "string \<Rightarrow> string \<Rightarrow> bytes \<Rightarrow> Message" where
  "message_lit ident topic payload = \<lparr>m_ID = ident, m_Topic = topic, m_Payload = payload, m_Attributes = None,
     m_ReceiptHandle = '''', m_Attempts = 0, m_NotBefore = 0\<rparr>"

section \<open>\<open>examples/simple\<close>\<close>

record 'f OrderPayload =
  op_OrderID :: string
  op_Amount :: 'f

definition simple_processOrder :: "((string \<times> 'f) list, 'f OrderPayload) Handler" where
  "simple_processOrder out msg =
     (\<lparr>r_Action = Ack, r_Delay = 0, r_Err = None\<rparr>, out @ [(op_OrderID msg, op_Amount msg)])"

definition simple_pipeline :: "('f OrderPayload \<Rightarrow> go_error + bytes) \<Rightarrow> (bytes \<Rightarrow> go_error + 'f OrderPayload)
    \<Rightarrow> (mem \<times> t_call list, MemoryStore, (string \<times> 'f) list) Pipeline" where
  "simple_pipeline marshal unmarshal =
     pipeline_BufferSize 1024 (pipeline_Concurrency 4
       (pipeline_Handle ''order.created'' (Wrap marshal unmarshal simple_processOrder)
         (pipeline_Transport (Some (logged MemoryTransport)) pipeline_New)))"

definition simple_messages :: "Message list" where
  "simple_messages =
     [message_lit ''1'' ''order.created'' ''{\"order_id\":\"ORD-001\",\"amount\":99.95}'',
      message_lit ''2'' ''order.created'' ''{\"order_id\":\"ORD-002\",\"amount\":149.50}'']"

section \<open>\<open>examples/retry\<close>\<close>

record 'f PaymentPayload =
  pay_PaymentID :: string
  pay_Amount :: 'f

text \<open>\<open>attemptCount\<close>, and the attempts reported on the output with whether they succeeded.\<close>

record payments =
  attemptCount :: int
  reported :: "(int \<times> string \<times> bool) list"

definition gateway_error :: go_error where
  "gateway_error = UserError ''temporary payment gateway error''"

definition processPayment :: "(payments, 'f PaymentPayload) Handler" where
  "processPayment s msg =
     (let n = wrap64 (attemptCount s + 1)
      in if n < 4
         then (\<lparr>r_Action = Retry, r_Delay = 0, r_Err = Some gateway_error\<rparr>,
               \<lparr>attemptCount = n, reported = reported s @ [(n, pay_PaymentID msg, False)]\<rparr>)
         else (\<lparr>r_Action = Ack, r_Delay = 0, r_Err = None\<rparr>,
               \<lparr>attemptCount = n, reported = reported s @ [(n, pay_PaymentID msg, True)]\<rparr>))"

definition retry_pipeline :: "('f PaymentPayload \<Rightarrow> go_error + bytes) \<Rightarrow> (bytes \<Rightarrow> go_error + 'f PaymentPayload)
    \<Rightarrow> (mem \<times> t_call list, MemoryStore, payments) Pipeline" where
  "retry_pipeline marshal unmarshal =
     pipeline_BufferSize 16 (pipeline_Concurrency 2
       (WithHooks \<lparr>h_OnReceive = False, h_OnDispatch = False, h_OnComplete = True, h_OnError = True, h_OnRetry = True,
          h_OnDuplicate = False\<rparr>
       (HandleWithRetry ''payment.process'' (Wrap marshal unmarshal processPayment) 10 (1 * Second) None
         (pipeline_Transport (Some (logged MemoryTransport)) pipeline_New))))"

definition payment_message :: Message where
  "payment_message = message_lit ''1'' ''payment.process'' ''{\"payment_id\":\"PAY-001\",\"amount\":99.95}''"

section \<open>\<open>examples/idempotent\<close>\<close>

record 'f Order =
  ord_OrderID :: string
  ord_Amount :: 'f

definition processOrder :: "((string \<times> 'f) list, 'f Order) Handler" where
  "processOrder out msg =
     (\<lparr>r_Action = Ack, r_Delay = 0, r_Err = None\<rparr>, out @ [(ord_OrderID msg, ord_Amount msg)])"

definition idempotent_pipeline :: "('f Order \<Rightarrow> go_error + bytes) \<Rightarrow> (bytes \<Rightarrow> go_error + 'f Order)
    \<Rightarrow> (mem \<times> t_call list, MemoryStore, (string \<times> 'f) list) Pipeline" where
  "idempotent_pipeline marshal unmarshal =
     pipeline_BufferSize 16 (pipeline_Concurrency 2
       (WithHooks \<lparr>h_OnReceive = False, h_OnDispatch = False, h_OnComplete = False, h_OnError = False, h_OnRetry = False,
          h_OnDuplicate = True\<rparr>
       (pipeline_Idempotency \<lparr>ic_Store = Some MemoryIdemStore, ic_AttributeKey = ''IdempotencyKey'', ic_TTL = 1 * Hour\<rparr>
       (pipeline_Handle ''order.created'' (Wrap marshal unmarshal processOrder)
         (pipeline_Transport (Some (logged MemoryTransport)) pipeline_New)))))"

definition order_message :: "string \<Rightarrow> string \<Rightarrow> string \<Rightarrow> Message" where
  "order_message ident payload key =
     (message_lit ident ''order.created'' payload)\<lparr>m_Attributes := Some [''IdempotencyKey'' \<mapsto> key]\<rparr>"

definition order_payloads :: "bytes list" where
  "order_payloads = [''{\"order_id\":\"ORD-001\",\"amount\":99.95}'', ''{\"order_id\":\"ORD-002\",\"amount\":149.50}'']"

definition idempotent_messages :: "Message list" where
  "idempotent_messages = [order_message ''1'' (order_payloads ! 0) ''ord-001-v1'',
     order_message ''2'' (order_payloads ! 0) ''ord-001-v1'', order_message ''3'' (order_payloads ! 1) ''ord-002-v1'']"

section \<open>\<open>examples/delayed\<close>\<close>

record ReminderPayload =
  rem_UserID :: string
  rem_Message :: string

definition sendReminder :: "((string \<times> string) list, ReminderPayload) Handler" where
  "sendReminder out msg =
     (\<lparr>r_Action = Ack, r_Delay = 0, r_Err = None\<rparr>, out @ [(rem_UserID msg, rem_Message msg)])"

definition delayed_pipeline :: "(ReminderPayload \<Rightarrow> go_error + bytes) \<Rightarrow> (bytes \<Rightarrow> go_error + ReminderPayload)
    \<Rightarrow> (mem \<times> t_call list, MemoryStore, (string \<times> string) list) Pipeline" where
  "delayed_pipeline marshal unmarshal =
     pipeline_BufferSize 16 (pipeline_Concurrency 2
       (pipeline_Handle ''reminder.send'' (Wrap marshal unmarshal sendReminder)
         (pipeline_Transport (Some (logged MemoryTransport)) pipeline_New)))"

definition reminder_messages :: "Message list" where
  "reminder_messages =
     [message_lit ''1'' ''reminder.send'' ''{\"user_id\":\"user-001\",\"message\":\"Welcome!\"}'',
      (message_lit ''2'' ''reminder.send''
        ''{\"user_id\":\"user-001\",\"message\":\"Reminder: your trial expires in 3 days\"}'')\<lparr>m_NotBefore := 5 * Second\<rparr>]"

section \<open>\<open>examples/otel\<close>\<close>

record EmailPayload =
  em_To :: string
  em_Subject :: string
  em_Body :: string

definition sendEmail :: "((string \<times> string) list, EmailPayload) Handler" where
  "sendEmail out msg = (\<lparr>r_Action = Ack, r_Delay = 0, r_Err = None\<rparr>, out @ [(em_To msg, em_Subject msg)])"

definition otel_pipeline :: "(EmailPayload \<Rightarrow> go_error + bytes) \<Rightarrow> (bytes \<Rightarrow> go_error + EmailPayload)
    \<Rightarrow> (mem \<times> t_call list, MemoryStore, (string \<times> string) list) Pipeline" where
  "otel_pipeline marshal unmarshal =
     pipeline_BufferSize 1024 (pipeline_Concurrency 4
       (WithHooks \<lparr>h_OnReceive = True, h_OnDispatch = True, h_OnComplete = True, h_OnError = True, h_OnRetry = True,
          h_OnDuplicate = True\<rparr>
       (pipeline_Handle ''email.send'' (Wrap marshal unmarshal sendEmail)
         (pipeline_Transport (Some (logged MemoryTransport)) pipeline_New))))"

text \<open>What the hooks do to the counters \<open>messagesSent\<close> and \<open>messagesFailed\<close>.\<close>

fun otel_hook :: "hook_event \<Rightarrow> int \<times> int \<Rightarrow> int \<times> int" where
  "otel_hook (OnComplete topic) (sent, failed) = (wrap64 (sent + 1), failed)"
| "otel_hook (OnError topic err) (sent, failed) = (sent, wrap64 (failed + 1))"
| "otel_hook e (sent, failed) = (sent, failed)"

definition email_messages :: "Message list" where
  "email_messages =
     [message_lit ''1'' ''email.send'' ''{\"to\":\"user@example.com\",\"subject\":\"Welcome!\",\"body\":\"Thanks for signing up\"}'',
      message_lit ''2'' ''email.send'' ''{\"to\":\"admin@example.com\",\"subject\":\"New order #123\",\"body\":\"Order details...\"}'']"

section \<open>\<open>examples/redis\<close>, \<open>examples/sqs\<close>, \<open>examples/pubsub\<close>\<close>

record Notification =
  ntf_UserID :: string
  ntf_Message :: string

definition sendNotification :: "((string \<times> string) list, Notification) Handler" where
  "sendNotification out msg =
     (\<lparr>r_Action = Ack, r_Delay = 0, r_Err = None\<rparr>, out @ [(ntf_UserID msg, ntf_Message msg)])"

definition redis_example_config :: redis_Config where
  "redis_example_config = \<lparr>rc_Addr = ''localhost:6379'', rc_Channels = [''notifications''], rc_Password = '''', rc_DB = 0,
     rc_TopicAttribute = ''''\<rparr>"

definition redis_example_pipeline :: "wire_json \<Rightarrow> redis_client \<Rightarrow> (Notification \<Rightarrow> go_error + bytes)
    \<Rightarrow> (bytes \<Rightarrow> go_error + Notification) \<Rightarrow> (redis, 's, (string \<times> string) list) Pipeline" where
  "redis_example_pipeline J client marshal unmarshal =
     pipeline_BufferSize 1024 (pipeline_Concurrency 4
       (pipeline_Handle ''notification.send'' (Wrap marshal unmarshal sendNotification)
         (pipeline_Transport (Some (RedisTransport J client)) pipeline_New)))"

definition notification_messages :: "Message list" where
  "notification_messages =
     [message_lit ''1'' ''notification.send'' ''{\"user_id\":\"user-001\",\"message\":\"Your order has shipped!\"}'',
      message_lit ''2'' ''notification.send'' ''{\"user_id\":\"user-002\",\"message\":\"Payment confirmed\"}'']"

text \<open>\<open>os.Getenv\<close> is a function of the name: an unset variable reads as the empty string.\<close>

definition sqs_example_config :: "(string \<Rightarrow> string) \<Rightarrow> sqs_Config" where
  "sqs_example_config getenv =
     (let mainQueueURL = getenv ''SQS_QUEUE_URL''; dlqURL = getenv ''SQS_DLQ_URL'';
          (mainQueueURL, dlqURL) =
            (if mainQueueURL = ''''
             then (''http://localhost:4566/000000000000/orders-main'', ''http://localhost:4566/000000000000/orders-dlq'')
             else (mainQueueURL, dlqURL))
      in \<lparr>sc_QueueURL = mainQueueURL, sc_DLQURL = dlqURL, sc_MaxMessages = 10, sc_WaitTime = 20, sc_VisibilityTimeout = 0,
          sc_TopicAttribute = '''', sc_BaseEndpoint = getenv ''SQS_ENDPOINT''\<rparr>)"

definition pubsub_example_config :: "(string \<Rightarrow> string) \<Rightarrow> pubsub_Config" where
  "pubsub_example_config getenv =
     (let projectID = getenv ''GCP_PROJECT_ID''; projectID = (if projectID = '''' then ''test-project'' else projectID);
          topicID = getenv ''PUBSUB_TOPIC_ID''; subscriptionID = getenv ''PUBSUB_SUBSCRIPTION_ID'';
          (topicID, subscriptionID) = (if topicID = '''' then (''orders-topic'', ''orders-sub'') else (topicID, subscriptionID))
      in \<lparr>pc_ProjectID = projectID, pc_TopicID = topicID, pc_SubscriptionID = subscriptionID, pc_MaxMessages = 10,
          pc_TopicAttribute = ''''\<rparr>)"

text \<open>The payload type and the handler of both programs have the text of \<open>examples/simple\<close>.\<close>

type_synonym 'f sqs_OrderPayload = "'f OrderPayload"
type_synonym 'f pubsub_OrderPayload = "'f OrderPayload"

definition sqs_processOrder :: "((string \<times> 'f) list, 'f sqs_OrderPayload) Handler" where
  "sqs_processOrder out msg =
     (\<lparr>r_Action = Ack, r_Delay = 0, r_Err = None\<rparr>, out @ [(op_OrderID msg, op_Amount msg)])"

definition pubsub_processOrder :: "((string \<times> 'f) list, 'f pubsub_OrderPayload) Handler" where
  "pubsub_processOrder out msg =
     (\<lparr>r_Action = Ack, r_Delay = 0, r_Err = None\<rparr>, out @ [(op_OrderID msg, op_Amount msg)])"

definition sqs_example_pipeline :: "'a aws \<Rightarrow> (duration \<Rightarrow> int) \<Rightarrow> ('f OrderPayload \<Rightarrow> go_error + bytes)
    \<Rightarrow> (bytes \<Rightarrow> go_error + 'f OrderPayload) \<Rightarrow> (sqs, 's, (string \<times> 'f) list) Pipeline" where
  "sqs_example_pipeline A secs marshal unmarshal =
     pipeline_BufferSize 4096 (pipeline_Concurrency 32
       (HandleWithRetry ''payment.processed'' (Wrap marshal unmarshal sqs_processOrder) 5 (2 * Second) None
       (pipeline_Handle ''order.created'' (Wrap marshal unmarshal sqs_processOrder)
         (pipeline_Transport (Some (SQSTransport A secs)) pipeline_New))))"

definition pubsub_example_pipeline :: "pubsub_client
    \<Rightarrow> ('f OrderPayload \<Rightarrow> go_error + bytes) \<Rightarrow> (bytes \<Rightarrow> go_error + 'f OrderPayload) \<Rightarrow> (pubsub, 's, (string \<times> 'f) list) Pipeline" where
  "pubsub_example_pipeline client marshal unmarshal =
     pipeline_BufferSize 4096 (pipeline_Concurrency 32
       (pipeline_Handle ''order.created'' (Wrap marshal unmarshal pubsub_processOrder)
         (pipeline_Transport (Some (PubSubTransport client)) pipeline_New)))"

text \<open>The state of \<open>processPayment\<close> after \<open>k\<close> runs on a payment.\<close>

definition payments_after :: "string \<Rightarrow> nat \<Rightarrow> payments" where
  "payments_after ident k = \<lparr>attemptCount = int k, reported = map (\<lambda>i. (int i, ident, 4 \<le> i)) [1..<Suc k]\<rparr>"

section \<open>Lemmas\<close>

lemmas builder_defs = pipeline_Idempotency_def pipeline_Handle_def HandleWithRetry_def pipeline_Transport_def pipeline_New_def
  pipeline_BufferSize_def pipeline_Concurrency_def WithHooks_def

lemma Wrap_decoded: "unmarshal raw = Inr x \<Longrightarrow> Wrap marshal unmarshal handler h raw = handler h x"
  by (simp add: Wrap_def JSONCodec_def)

text \<open>The completion hook is called after every run of a handler, whatever its result.\<close>

lemma completion_hook_every_run:
  assumes "h_OnComplete (rt_hooks r)" and "processMessage r now msg entry w = Inr (res, w')"
  shows "\<exists>es. x_events w' = x_events w @ OnComplete (m_Topic msg) # es"
proof -
  define v where "v = (log_events (fireOnComplete (rt_hooks r) (m_Topic msg)) (w\<lparr>x_user := snd (e_fn entry (x_user w) (m_Payload msg))\<rparr>))"
  have ev: "x_events v = x_events w @ [OnComplete (m_Topic msg)]"
    using assms(1) by (simp add: v_def log_events_def go_simps)
  obtain out h where "process_switch r now msg out (v\<lparr>x_user := h\<rparr>) = Inr (res, w')"
    using assms(2) by (auto simp: processMessage_def v_def split_def Let_def)
  then have "\<exists>es. x_events w' = x_events v @ es"
    by (auto simp: process_switch_def settle_Ack_def settle_Retry_def settle_RetryWithDelay_def settle_DLQ_def enqueue_msg_def
        call_transport_def log_events_def split_def Let_def split: Action.splits option.splits sum.splits if_splits)
  with ev show ?thesis by auto
qed

lemma processPayment_run:
  assumes "k \<le> 3"
  shows "processPayment (payments_after (pay_PaymentID pay) k) pay =
    (if k < 3 then \<lparr>r_Action = Retry, r_Delay = 0, r_Err = Some gateway_error\<rparr> else \<lparr>r_Action = Ack, r_Delay = 0, r_Err = None\<rparr>,
     payments_after (pay_PaymentID pay) (Suc k))"
proof -
  have "wrap64 (int k + 1) = int k + 1" using assms by (intro wrap64_id) (simp add: int64_def)
  then show ?thesis by (simp add: processPayment_def payments_after_def Let_def add.commute)
qed

text \<open>Four rounds on the payment: three nacks and an acknowledgement.\<close>

lemma payment_rounds:
  assumes "unmarshal (m_Payload payment_message) = Inr pay" and "rt_transport r = logged MemoryTransport" and "rt_idemFilter r = None"
    and "rt_handlers r = map_of (pl_handlers (retry_pipeline marshal unmarshal))" and "idle_world w [payment_message]"
    and "x_user w = payments_after (pay_PaymentID pay) 0"
  shows "\<exists>w'. memory_rounds 4 r now w = Inr w' \<and> idle_world w' [] \<and> x_user w' = payments_after (pay_PaymentID pay) 4 \<and>
    calls w' = calls w @ success_calls (1 * Second) payment_message 0 3"
proof -
  let ?s = "payments_after (pay_PaymentID pay)"
  let ?e = "\<lparr>e_fn = Wrap marshal unmarshal processPayment, e_maxRetries = 10, e_baseDelay = 1 * Second, e_coordinator = None\<rparr>"
  have e: "rt_handlers r (m_Topic payment_message) = Some ?e"
    by (simp add: assms(4) retry_pipeline_def builder_defs payment_message_def message_lit_def)
  have run: "e_fn ?e (?s k) (m_Payload payment_message) = (if k < 3 then \<lparr>r_Action = Retry, r_Delay = 0, r_Err = Some gateway_error\<rparr>
      else \<lparr>r_Action = Ack, r_Delay = 0, r_Err = None\<rparr>, ?s (Suc k))" if "k \<le> 3" for k
    using that by (simp add: processPayment_run Wrap_decoded[of unmarshal, OF assms(1)])
  have m: "m_NotBefore payment_message \<le> 0" "m_Attempts payment_message = int 0" by (simp_all add: payment_message_def message_lit_def)
  have "\<exists>w'. memory_rounds (Suc (3 - 0)) r now w = Inr w' \<and> idle_world w' [] \<and> x_user w' = ?s (Suc 3) \<and>
      calls w' = calls w @ success_calls (e_baseDelay ?e) payment_message 0 3"
    by (rule success_rounds[where hs = ?s and raw = "m_Payload payment_message" and result = "\<lambda>k. if k < 3
          then \<lparr>r_Action = Retry, r_Delay = 0, r_Err = Some gateway_error\<rparr> else \<lparr>r_Action = Ack, r_Delay = 0, r_Err = None\<rparr>",
          OF assms(2,3) e])
      (use run m assms(5,6) in \<open>simp_all add: duration_defs\<close>)
  moreover have "Suc (3 - 0) = 4" "Suc 3 = 4" by simp_all
  ultimately show ?thesis by simp
qed

lemma payment_calls:
  "success_calls (1 * Second) payment_message 0 3 = [CNack (payment_message\<lparr>m_Attempts := 1\<rparr>) (1 * Second),
     CNack (payment_message\<lparr>m_Attempts := 2\<rparr>) (2 * Second), CNack (payment_message\<lparr>m_Attempts := 3\<rparr>) (4 * Second),
     CAck [payment_message\<lparr>m_Attempts := 3\<rparr>]]"
  "payments_after ident 4 = \<lparr>attemptCount = 4, reported = [(1, ident, False), (2, ident, False), (3, ident, False), (4, ident, True)]\<rparr>"
  "payments_after ident 0 = \<lparr>attemptCount = 0, reported = []\<rparr>"
  by (simp_all add: success_calls_def retry_delay_def maxRetryDelay_def duration_defs payments_after_def upt_rec numeral_eq_Suc)

lemma retry_start:
  obtains r w pool where "Run_start conv (retry_pipeline marshal unmarshal) (mem_New, []) NewMemoryStore \<lparr>attemptCount = 0, reported = []\<rparr> =
      Inr (Inr (r, w, pool))" "idle_world w []" "calls w = []" "x_user w = \<lparr>attemptCount = 0, reported = []\<rparr>"
    "rt_transport r = logged MemoryTransport" "rt_idemFilter r = None"
    "rt_handlers r = map_of (pl_handlers (retry_pipeline marshal unmarshal))"
  by (rule run_start_idle[where p = "retry_pipeline marshal unmarshal" and conv = conv and s = NewMemoryStore and
        h = "\<lparr>attemptCount = 0, reported = []\<rparr>"]) (simp_all add: retry_pipeline_def builder_defs)

section \<open>Properties\<close>

text \<open>The retry program does what its comment says, except for the waiting: for every JSON decoder
  that decodes its payload, the handler runs four times, fails three times and then succeeds; the
  transport is told to redeliver after 1s, 2s and 4s with the attempts counted, and then gets one
  acknowledgement. (The in-memory transport ignores the delays: the four runs are four consecutive
  rounds.)\<close>

theorem retry_example_succeeds:
  assumes "unmarshal (m_Payload payment_message) = Inr pay"
  shows "\<exists>w'. run_main conv (retry_pipeline marshal unmarshal) \<lparr>attemptCount = 0, reported = []\<rparr> [([payment_message], now, 4)] = Inr (Inr w') \<and>
    idle_world w' [] \<and>
    x_user w' = \<lparr>attemptCount = 4, reported = [(1, pay_PaymentID pay, False), (2, pay_PaymentID pay, False),
      (3, pay_PaymentID pay, False), (4, pay_PaymentID pay, True)]\<rparr> \<and>
    calls w' = [CPublish payment_message, CNack (payment_message\<lparr>m_Attempts := 1\<rparr>) (1 * Second),
      CNack (payment_message\<lparr>m_Attempts := 2\<rparr>) (2 * Second), CNack (payment_message\<lparr>m_Attempts := 3\<rparr>) (4 * Second),
      CAck [payment_message\<lparr>m_Attempts := 3\<rparr>]]"
proof -
  obtain r w pool where start: "Run_start conv (retry_pipeline marshal unmarshal) (mem_New, []) NewMemoryStore \<lparr>attemptCount = 0, reported = []\<rparr> =
      Inr (Inr (r, w, pool))" "idle_world w []" "calls w = []" "x_user w = \<lparr>attemptCount = 0, reported = []\<rparr>"
    and r: "rt_transport r = logged MemoryTransport" "rt_idemFilter r = None" "rt_handlers r = map_of (pl_handlers (retry_pipeline marshal unmarshal))"
    by (rule retry_start)
  obtain w1 where w1: "publish_all r [payment_message] w = Inr w1" "idle_world w1 [payment_message]"
    "calls w1 = [CPublish payment_message]" "x_user w1 = payments_after (pay_PaymentID pay) 0"
    using publish_all_idle[OF r(1) start(2), of "[payment_message]"] start(3,4) by (auto simp: payment_calls(3))
  from payment_rounds[OF assms r w1(2,4), of now, unfolded payment_calls(1,2)] start(1) w1(1,3) show ?thesis
    by (auto simp: run_main_def)
qed

theorem retry_example_succeeds_witness:
  "\<exists>w'. run_main (\<lambda>_. 0) (retry_pipeline (\<lambda>_. Inr []) (\<lambda>raw. Inr \<lparr>pay_PaymentID = ''PAY-001'', pay_Amount = (9995 :: int)\<rparr>))
       \<lparr>attemptCount = 0, reported = []\<rparr> [([payment_message], at_second 0, 4)] = Inr (Inr w') \<and> attemptCount (x_user w') = 4"
  using retry_example_succeeds[of "\<lambda>raw. Inr \<lparr>pay_PaymentID = ''PAY-001'', pay_Amount = (9995 :: int)\<rparr>", OF HOL.refl,
      of "\<lambda>_. 0" "\<lambda>_. Inr []" "at_second 0"] by auto

text \<open>The idempotency program handles each order once: with its three messages published in turn, the
  second within an hour of the first and with its key, the handler runs on the first and the third,
  and all three are acknowledged.\<close>

theorem idempotent_example_once:
  assumes "unmarshal (order_payloads ! 0) = Inr o1" and "unmarshal (order_payloads ! 1) = Inr o2"
    and "mono t1 \<le> mono t2" and "mono t2 \<le> mono t3" and "mono t2 \<le> mono t1 + 1 * Hour"
  shows "\<exists>w'. run_main conv (idempotent_pipeline marshal unmarshal) [] (one_by_one (zip idempotent_messages [t1, t2, t3])) = Inr (Inr w') \<and>
    idle_world w' [] \<and> x_user w' = [(ord_OrderID o1, ord_Amount o1), (ord_OrderID o2, ord_Amount o2)] \<and>
    calls w' = concat (map (\<lambda>m. [CPublish m, CAck [m]]) idempotent_messages)"
proof -
  let ?p = "idempotent_pipeline marshal unmarshal" and ?ds = "zip idempotent_messages [t1, t2, t3]"
  let ?cfg = "\<lparr>ic_Store = Some MemoryIdemStore, ic_AttributeKey = ''IdempotencyKey'', ic_TTL = 1 * Hour\<rparr>"
  let ?e = "default_entry (Wrap marshal unmarshal processOrder)"
  note defs = idempotent_pipeline_def builder_defs default_entry_def idempotent_messages_def order_message_def message_lit_def
    and decoded = Wrap_decoded[of unmarshal, OF assms(1)] Wrap_decoded[of unmarshal, OF assms(2), simplified]
  have "pl_transport ?p = Some (logged MemoryTransport)" "sint (cfg_BufferSize (pl_config ?p)) \<le> 2 ^ 32"
    "pl_idemConf ?p = Some ?cfg" "ic_Store ?cfg = Some MemoryIdemStore" "pl_handlers ?p \<noteq> []" "e_coordinator ?e = None"
    by (simp_all add: defs)
  moreover have "\<forall>(msg, now) \<in> set ?ds. map_of (pl_handlers ?p) (m_Topic msg) = Some ?e \<and> m_NotBefore msg \<le> 0 \<and>
      (\<forall>h. r_Action (fst (e_fn ?e h (m_Payload msg))) = Ack)"
    by (simp add: defs processOrder_def decoded)
  moreover have "sorted_wrt (\<lambda>(_, s) (_, t). mono s \<le> mono t) ?ds" using assms(3,4) by (simp add: defs)
  ultimately have "\<exists>w'. run_main conv ?p [] (one_by_one ?ds) = Inr (Inr w') \<and> idle_world w' [] \<and>
      x_user w' = handled ?e (accepted (newIdemFilter ?cfg (h_OnDuplicate (pl_hooks ?p))) Map.empty ?ds) [] \<and>
      calls w' = concat (map (\<lambda>(msg, _). [CPublish msg, CAck [msg]]) ?ds)"
    by (rule run_main_filtered)
  moreover have "accepted (newIdemFilter ?cfg (h_OnDuplicate (pl_hooks ?p))) Map.empty ?ds =
      [idempotent_messages ! 0, idempotent_messages ! 2]"
    using assms(3-5) by (simp add: defs newIdemFilter_def is_dup_def live_def mark_key_def msg_key_def go_simps
        time_After_def time_Add_def)
  moreover have "handled ?e [idempotent_messages ! 0, idempotent_messages ! 2] [] =
      [(ord_OrderID o1, ord_Amount o1), (ord_OrderID o2, ord_Amount o2)]"
    by (simp add: defs handled_def processOrder_def decoded)
  ultimately show ?thesis by (auto simp: idempotent_messages_def)
qed

theorem idempotent_example_once_witness:
  "\<exists>w'. run_main (\<lambda>_. 0) (idempotent_pipeline (\<lambda>_. Inr []) (\<lambda>raw. Inr \<lparr>ord_OrderID = raw, ord_Amount = (1 :: int)\<rparr>)) []
       (one_by_one (zip idempotent_messages [at_second 0, at_second 1, at_second 2])) = Inr (Inr w') \<and>
     map fst (x_user w') = order_payloads"
proof -
  let ?u = "\<lambda>raw. Inr \<lparr>ord_OrderID = raw, ord_Amount = (1 :: int)\<rparr> :: go_error + int Order"
  have t: "mono (at_second 0) \<le> mono (at_second 1)" "mono (at_second 1) \<le> mono (at_second 2)"
    "mono (at_second 1) \<le> mono (at_second 0) + 1 * Hour" by (simp_all add: at_second_def duration_defs)
  from idempotent_example_once[of ?u, OF HOL.refl HOL.refl t, of "\<lambda>_. 0" "\<lambda>_. Inr []"] show ?thesis
    by (auto simp: order_payloads_def)
qed

text \<open>With \<open>SQS_QUEUE_URL\<close> set and \<open>SQS_DLQ_URL\<close> not, the SQS program has no dead-letter queue: each such send
  fails and the message is not acknowledged. The Pub/Sub program has the same gap: a topic of the
  environment without a subscription gets none.\<close>

lemma broker_examples_need_both:
  assumes "getenv ''SQS_QUEUE_URL'' \<noteq> ''''" and "getenv ''SQS_DLQ_URL'' = ''''"
    and "getenv ''PUBSUB_TOPIC_ID'' \<noteq> ''''" and "getenv ''PUBSUB_SUBSCRIPTION_ID'' = ''''"
  shows "sqs_SendToDLQ A (sqs_New (sqs_example_config getenv)) m = (Some NoDLQConfigured, sqs_New (sqs_example_config getenv))"
    and "pc_SubscriptionID (pubsub_example_config getenv) = ''''"
  using assms
  by (simp_all add: sqs_SendToDLQ_def sqs_New_def sqs_defaults_def sqs_example_config_def pubsub_example_config_def Let_def)

end
