(* ===== verification/Ring_Monitor.thy ===== *)
theory Ring_Monitor
  imports Ring_Buffer "HOL-Library.Sublist"
begin

text \<open>
  The ring buffer under concurrent callers. Every operation of \<open>src/ring/buffer.go\<close> runs
  under the mutex, so an execution is an interleaving of whole critical sections: one
  \<open>ring_step\<close> each, labelled with the call and its result. A goroutine blocked in
  \<open>Enqueue\<close> takes a further step when it wakes up (\<open>resume\<close>).

  Shown for every interleaving: the queue stays within its invariant and first-in
  first-out, no wake-up is lost (a goroutine sleeps on an open buffer only while the buffer
  is full or another goroutine has already been woken), \<open>Close\<close> releases every
  blocked goroutine, and what \<open>Len\<close> can return when it races with other calls.
\<close>

section \<open>Steps and runs\<close>

datatype 'a ring_event =
    EvEnqueue "'a iface" enq_result
  | EvResume "'a iface" enq_result
  | EvDequeue "'a iface" bool
  | EvDequeueBatch goint "'a iface list"
  | EvClose

inductive ring_step :: "'a buffer \<Rightarrow> 'a ring_event \<Rightarrow> 'a buffer \<Rightarrow> bool" where
  enqueue: "Enqueue b x = (r, b') \<Longrightarrow> ring_step b (EvEnqueue x r) b'"
| resume: "x \<in> set (woken (b_cond b)) \<Longrightarrow> Enqueue_resume b x = (r, b') \<Longrightarrow>
     ring_step b (EvResume x r) b'"
| dequeue: "Dequeue b = ((x, ok), b') \<Longrightarrow> ring_step b (EvDequeue x ok) b'"
| dequeue_batch: "DequeueBatch b n = (xs, b') \<Longrightarrow> ring_step b (EvDequeueBatch n xs) b'"
| close: "ring_step b EvClose (ring_Close b)"

inductive ring_run :: "'a buffer \<Rightarrow> 'a ring_event list \<Rightarrow> 'a buffer \<Rightarrow> bool" where
  nil: "ring_run b [] b"
| cons: "ring_step b e b1 \<Longrightarrow> ring_run b1 es b' \<Longrightarrow> ring_run b (e # es) b'"

inductive_simps ring_step_simps:
  "ring_step b (EvEnqueue x r) b'" "ring_step b (EvResume x r) b'"
  "ring_step b (EvDequeue x ok) b'" "ring_step b (EvDequeueBatch n xs) b'" "ring_step b EvClose b'"

inductive_cases ring_run_ConsE: "ring_run b (e # es) b'"

text \<open>Items a trace accepts (the call returned \<open>nil\<close>) and items it hands out.\<close>

fun accepted :: "'a ring_event list \<Rightarrow> 'a iface list" where
  "accepted [] = []"
| "accepted (EvEnqueue x r # es) = (if r = Returned None then x # accepted es else accepted es)"
| "accepted (EvResume x r # es) = (if r = Returned None then x # accepted es else accepted es)"
| "accepted (_ # es) = accepted es"

fun delivered :: "'a ring_event list \<Rightarrow> 'a iface list" where
  "delivered [] = []"
| "delivered (EvDequeue x ok # es) = (if ok then x # delivered es else delivered es)"
| "delivered (EvDequeueBatch n xs # es) = xs @ delivered es"
| "delivered (_ # es) = delivered es"

text \<open>
  The wake-up invariant: a closed buffer has no sleeper, and while somebody sleeps there
  are at least as many woken goroutines as free slots.
\<close>

definition wake_inv :: "'a buffer \<Rightarrow> bool" where
  "wake_inv b \<longleftrightarrow>
     (b_closed b \<longrightarrow> waiting (b_cond b) = []) \<and>
     (waiting (b_cond b) \<noteq> [] \<longrightarrow>
        ring_cap b \<le> length (contents b) + length (woken (b_cond b)))"

section \<open>The queue under any interleaving\<close>

lemma ring_step_inv [inv_intros]: "ring_step b e b' \<Longrightarrow> ring_inv b \<Longrightarrow> ring_inv b'"
  by (induction rule: ring_step.induct)
    (auto dest: Enqueue_correct Enqueue_resume_correct Dequeue_correct DequeueBatch_correct
      simp: ring_Close_correct)

lemma Dequeue_frame [frame_simps]:
  "b_policy (snd (Dequeue b)) = b_policy b" "b_closed (snd (Dequeue b)) = b_closed b"
  "ring_cap (snd (Dequeue b)) = ring_cap b"
  by (simp_all add: Dequeue_def ring_cap_def)

lemma ring_step_frame:
  assumes "ring_step b e b'"
  shows "b_policy b' = b_policy b \<and> ring_cap b' = ring_cap b"
  using assms
proof (induction rule: ring_step.induct)
  case (enqueue b x r b')
  then show ?case using Enqueue_frame[of b x] by simp
next
  case (resume x b r b')
  then show ?case using Enqueue_resume_frame[of b x] by simp
next
  case (dequeue b x ok b')
  then show ?case using Dequeue_frame[of b] by simp
next
  case (dequeue_batch b n xs b')
  then show ?case using DequeueBatch_frame[of b n] by simp
qed (simp add: ring_Close_correct)

lemma ring_run_inv: "ring_run b es b' \<Longrightarrow> ring_inv b \<Longrightarrow> ring_inv b'"
  by (induction rule: ring_run.induct) (auto intro: inv_intros)

text \<open>One step, seen from both ends of the queue.\<close>

lemma spec_enqueue_cases:
  assumes "(r, q') = spec_enqueue p c n q x" and "length q \<le> n" and "0 < n"
  shows "subseq q' (q @ (if r = Returned None then [x] else []))"
    and "p \<noteq> DropNewest \<Longrightarrow> p \<noteq> DropOldest \<Longrightarrow> q' = q @ (if r = Returned None then [x] else [])"
proof -
  have "subseq (tl q @ [x]) (q @ [x])" by (cases q) (auto intro: subseq_append' list_emb_Cons)
  with assms show "subseq q' (q @ (if r = Returned None then [x] else []))"
    by (cases c; cases p) (auto split: if_splits)
  show "p \<noteq> DropNewest \<Longrightarrow> p \<noteq> DropOldest \<Longrightarrow> q' = q @ (if r = Returned None then [x] else [])"
    using assms by (cases c; cases p) (auto split: if_splits)
qed

lemma accepted_Cons: "accepted (e # es) = accepted [e] @ accepted es"
  by (cases e) auto

lemma delivered_Cons: "delivered (e # es) = delivered [e] @ delivered es"
  by (cases e) auto

lemma ring_step_fifo:
  assumes "ring_step b e b'" and inv: "ring_inv b"
  shows "subseq (delivered [e] @ contents b') (contents b @ accepted [e]) \<and>
    (b_policy b \<noteq> DropNewest \<longrightarrow> b_policy b \<noteq> DropOldest \<longrightarrow>
       delivered [e] @ contents b' = contents b @ accepted [e])"
  using assms
proof (cases rule: ring_step.cases)
  case (enqueue x r)
  with Enqueue_correct[OF inv enqueue(2)] show ?thesis
    using spec_enqueue_cases[of r "contents b'" "b_policy b" "b_closed b" "ring_cap b" "contents b" x]
      ring_inv_length[OF inv] ring_cap_pos[OF inv] by (auto split: if_splits)
next
  case (resume x r)
  with Enqueue_resume_correct[OF inv resume(3)] show ?thesis
    using spec_enqueue_cases(2)[of r "contents b'" Block "b_closed b" "ring_cap b" "contents b" x]
      ring_inv_length[OF inv] ring_cap_pos[OF inv] by (auto split: if_splits)
next
  case (dequeue x ok)
  with Dequeue_correct[OF inv dequeue(2)] show ?thesis by (cases "contents b") auto
next
  case (dequeue_batch n xs)
  with DequeueBatch_correct[OF inv dequeue_batch(2)] show ?thesis by simp
next
  case close
  then show ?thesis by (simp add: ring_Close_correct)
qed

lemma ring_run_fifo:
  assumes "ring_run b es b'" and "ring_inv b"
  shows "subseq (delivered es @ contents b') (contents b @ accepted es) \<and>
    (b_policy b \<noteq> DropNewest \<longrightarrow> b_policy b \<noteq> DropOldest \<longrightarrow>
       delivered es @ contents b' = contents b @ accepted es)"
  using assms
proof (induction rule: ring_run.induct)
  case (cons b e b1 es b')
  note st = ring_step_fifo[OF cons.hyps(1) cons.prems]
  have pol: "b_policy b1 = b_policy b" using ring_step_frame[OF cons.hyps(1)] by simp
  note IH = cons.IH[OF ring_step_inv[OF cons.hyps(1) cons.prems]]
  have "subseq (delivered [e] @ delivered es @ contents b') (delivered [e] @ contents b1 @ accepted es)"
    using IH by (blast intro: list_emb_append_mono subseq_order.refl)
  also have "subseq \<dots> (contents b @ accepted [e] @ accepted es)"
    using st list_emb_append_mono[of "(=)" _ _ "accepted es" "accepted es"]
    by (metis append.assoc subseq_order.refl)
  finally have "subseq (delivered (e # es) @ contents b') (contents b @ accepted (e # es))"
    by (simp add: accepted_Cons[of e es] delivered_Cons[of e es])
  moreover have "delivered (e # es) @ contents b' = contents b @ accepted (e # es)"
    if "b_policy b \<noteq> DropNewest" "b_policy b \<noteq> DropOldest"
    using st IH that pol
    by (simp add: accepted_Cons[of e es] delivered_Cons[of e es])
  ultimately show ?case by blast
qed simp

section \<open>No wake-up is lost\<close>

lemma cond_Signal_waiting: "waiting (cond_Signal c) = tl (waiting c)"
  by (cases "waiting c") (simp_all add: cond_Signal_def)

lemma cond_Signal_woken:
  "length (woken (cond_Signal c)) = length (woken c) + (if waiting c = [] then 0 else 1)"
  by (cases "waiting c") (simp_all add: cond_Signal_def)

lemmas cond_facts = cond_Signal_waiting cond_Signal_woken cond_Wait_def cond_Broadcast_def cond_Resume_def

lemma wake_inv_put:
  assumes inv: "ring_inv b" and free: "unat (b_count b) < ring_cap b" and "\<not> b_closed b"
    and "waiting (b_cond b) \<noteq> [] \<Longrightarrow> ring_cap b \<le> length (contents b) + length (woken (b_cond b)) + 1"
  shows "wake_inv (ring_put b x)"
  using assms ring_put_correct(2)[OF inv free, of x]
  by (auto simp: wake_inv_def cond_facts dest: list.set_sel(2))

lemma wake_inv_loop:
  assumes inv: "ring_inv b" and loop: "Enqueue_loop b x = (r, b')"
    and "b_closed b \<Longrightarrow> waiting (b_cond b) = []"
    and "waiting (b_cond b) \<noteq> [] \<Longrightarrow> ring_cap b \<le> length (contents b) + length (woken (b_cond b)) + 1"
  shows "wake_inv b'"
proof (cases "b_closed b")
  case True
  with assms show ?thesis by (simp add: Enqueue_loop_def wake_inv_def)
next
  case open_: False
  show ?thesis
  proof (cases "b_count b = b_capacity b")
    case True
    then have "b' = b\<lparr>b_cond := cond_Wait (b_cond b) x\<rparr>"
      using loop open_ by (auto simp: Enqueue_loop_def)
    with True open_ show ?thesis
      by (simp add: wake_inv_def cond_facts ring_cap_def)
  next
    case False
    then have "unat (b_count b) < ring_cap b"
      using count_capacity_cmp(2)[OF inv] ring_inv_length[OF inv] by simp
    moreover have "b' = ring_put b x" using False open_ loop by (auto simp: Enqueue_loop_def)
    ultimately show ?thesis using wake_inv_put[OF inv] open_ assms(4) by blast
  qed
qed

lemma wake_inv_Enqueue:
  assumes "Enqueue b x = (r, b')" and inv: "ring_inv b" and wake: "wake_inv b"
  shows "wake_inv b'"
proof (cases "\<not> b_closed b \<and> b_policy b = Block \<and> \<not> sint (b_count b) < sint (b_capacity b)")
  case True
  then have "Enqueue_loop b x = (r, b')" using assms(1) by (auto simp: Enqueue_def)
  from wake_inv_loop[OF inv this] wake show ?thesis by (auto simp: wake_inv_def)
next
  case False
  then consider "b' = b" | "b' = ring_put b x" "unat (b_count b) < ring_cap b" "\<not> b_closed b"
    | "b_policy b = DropOldest" "\<not> b_closed b" "\<not> unat (b_count b) < ring_cap b"
    using assms(1) count_capacity_cmp(1)[OF inv]
    by (auto simp: Enqueue_def split: if_splits OverflowPolicy.splits)
  then show ?thesis
  proof cases
    case 2
    then show ?thesis using wake_inv_put[OF inv] wake by (auto simp: wake_inv_def)
  next
    case 3
    have "length (contents b') = length (contents b)" "b_cond b' = cond_Signal (b_cond b)"
      "ring_cap b' = ring_cap b" "\<not> b_closed b'"
      using 3 assms(1) count_capacity_cmp(1)[OF inv] by (auto simp: Enqueue_def ring_cap_def)
    with 3 show ?thesis by (simp add: wake_inv_def)
  qed (use wake in simp)
qed

lemma wake_inv_resume:
  assumes "x \<in> set (woken (b_cond b))" and "Enqueue_resume b x = (r, b')" and inv: "ring_inv b" and wake: "wake_inv b"
  shows "wake_inv b'"
proof -
  let ?b = "b\<lparr>b_cond := cond_Resume (b_cond b) x\<rparr>"
  have "0 < length (woken (b_cond b))" using assms(1) by (auto dest: length_pos_if_in_set)
  then have len: "length (woken (b_cond ?b)) + 1 = length (woken (b_cond b))"
    using assms(1) by (simp add: cond_Resume_def length_remove1)
  have loop: "Enqueue_loop ?b x = (r, b')" using assms(2) by (simp add: Enqueue_resume_def)
  have w: "waiting (b_cond ?b) = waiting (b_cond b)" by (simp add: cond_Resume_def)
  show ?thesis
    by (rule wake_inv_loop[OF _ loop]) (use wake len inv w in \<open>auto simp: wake_inv_def\<close>)
qed

lemma wake_inv_Dequeue:
  assumes "Dequeue b = ((x, ok), b')" and inv: "ring_inv b" and wake: "wake_inv b"
  shows "wake_inv b'"
proof (cases "b_count b = 0")
  case True
  then show ?thesis using assms(1) wake by (simp add: Dequeue_def)
next
  case False
  then have "b_cond b' = cond_Signal (b_cond b)" "b_closed b' = b_closed b" "ring_cap b' = ring_cap b"
    using assms(1) by (auto simp: Dequeue_def ring_cap_def)
  moreover have "length (contents b) \<le> Suc (length (contents b'))"
    using Dequeue_correct[OF inv assms(1)] by simp
  ultimately show ?thesis
    using wake by (cases "waiting (b_cond b)") (auto simp: wake_inv_def cond_Signal_def)
qed

lemma wake_inv_step [inv_intros]:
  assumes "ring_step b e b'" and inv: "ring_inv b" and wake: "wake_inv b"
  shows "wake_inv b'"
  using assms(1)
proof (cases rule: ring_step.cases)
  case (dequeue_batch n xs)
  then have "b' = b \<or> b_cond b' = cond_Broadcast (b_cond b)"
    by (auto simp: DequeueBatch_def Let_def split: if_splits prod.splits)
  then show ?thesis using wake by (auto simp: wake_inv_def cond_Broadcast_def)
next
  case close
  then show ?thesis by (simp add: wake_inv_def ring_Close_def cond_Broadcast_def)
qed (rule wake_inv_Enqueue[OF _ inv wake] wake_inv_resume[OF _ _ inv wake] wake_inv_Dequeue[OF _ inv wake], assumption+)+

lemma wake_inv_run: "ring_run b es b' \<Longrightarrow> ring_inv b \<Longrightarrow> wake_inv b \<Longrightarrow> wake_inv b'"
  by (induction rule: ring_run.induct) (auto intro: inv_intros)

lemma wake_inv_New: "b_cond b = cond_New \<Longrightarrow> wake_inv b"
  by (simp add: wake_inv_def cond_New_def)

section \<open>Close\<close>

text \<open>Let every woken goroutine run once, in order.\<close>

fun resume_all :: "'a buffer \<Rightarrow> 'a iface list \<Rightarrow> enq_result list \<times> 'a buffer" where
  "resume_all b [] = ([], b)"
| "resume_all b (x # xs) =
     (let (r, b1) = Enqueue_resume b x; (rs, b2) = resume_all b1 xs in (r # rs, b2))"

lemma resume_closed:
  assumes "b_closed b"
  shows "Enqueue_resume b x = (Returned (Some ErrBufferFull), b\<lparr>b_cond := cond_Resume (b_cond b) x\<rparr>)"
  using assms by (simp add: Enqueue_resume_def Enqueue_loop_def)

lemma resume_all_closed:
  assumes "b_closed b" and "woken (b_cond b) = xs @ ys"
  shows "resume_all b xs = (replicate (length xs) (Returned (Some ErrBufferFull)),
    b\<lparr>b_cond := (b_cond b)\<lparr>woken := ys\<rparr>\<rparr>)"
  using assms
proof (induction xs arbitrary: b)
  case (Cons x xs)
  let ?b = "b\<lparr>b_cond := cond_Resume (b_cond b) x\<rparr>"
  have "woken (b_cond ?b) = xs @ ys" using Cons.prems(2) by (simp add: cond_Resume_def)
  moreover have "b_closed ?b" using Cons.prems(1) by simp
  ultimately show ?case
    using Cons.IH[of ?b] Cons.prems by (simp add: resume_closed cond_Resume_def)
qed simp

section \<open>Len without the lock\<close>

text \<open>Between the two loads of \<open>Len\<close> other goroutines run and move the tail.\<close>

lemma DequeueBatch_loop_tail:
  "b_tail (snd (DequeueBatch_loop m b)) = b_tail b + of_nat m"
  "length (fst (DequeueBatch_loop m b)) = m"
  by (induction m arbitrary: b) (simp_all add: Let_def split_def)

lemma ring_step_tail:
  assumes "ring_step b e b'" and "b_policy b \<noteq> DropOldest"
  shows "b_tail b' = b_tail b + of_nat (length (delivered [e]))"
  using assms(1)
proof (cases rule: ring_step.cases)
  case (enqueue x r)
  with assms(2) show ?thesis
    by (auto simp: Enqueue_def Enqueue_loop_def split: if_splits OverflowPolicy.splits)
next
  case (resume x r)
  then show ?thesis by (auto simp: Enqueue_resume_def Enqueue_loop_def split: if_splits)
next
  case (dequeue x ok)
  then show ?thesis by (auto simp: Dequeue_def split: if_splits)
next
  case (dequeue_batch n xs)
  then show ?thesis
    by (auto simp: DequeueBatch_def Let_def split_def DequeueBatch_loop_tail split: if_splits)
next
  case close
  then show ?thesis by (simp add: ring_Close_def)
qed

lemma ring_run_tail:
  assumes "ring_run b es b'" and "b_policy b \<noteq> DropOldest"
  shows "b_tail b' = b_tail b + of_nat (length (delivered es))"
  using assms
proof (induction rule: ring_run.induct)
  case (cons b e b1 es b')
  from ring_step_tail[OF cons.hyps(1) cons.prems] ring_step_frame[OF cons.hyps(1)]
    cons.IH cons.prems
  show ?case by (simp add: delivered_Cons[of e es])
qed simp

section \<open>A sample run\<close>

text \<open>A one-slot \<open>Block\<close> buffer takes an item and hands it out again.\<close>

lemma sample_run:
  obtains b b' :: "nat buffer" where "ring_New 1 Block = Inr b"
    and "ring_run b [EvEnqueue (Some 7) (Returned None), EvDequeue (Some 7) True] b'"
proof -
  obtain b :: "nat buffer" where b: "ring_New 1 Block = Inr b"
    by (simp add: ring_New_def nextPowerOfTwo_def Let_def)
  then have e: "Enqueue b (Some 7) = (Returned None, ring_put b (Some 7))"
    by (auto simp: Enqueue_def ring_New_def nextPowerOfTwo_def Let_def)
  have "fst (Dequeue (ring_put b (Some 7))) = (Some 7, True)"
    using b by (auto simp: Dequeue_def ring_put_def slot_of_def ring_New_def nextPowerOfTwo_def Let_def)
  then obtain b' where d: "Dequeue (ring_put b (Some 7)) = ((Some 7, True), b')"
    by (metis prod.collapse)
  have "ring_run b [EvEnqueue (Some 7) (Returned None), EvDequeue (Some 7) True] b'"
    using e d by (auto intro!: ring_run.intros ring_step.intros)
  with b that show thesis by blast
qed

text \<open>The same buffer, with a second producer blocked.\<close>

lemma sample_blocked:
  obtains b b' :: "nat buffer" where "ring_New 1 Block = Inr b"
    and "ring_run b [EvEnqueue (Some 1) (Returned None), EvEnqueue (Some 2) Waiting] b'"
    and "waiting (b_cond b') = [Some 2]" "woken (b_cond b') = []"
proof -
  obtain b :: "nat buffer" where b: "ring_New 1 Block = Inr b"
    by (simp add: ring_New_def nextPowerOfTwo_def Let_def)
  then have e: "Enqueue b (Some 1) = (Returned None, ring_put b (Some 1))"
    and f: "fst (Enqueue (ring_put b (Some 1)) (Some 2)) = Waiting"
    and w: "waiting (b_cond (snd (Enqueue (ring_put b (Some 1)) (Some 2)))) = [Some 2]"
      "woken (b_cond (snd (Enqueue (ring_put b (Some 1)) (Some 2)))) = []"
    by (auto simp: Enqueue_def Enqueue_loop_def ring_New_def nextPowerOfTwo_def Let_def cond_defs)
  obtain b' where b': "Enqueue (ring_put b (Some 1)) (Some 2) = (Waiting, b')"
    using f by (metis prod.collapse)
  have "ring_run b [EvEnqueue (Some 1) (Returned None), EvEnqueue (Some 2) Waiting] b'"
    using e b' by (auto intro!: ring_run.intros ring_step.intros)
  with b b' w that show thesis by auto
qed

section \<open>Properties\<close>

text \<open>C20. First in, first out under any interleaving of producers, blocked producers waking up,
  consumers and \<open>Close\<close>: on a buffer made by \<open>New\<close> the items handed out followed by the
  items still queued are the accepted items in their order of acceptance, exactly so for the
  policies that do not drop, and with some items left out for the two that do.\<close>

theorem ring_concurrent_fifo:
  assumes "ring_New c p = Inr b" and "sint c \<le> 2 ^ 32" and "ring_run b es b'"
  shows "subseq (delivered es @ contents b') (accepted es) \<and>
    (p \<noteq> DropNewest \<longrightarrow> p \<noteq> DropOldest \<longrightarrow> delivered es @ contents b' = accepted es)"
  using ring_run_fifo[OF assms(3)] ring_New_Inr[OF assms(1,2)] by simp

theorem ring_concurrent_fifo_witness:
  "\<exists>b b'. ring_New 1 Block = Inr b \<and>
     ring_run b [EvEnqueue (Some (7::nat)) (Returned None), EvDequeue (Some 7) True] b' \<and>
     contents b' = []"
proof -
  obtain b b' :: "nat buffer" where s: "ring_New 1 Block = Inr b"
    "ring_run b [EvEnqueue (Some 7) (Returned None), EvDequeue (Some 7) True] b'"
    by (rule sample_run)
  from ring_concurrent_fifo[OF s(1) _ s(2)] s show ?thesis by auto
qed

text \<open>C15. No lost wake-up: in every state a buffer made by \<open>New\<close> can reach, if some goroutine
  sleeps in \<open>Enqueue\<close> then the buffer is open and at least as many sleepers have been woken
  as there are free slots; when none has been woken the buffer is full.\<close>

theorem no_lost_wakeup:
  assumes "ring_New c p = Inr b" and "sint c \<le> 2 ^ 32" and "ring_run b es b'"
    and "waiting (b_cond b') \<noteq> []"
  shows "\<not> b_closed b' \<and>
    ring_cap b' - length (contents b') \<le> length (woken (b_cond b')) \<and>
    (woken (b_cond b') = [] \<longrightarrow> length (contents b') = ring_cap b')"
proof -
  note n = ring_New_Inr[OF assms(1,2)]
  have "wake_inv b'" using wake_inv_run[OF assms(3) n(1) wake_inv_New[OF n(5)]] .
  moreover have "length (contents b') \<le> ring_cap b'"
    using ring_inv_length[OF ring_run_inv[OF assms(3) n(1)]] .
  ultimately show ?thesis using assms(4) by (auto simp: wake_inv_def)
qed

theorem no_lost_wakeup_witness:
  "\<exists>b b'. ring_New 1 Block = Inr b \<and>
     ring_run b [EvEnqueue (Some (1::nat)) (Returned None), EvEnqueue (Some 2) Waiting] b' \<and>
     length (contents b') = ring_cap b'"
proof -
  obtain b b' :: "nat buffer" where s: "ring_New 1 Block = Inr b"
    "ring_run b [EvEnqueue (Some 1) (Returned None), EvEnqueue (Some 2) Waiting] b'"
    "waiting (b_cond b') = [Some 2]" "woken (b_cond b') = []"
    by (rule sample_blocked)
  from no_lost_wakeup[OF s(1) _ s(2)] s show ?thesis by auto
qed

text \<open>\<open>Close\<close> releases every blocked producer: afterwards all of them are woken, each of
  them returns \<open>ErrBufferFull\<close> when it runs, and the queued items stay as they were, still
  there to be dequeued.\<close>

theorem close_releases_blocked:
  "\<exists>b'. resume_all (ring_Close b) (woken (b_cond b) @ waiting (b_cond b)) =
      (replicate (length (woken (b_cond b) @ waiting (b_cond b))) (Returned (Some ErrBufferFull)), b') \<and>
    contents b' = contents b \<and> waiting (b_cond b') = [] \<and> woken (b_cond b') = []"
proof -
  have w: "woken (b_cond (ring_Close b)) = (woken (b_cond b) @ waiting (b_cond b)) @ []"
    by (simp add: ring_Close_def cond_Broadcast_def)
  have c: "b_closed (ring_Close b)" by (rule ring_Close_correct)
  have "waiting (b_cond (ring_Close b)) = []" by (simp add: ring_Close_def cond_Broadcast_def)
  then show ?thesis
    using resume_all_closed[OF c w] ring_Close_correct(2)[of b] by (simp del: length_append)
qed

text \<open>\<open>Len\<close> takes no lock: called while nothing else runs it is the number of queued
  items; when other goroutines run between its two loads it is the number queued at the first
  load minus the items handed out in between, so it can even be negative.\<close>

theorem len_race:
  assumes "ring_inv b" and "ring_run b es b'" and "b_policy b \<noteq> DropOldest"
  shows "Len_loads b b' = of_nat (length (contents b)) - of_nat (length (delivered es))"
  using ring_run_tail[OF assms(2,3)] ring_run_inv[OF assms(2,1)] assms(1)
  by (simp add: Len_loads_def ring_inv_def)

theorem len_race_witness:
  "\<exists>b b'. ring_New 1 Block = Inr b \<and>
     ring_run b [EvEnqueue (Some (7::nat)) (Returned None), EvDequeue (Some 7) True] b' \<and>
     sint (Len_loads b b') = - 1"
proof -
  obtain b b' :: "nat buffer" where s: "ring_New 1 Block = Inr b"
    "ring_run b [EvEnqueue (Some 7) (Returned None), EvDequeue (Some 7) True] b'"
    by (rule sample_run)
  note n = ring_New_Inr[OF s(1)]
  have "Len_loads b b' = - 1" using len_race[OF _ s(2)] n by simp
  with s show ?thesis by auto
qed

end
