(* ===== verification/System_Ring.thy ===== *)
theory System_Ring
  imports System_Runs Ring_Monitor
begin

text \<open>
  How the goroutines of \<open>Run\<close> share the ring: every step of the transition system of \<open>System\<close> makes
  at most one operation of the ring (a \<open>ring_step\<close> of \<open>Ring_Monitor\<close>), so what that theory shows of
  interleaved operations holds inside the pipeline. Whoever is parked at the ring is a call of
  the consumer, the timer or a worker parked in \<open>Enqueue\<close> with its message, and no wake-up is lost.
\<close>

section \<open>Parked goroutines\<close>

text \<open>The messages goroutines are parked with in \<open>Enqueue\<close>.\<close>

fun feed_parked :: "feed_pc \<Rightarrow> Message list" where
  "feed_parked (FParked m ms) = [m]"
| "feed_parked _ = []"

fun job_parked :: "'h job \<Rightarrow> Message list" where
  "job_parked (JParked m) = [m]"
| "job_parked (Job task) = []"

definition parked_msgs :: "('t, 's, 'h) sys \<Rightarrow> Message multiset" where
  "parked_msgs z = mset (concat (map feed_parked (z_polls z))) + mset (feed_parked (z_timer z)) +
     sum_mset (image_mset (\<lambda>job. mset (job_parked job)) (jobs (z_pool z)))"

text \<open>Who is parked at the ring is a goroutine parked in \<open>Enqueue\<close>, with its message.\<close>

definition park_inv :: "('t, 's, 'h) sys \<Rightarrow> bool" where
  "park_inv z \<longleftrightarrow> parked (x_ring (z_world z)) = image_mset Some (parked_msgs z) \<and> wake_inv (x_ring (z_world z))"

text \<open>What a call parks with.\<close>

fun blocked_msg :: "proc_result \<Rightarrow> Message multiset" where
  "blocked_msg Finished = {#}"
| "blocked_msg (Blocked m) = {#m#}"

section \<open>The ring inside the pipeline\<close>

lemma enqueue_msg_step:
  assumes "enqueue_msg m w = (res, w')"
  shows "\<exists>e. ring_step (x_ring w) e (x_ring w')"
proof -
  obtain e b where e: "Enqueue (x_ring w) (Some m) = (e, b)" by fastforce
  then have "x_ring w' = b" using assms by (auto simp: enqueue_msg_def split: enq_result.splits)
  then show ?thesis using ring_step.enqueue[OF e] by blast
qed

lemma poll_one_step:
  assumes "poll_one r now m w = Inr (res, w')"
  shows "x_ring w' = x_ring w \<or> (\<exists>e. ring_step (x_ring w) e (x_ring w'))"
proof (cases "m_NotBefore m > 0")
  case True
  then show ?thesis using assms by (auto simp: poll_one_def Let_def frame_simps split: sum.splits)
next
  case False
  let ?w = "log_events (fire (h_OnDispatch (rt_hooks r)) (OnDispatch (m_Topic m))) w"
  have "enqueue_msg m ?w = (res, w')" using assms False by (simp add: poll_one_def Let_def)
  from enqueue_msg_step[OF this] show ?thesis by (simp add: frame_simps)
qed

lemma run_task_step:
  assumes "run_task r now task w = Inr (res, w')"
  shows "x_ring w' = x_ring w \<or> (\<exists>e. ring_step (x_ring w) e (x_ring w'))"
proof (cases task)
  case (Process msg entry)
  let ?o = "outcome_of r (x_user w) msg entry"
  obtain w1 where w1: "x_ring w1 = x_ring w"
    and p: "processMessage r now msg entry w = process_switch r now msg ?o w1"
    by (rule processMessage_switch)
  have sw: "process_switch r now msg ?o w1 = Inr (res, w')" using assms Process p by simp
  show ?thesis
  proof (cases "o_Action ?o = Retry")
    case True
    from enqueue_msg_step[OF process_switch_ring[OF sw, simplified True, simplified]] w1 show ?thesis
      by (simp add: frame_simps)
  next
    case False
    then show ?thesis using process_switch_ring[OF sw] w1 by simp
  qed
next
  case (Unknown msg)
  then have "w' = handleUnknownTopic r msg w" using assms by simp
  then show ?thesis
    by (simp add: handleUnknownTopic_def settle_DLQ_def split_def Let_def frame_simps split: option.split)
qed

lemma ring_resume_step:
  assumes "ring_resume m w = Some (e, w')"
  shows "\<exists>ev. ring_step (x_ring w) ev (x_ring w')"
proof -
  obtain b where "Enqueue_resume (x_ring w) (Some m) = (e, b)" "w' = w\<lparr>x_ring := b\<rparr>" "Some m \<in> set (woken (b_cond (x_ring w)))"
    using assms by (auto simp: ring_resume_def split: if_splits prod.splits)
  then show ?thesis using ring_step.resume[of "Some m" "x_ring w" e b] by auto
qed

lemma shutdown_drain_ring: "shutdown_drain order w = (res, w') \<Longrightarrow> x_ring w' = ring_Close (x_ring w)"
  by (auto simp: shutdown_drain_def wheel_Drain_def ring_Close_def timer_batch_closed)

text \<open>Every step of the pipeline makes at most one operation of the ring.\<close>

lemma ring_work:
  assumes "work_step r z z'"
  shows "x_ring (z_world z') = x_ring (z_world z) \<or>
    (\<exists>e. ring_step (x_ring (z_world z)) e (x_ring (z_world z')))"
  using assms(1)
proof (cases rule: work_step.cases)
  case (work_run i task now w pool)
  with run_task_step[OF work_run(4)] show ?thesis by simp
next
  case (work_park i task now m w)
  with run_task_step[OF work_park(4)] show ?thesis by simp
next
  case (work_sleep i m w)
  with ring_resume_step[OF work_sleep(4)] show ?thesis by simp
next
  case (work_resume i m err w pool)
  with ring_resume_step[OF work_resume(4)] show ?thesis by simp
qed (auto simp: frame_simps dest: ring_step.dequeue_batch)

lemma sys_ring_step:
  assumes "sys_step r z z'"
  shows "x_ring (z_world z') = x_ring (z_world z) \<or>
    (\<exists>e. ring_step (x_ring (z_world z)) e (x_ring (z_world z')))"
  using assms(1)
proof (cases rule: sys_step.cases)
  case poll
  then show ?thesis
  proof (cases rule: poll_step.cases)
    case (poll_message j m ms now res w)
    with poll_one_step[OF poll_message(4)] show ?thesis by simp
  next
    case (poll_resume j m ms e w)
    with ring_resume_step[OF poll_resume(4)] show ?thesis by simp
  qed (auto simp: frame_simps dest: ring_step.dequeue_batch)
next
  case timer
  then show ?thesis
  proof (cases rule: timer_step.cases)
    case (timer_message m ms res w)
    with enqueue_msg_step[OF timer_message(3)] show ?thesis by simp
  next
    case (timer_resume m ms e w)
    with ring_resume_step[OF timer_resume(3)] show ?thesis by simp
  qed (auto simp: frame_simps dest: ring_step.dequeue_batch)
next
  case disp
  then show ?thesis
  proof (cases rule: disp_step.cases)
    case (disp_batch drain batch b now tasks w)
    with dispatchBatch_ids(1)[OF disp_batch(5)] show ?thesis by (auto dest: ring_step.dequeue_batch)
  qed (auto simp: frame_simps dest: ring_step.dequeue_batch)
next
  case work
  then show ?thesis by (rule ring_work)
next
  case main
  then show ?thesis
  proof (cases rule: main_step.cases)
    case (main_pool order w w')
    then have "x_ring (z_world z') = ring_Close (x_ring (z_world z))"
      using shutdown_drain_ring[OF main_pool(5)] by (auto split: option.splits)
    then show ?thesis using ring_step.close by metis
  qed (auto simp: frame_simps dest: ring_step.dequeue_batch)
qed (auto simp: frame_simps dest: ring_step.dequeue_batch)

lemma ring_run_append: "ring_run b es b1 \<Longrightarrow> ring_run b1 fs b2 \<Longrightarrow> ring_run b (es @ fs) b2"
  by (induction rule: ring_run.induct) (auto intro: ring_run.cons)

lemma sys_ring_run: "sys_run r z z' \<Longrightarrow> \<exists>es. ring_run (x_ring (z_world z)) es (x_ring (z_world z'))"
proof (induction rule: sys_run.induct)
  case (refl z)
  show ?case by (blast intro: ring_run.nil)
next
  case (step z z' z'')
  then obtain es where es: "ring_run (x_ring (z_world z)) es (x_ring (z_world z'))" by blast
  from sys_ring_step[OF step(2)] show ?case
  proof
    assume "\<exists>e. ring_step (x_ring (z_world z')) e (x_ring (z_world z''))"
    then obtain e where "ring_run (x_ring (z_world z')) [e] (x_ring (z_world z''))"
      by (blast intro: ring_run.intros)
    from ring_run_append[OF es this] show ?thesis by blast
  qed (use es in auto)
qed

section \<open>Who is parked\<close>

lemma enqueue_msg_parked:
  assumes "enqueue_msg m w = (res, w')"
  shows "parked (x_ring w') = parked (x_ring w) + image_mset Some (blocked_msg res)" and "res \<in> {Finished, Blocked m}"
proof -
  obtain e b where e: "Enqueue (x_ring w) (Some m) = (e, b)" by fastforce
  with Enqueue_parked[of "x_ring w" "Some m"] assms
  show "parked (x_ring w') = parked (x_ring w) + image_mset Some (blocked_msg res)" and "res \<in> {Finished, Blocked m}"
    by (auto simp: enqueue_msg_def split: enq_result.splits)
qed

lemma poll_one_parked:
  assumes "poll_one r now m w = Inr (res, w')"
  shows "parked (x_ring w') = parked (x_ring w) + image_mset Some (blocked_msg res) \<and> res \<in> {Finished, Blocked m}"
proof (cases "m_NotBefore m > 0")
  case True
  then show ?thesis using assms by (auto simp: poll_one_def Let_def frame_simps split: sum.splits)
next
  case False
  let ?w = "log_events (fire (h_OnDispatch (rt_hooks r)) (OnDispatch (m_Topic m))) w"
  have "enqueue_msg m ?w = (res, w')" using assms False by (simp add: poll_one_def Let_def)
  from enqueue_msg_parked[OF this] show ?thesis by (simp add: frame_simps)
qed

lemma run_task_parked:
  assumes "run_task r now task w = Inr (res, w')"
  shows "parked (x_ring w') = parked (x_ring w) + image_mset Some (blocked_msg res)"
proof (cases task)
  case (Process msg entry)
  let ?o = "outcome_of r (x_user w) msg entry"
  obtain w1 where w1: "x_ring w1 = x_ring w"
    and p: "processMessage r now msg entry w = process_switch r now msg ?o w1"
    by (rule processMessage_switch)
  have sw: "process_switch r now msg ?o w1 = Inr (res, w')" using assms Process p by simp
  show ?thesis
  proof (cases "o_Action ?o = Retry")
    case True
    from enqueue_msg_parked(1)[OF process_switch_ring[OF sw, simplified True, simplified]] w1 show ?thesis
      by (simp add: frame_simps)
  next
    case False
    then show ?thesis using process_switch_ring[OF sw] w1 by simp
  qed
next
  case (Unknown msg)
  then show ?thesis using assms
    by (auto simp: handleUnknownTopic_def settle_DLQ_def split_def Let_def frame_simps split: option.split)
qed

lemma ring_resume_parked:
  assumes "ring_resume m w = Some (e, w')"
  shows "add_mset (Some m) (parked (x_ring w')) = parked (x_ring w) + (if e = Waiting then {#Some m#} else {#})"
  using assms Enqueue_resume_parked[of "Some m" "x_ring w"]
  by (auto simp: ring_resume_def split: if_splits prod.splits)

lemma feed_parked_simps [simp]:
  "mset (feed_parked (after_enqueue res m ms)) = (if res = Finished then {#} else {#m#})"
  "feed_parked (after_resume e m ms) = (if e = Waiting then [m] else [])"
  by (cases res, simp_all) (cases e, simp_all)

lemma polls_parked_update:
  assumes "j < length ps"
  shows "mset (concat (map feed_parked (ps[j := q]))) + mset (feed_parked (ps ! j)) =
    mset (concat (map feed_parked ps)) + mset (feed_parked q)"
  by (rule concat_update_swap[OF assms])

lemma parked_poll:
  assumes "poll_step r z z'" and pk: "parked (x_ring (z_world z)) = image_mset Some (parked_msgs z)"
  shows "parked (x_ring (z_world z')) = image_mset Some (parked_msgs z')"
  using assms(1)
proof (cases rule: poll_step.cases)
  case (poll_receive j msgs t)
  with pk polls_parked_update[OF poll_receive(2), of "FRunning msgs"] show ?thesis
    by (simp add: parked_msgs_def frame_simps)
next
  case (poll_message j m ms now res w)
  with pk polls_parked_update[OF poll_message(2), of "after_enqueue res m ms"] poll_one_parked[OF poll_message(4)]
  show ?thesis by (auto simp: parked_msgs_def)
next
  case (poll_resume j m ms e w)
  then have "add_mset (Some m) (parked (x_ring w)) = add_mset (Some m) (image_mset Some (parked_msgs z'))"
    using pk polls_parked_update[OF poll_resume(2), of "after_resume e m ms", symmetric] ring_resume_parked[OF poll_resume(4)]
    by (auto simp: parked_msgs_def split: if_splits)
  then show ?thesis using poll_resume(1) by simp
next
  case (poll_next j)
  with pk polls_parked_update[OF poll_next(2), of FIdle] show ?thesis by (simp add: parked_msgs_def)
next
  case (poll_return err)
  then have "concat (map feed_parked (z_polls z)) = []" by auto
  with pk poll_return show ?thesis by (simp add: parked_msgs_def comp_def)
qed

lemma parked_timer:
  assumes "timer_step r z z'" and pk: "parked (x_ring (z_world z)) = image_mset Some (parked_msgs z)"
  shows "parked (x_ring (z_world z')) = image_mset Some (parked_msgs z')"
  using assms(1)
proof (cases rule: timer_step.cases)
  case (timer_message m ms res w)
  with pk enqueue_msg_parked[OF timer_message(3)] show ?thesis by (auto simp: parked_msgs_def)
next
  case (timer_resume m ms e w)
  with pk ring_resume_parked[OF timer_resume(3)] show ?thesis by (auto simp: parked_msgs_def split: if_splits)
qed (use pk in \<open>simp_all add: parked_msgs_def frame_simps\<close>)

lemma parked_disp:
  assumes "disp_step r z z'" and pk: "parked (x_ring (z_world z)) = image_mset Some (parked_msgs z)"
  shows "parked (x_ring (z_world z')) = image_mset Some (parked_msgs z')"
  using assms(1)
proof (cases rule: disp_step.cases)
  case (disp_none b)
  with pk DequeueBatch_parked[of "x_ring (z_world z)" 10] show ?thesis by (simp add: parked_msgs_def)
next
  case (disp_drained b)
  with pk DequeueBatch_parked[of "x_ring (z_world z)" 100] show ?thesis by (simp add: parked_msgs_def)
next
  case (disp_batch drain batch b now tasks w)
  with pk DequeueBatch_parked[of "x_ring (z_world z)" "if drain then 100 else 10"] dispatchBatch_ids(1)[OF disp_batch(5)]
  show ?thesis by (simp add: parked_msgs_def)
next
  case (disp_submit drain task tasks pool)
  with pk submit_jobs[OF disp_submit(3)] show ?thesis by (simp add: parked_msgs_def)
next
  case (disp_wait drain)
  with pk show ?thesis by (simp add: parked_msgs_def)
qed (use pk in \<open>simp_all add: parked_msgs_def frame_simps\<close>)

lemma parked_work:
  assumes "work_step r z z'" and pk: "parked (x_ring (z_world z)) = image_mset Some (parked_msgs z)"
  shows "parked (x_ring (z_world z')) = image_mset Some (parked_msgs z')"
  using assms(1)
proof (cases rule: work_step.cases)
  case (work_take i pool)
  with pk take_jobs[OF work_take(2,3,4)] show ?thesis by (simp add: parked_msgs_def)
next
  case (work_run i task now w pool)
  with pk return_jobs[OF work_run(2,3,5)] run_task_parked[OF work_run(4)] show ?thesis by (simp add: parked_msgs_def)
next
  case (work_park i task now m w)
  have "sum_mset (image_mset (\<lambda>job. mset (job_parked job)) (jobs (z_pool z'))) =
      add_mset m (sum_mset (image_mset (\<lambda>job. mset (job_parked job)) (jobs (z_pool z))))"
    using arg_cong[OF park_jobs[OF work_park(2,3), of "JParked m"], of "\<lambda>M. sum_mset (image_mset (\<lambda>job. mset (job_parked job)) M)"]
      work_park(1) by simp
  with pk work_park(1) run_task_parked[OF work_park(4)] show ?thesis by (simp add: parked_msgs_def)
next
  case (work_sleep i m w)
  with pk ring_resume_parked[OF work_sleep(4)] show ?thesis by (simp add: parked_msgs_def)
next
  case (work_resume i m err w pool)
  with pk return_jobs[OF work_resume(2,3,5)] ring_resume_parked[OF work_resume(4)] show ?thesis
    by (simp add: parked_msgs_def)
qed

lemma parked_main:
  assumes "main_step r z z'" and wt: "wait_inv z" and pk: "parked (x_ring (z_world z)) = image_mset Some (parked_msgs z)"
  shows "parked (x_ring (z_world z')) = image_mset Some (parked_msgs z')"
  using assms(1)
proof (cases rule: main_step.cases)
  case (main_poller pool)
  with pk wt stop_jobs[OF main_poller(4)] show ?thesis by (simp add: parked_msgs_def wait_inv_def)
next
  case (main_pool order w w')
  then have "x_ring (z_world z') = ring_Close (x_ring (z_world z))"
    using shutdown_drain_ring[OF main_pool(5)] by (auto split: option.splits)
  with pk main_pool(1) show ?thesis by (simp add: parked_msgs_def ring_Close_parked)
qed (use pk in \<open>simp_all add: parked_msgs_def frame_simps\<close>)

lemma parked_step:
  assumes "sys_step r z z'" and wt: "wait_inv z"
    and pk: "parked (x_ring (z_world z)) = image_mset Some (parked_msgs z)"
  shows "parked (x_ring (z_world z')) = image_mset Some (parked_msgs z')"
  using assms(1)
proof (cases rule: sys_step.cases)
  case poll
  then show ?thesis by (rule parked_poll[OF _ pk])
next
  case timer
  then show ?thesis by (rule parked_timer[OF _ pk])
next
  case disp
  then show ?thesis by (rule parked_disp[OF _ pk])
next
  case work
  then show ?thesis by (rule parked_work[OF _ pk])
next
  case main
  then show ?thesis by (rule parked_main[OF _ wt pk])
qed (use pk in \<open>simp_all add: parked_msgs_def frame_simps\<close>)

lemma park_inv_step:
  assumes "sys_step r z z'" and "sys_inv r z" and pk: "park_inv z"
  shows "park_inv z'"
proof -
  have i: "wait_inv z" "ring_inv (x_ring (z_world z))" using assms(2) by (simp_all add: sys_inv_def shared_inv_def)
  have "wake_inv (x_ring (z_world z'))"
    using sys_ring_step[OF assms(1)] wake_inv_step[OF _ i(2)] pk by (auto simp: park_inv_def)
  with parked_step[OF assms(1) i(1)] pk show ?thesis by (simp add: park_inv_def)
qed

lemma park_inv_run:
  assumes "sys_run r z z'" and "coordinators_keep_ids r" and "sys_inv r z" and "park_inv z"
  shows "park_inv z'"
  using assms
proof (induction rule: sys_run.induct)
  case (step z z' z'')
  then show ?case using park_inv_step[OF step.hyps(2) sys_inv_run[OF step.hyps(1)]] by blast
qed

lemma park_inv_start:
  assumes "fresh_world w"
  shows "park_inv (sys_start w n k)"
proof -
  have "parked (x_ring w) = {#}" using assms by (simp add: fresh_world_def holdings_def)
  moreover from this have "wake_inv (x_ring w)" by (simp add: parked_def wake_inv_def)
  moreover have "concat (map feed_parked (replicate k FIdle)) = []" by (induction k) simp_all
  ultimately show ?thesis by (simp add: park_inv_def sys_start_def started_jobs parked_msgs_def)
qed

section \<open>Properties\<close>

text \<open>C14. No wake-up is lost inside the pipeline: in every interleaving of the goroutines, who is parked
  at the ring is exactly the calls of the consumer, the timer and the workers that are parked in
  \<open>Enqueue\<close>, each with its message; while one of them sleeps the ring is open and has no free slot
  for which nobody has been woken.\<close>

theorem pipeline_no_lost_wakeup:
  assumes "sys_run r (sys_start w n k) z" and "fresh_world w" and "coordinators_keep_ids r"
  shows "parked (x_ring (z_world z)) = image_mset Some (parked_msgs z) \<and>
    (waiting (b_cond (x_ring (z_world z))) \<noteq> [] \<longrightarrow> \<not> b_closed (x_ring (z_world z)) \<and>
       ring_cap (x_ring (z_world z)) - length (contents (x_ring (z_world z))) \<le> length (woken (b_cond (x_ring (z_world z)))))"
  using park_inv_run[OF assms(1,3) sys_inv_start[OF assms(2)] park_inv_start[OF assms(2)]]
  by (auto simp: park_inv_def wake_inv_def)

theorem pipeline_no_lost_wakeup_witness:
  "\<exists>z. sys_run retry_runtime (sys_start (sample_world []) 1 1) z \<and> stuck z \<and>
     parked (x_ring (z_world z)) = image_mset Some (parked_msgs z)"
proof -
  obtain z where z: "sys_run retry_runtime (sys_start (sample_world []) 1 1) z" "stuck z"
    using deadlock_reachable by blast
  with pipeline_no_lost_wakeup[OF z(1) sample_world_fresh retry_runtime_ids] show ?thesis by blast
qed

end
