(* ===== verification/Handled.thy ===== *)
theory Handled
  imports System_Runs
begin

text \<open>
  What the handlers get to see, in every interleaving of \<open>Run\<close>: a message anywhere in the pipeline is
  one that was received, and for handlers that acknowledge, the state of the user code is the
  effect of each settled message, once.
\<close>

section \<open>Where a message is\<close>

definition ticker_holds :: "Message ticker \<Rightarrow> Message multiset" where
  "ticker_holds tk = (case tk_pc tk of Sending batch \<Rightarrow> mset batch | _ \<Rightarrow> {#}) + mset (concat (tk_out tk))"

text \<open>Every message in the pipeline satisfies \<open>P\<close>.\<close>

definition all_msgs :: "(Message \<Rightarrow> bool) \<Rightarrow> ('t, 's, 'h) sys \<Rightarrow> bool" where
  "all_msgs P z \<longleftrightarrow> (\<forall>m. Some m \<in># holdings (z_world z) \<longrightarrow> P m) \<and> (\<forall>m\<in>#ticker_holds (z_tick z). P m) \<and>
     (\<forall>p\<in>set (z_polls z). \<forall>m\<in>set (feed_rest p). P m) \<and> (\<forall>m\<in>set (feed_rest (z_timer z)). P m) \<and>
     (\<forall>task\<in>set (disp_tasks (z_disp z)). P (task_msg task)) \<and>
     (\<forall>job\<in>#jobs (z_pool z). \<forall>m\<in>set (job_msgs job). P m)"

text \<open>Nothing is or was in the wheel.\<close>

definition undelayed :: "('t, 's, 'h) sys \<Rightarrow> bool" where
  "undelayed z \<longleftrightarrow> wheel_items (x_wheel (z_world z)) = {#} \<and> ticker_holds (z_tick z) = {#} \<and> z_lost z = {#}"

text \<open>A run in which the transport hands over messages that satisfy \<open>P\<close> only.\<close>

definition hands_over :: "(Message \<Rightarrow> bool) \<Rightarrow> ('t, 's, 'h) sys \<Rightarrow> ('t, 's, 'h) sys \<Rightarrow> bool" where
  "hands_over P z z' \<longleftrightarrow> (\<forall>p\<in>set (z_polls z'). \<forall>m\<in>set (feed_rest p). P m \<or> (\<exists>q\<in>set (z_polls z). m \<in> set (feed_rest q)))"

inductive fed_run :: "(Message \<Rightarrow> bool) \<Rightarrow> ('t, 's, 'h) runtime \<Rightarrow> ('t, 's, 'h) sys \<Rightarrow> ('t, 's, 'h) sys \<Rightarrow> bool"
  for P :: "Message \<Rightarrow> bool" and r :: "('t, 's, 'h) runtime" where
  refl: "fed_run P r z z"
| step: "fed_run P r z z' \<Longrightarrow> sys_step r z' z'' \<Longrightarrow> hands_over P z' z'' \<Longrightarrow> fed_run P r z z''"

text \<open>
  Handlers that acknowledge the messages with \<open>P\<close>, each adding the effect of its payload to what is
  seen of the state of the user code.
\<close>

definition acking :: "(Message \<Rightarrow> bool) \<Rightarrow> ('t, 's, 'h) runtime \<Rightarrow> ('h \<Rightarrow> 'a multiset) \<Rightarrow> (bytes \<Rightarrow> 'a multiset) \<Rightarrow> bool" where
  "acking P r seen eff \<longleftrightarrow> rt_idemFilter r = None \<and> (\<forall>m. P m \<longrightarrow> (\<exists>entry. rt_handlers r (m_Topic m) = Some entry \<and>
     e_coordinator entry = None \<and> (\<forall>h. r_Action (fst (e_fn entry h (m_Payload m))) = Ack \<and>
       seen (snd (e_fn entry h (m_Payload m))) = seen h + eff (m_Payload m))))"

text \<open>
  No message with \<open>P\<close> ends in a local retry, whatever the state of the user code.
\<close>

definition never_local_retry :: "(Message \<Rightarrow> bool) \<Rightarrow> ('t, 's, 'h) runtime \<Rightarrow> bool" where
  "never_local_retry P r \<longleftrightarrow> (\<forall>m entry h. P m \<longrightarrow> rt_handlers r (m_Topic m) = Some entry \<longrightarrow>
     o_Action (outcome_of r h m entry) \<noteq> Retry)"

section \<open>Messages only move\<close>

lemma fed_run_sys: "fed_run P r z z' \<Longrightarrow> sys_run r z z'"
  by (induction rule: fed_run.induct) (auto intro: sys_run.intros)

lemma fed_run_trans: "fed_run P r z' z'' \<Longrightarrow> fed_run P r z z' \<Longrightarrow> fed_run P r z z''"
  by (induction rule: fed_run.induct) (auto intro: fed_run.step)

lemma ticker_moves:
  assumes "Start_step (wheel, tk, []) e (wheel', tk', rcv)" and "wheel_inv wheel"
    and "e \<in> {TkSend, TkStop} \<union> range (\<lambda>(t1, t2). TkTick t1 t2) \<or> (\<exists>batch. e = TkReceive batch)"
  shows "wheel_items wheel' + ticker_holds tk' + mset rcv \<subseteq># wheel_items wheel + ticker_holds tk"
  using assms(1)
proof (cases rule: Start_step.cases)
  case (tick order tick_now expire_now)
  then obtain batch where ex: "expire wheel (time_Unix tick_now) expire_now order = (batch, wheel')"
    and tk': "tk' = tk\<lparr>tk_pc := if batch = [] then Ticking else Sending batch\<rparr>"
    by (auto simp: ticker_tick_def split: prod.splits)
  have ord: "iteration_order wheel order" using tick by (simp add: iteration_order_def)
  show ?thesis
    using expire_conserves[OF assms(2) ord ex] tick tk' by (simp add: ticker_holds_def)
qed (use assms(3) in \<open>auto simp: ticker_holds_def split: ticker_pc.splits\<close>)

lemma ring_resume_holdings:
  assumes "open_world w" and "ring_resume m w = Some (e, w')"
  shows "holdings w' = holdings w" and "x_user w' = x_user w"
  using ring_resume_open(4,5)[OF assms] by auto

lemma ring_resume_wheel: "ring_resume m w = Some (e, w') \<Longrightarrow> x_wheel w' = x_wheel w"
  by (auto simp: ring_resume_def split: if_splits prod.splits)

lemma dequeue_holdings:
  assumes "open_world w" and "DequeueBatch (x_ring w) n = (batch, b)"
  shows "holdings (w\<lparr>x_ring := b\<rparr>) + mset batch = holdings w"
proof -
  have "contents (x_ring w) = batch @ contents b"
    using DequeueBatch_correct[OF _ assms(2)] assms(1) by (simp add: open_world_def)
  then show ?thesis using DequeueBatch_parked[of "x_ring w" n] assms(2) by (simp add: holdings_def)
qed

lemma set_assert_messages: "set (assert_messages batch) = {m. Some m \<in> set batch}"
  by (induction batch rule: assert_messages.induct) auto

lemma all_polls_update:
  "\<forall>p\<in>set ps. Q p \<Longrightarrow> Q q \<Longrightarrow> \<forall>p\<in>set (ps[j := q]). Q p"
  using set_update_subset_insert[of ps j q] by auto

lemma after_rest [simp]: "feed_rest (after_enqueue res m ms) = ms" "feed_rest (after_resume e m ms) = ms"
  by (cases res, simp_all) (cases e, simp_all)

section \<open>No local retry\<close>

lemma known_entry: "known_task r (Process msg entry) \<Longrightarrow> rt_handlers r (m_Topic msg) = Some entry"
  by (auto simp: known_task_def task_of_def split: option.splits)

lemma no_retry_task:
  assumes "never_local_retry P r" and "P (task_msg task)" and "known_task r task" and "run_task r now task w = Inr (res, w')"
  shows "res = Finished" and "x_ring w' = x_ring w" and "x_wheel w' = x_wheel w" and "holdings w' = holdings w"
proof -
  have "res = Finished \<and> x_ring w' = x_ring w \<and> x_wheel w' = x_wheel w"
  proof (cases task)
    case (Process msg entry)
    let ?o = "outcome_of r (x_user w) msg entry"
    obtain w1 where "x_ring w1 = x_ring w" "x_wheel w1 = x_wheel w" "processMessage r now msg entry w = process_switch r now msg ?o w1"
      by (rule processMessage_switch)
    moreover have "o_Action ?o \<noteq> Retry"
      using assms(1-3) Process known_entry[of r msg entry] by (simp add: never_local_retry_def)
    ultimately show ?thesis using process_switch_ring[of r now msg ?o w1 res w'] assms(4) Process by simp
  next
    case (Unknown msg)
    have "x_ring (handleUnknownTopic r msg w) = x_ring w" "x_wheel (handleUnknownTopic r msg w) = x_wheel w"
      by (simp_all add: handleUnknownTopic_def settle_DLQ_def split_def Let_def frame_simps split: option.split)
    with Unknown assms(4) show ?thesis by auto
  qed
  then show "res = Finished" "x_ring w' = x_ring w" "x_wheel w' = x_wheel w" "holdings w' = holdings w"
    by (simp_all add: holdings_def)
qed

section \<open>A handler that acknowledges\<close>

lemma acking_outcome:
  assumes "acking P r seen eff" and "P m" and "rt_handlers r (m_Topic m) = Some entry"
  shows "o_Action (outcome_of r h m entry) = Ack"
proof -
  have "e_coordinator entry = None" "r_Action (fst (e_fn entry h (m_Payload m))) = Ack" using assms by (auto simp: acking_def)
  then show ?thesis by (simp add: outcome_of_def resolveOutcome_def default_Handle_def)
qed

lemma acking_no_retry: "acking P r seen eff \<Longrightarrow> never_local_retry P r"
  by (auto simp: never_local_retry_def acking_outcome)

lemma acked_task:
  assumes ack: "acking P r seen eff" and "P (task_msg task)" and "known_task r task" and w: "open_world w"
    and run: "run_task r now task w = Inr (res, w')" and keep: "coordinators_keep_ids r"
  shows "call_ids (task_calls r now task w) = {#m_ID (task_msg task)#}" and "leaves r w task = {#}"
    and "seen (x_user w') = seen (x_user w) + eff (m_Payload (task_msg task))"
proof -
  obtain msg entry where e: "rt_handlers r (m_Topic msg) = Some entry" "e_coordinator entry = None" "task = Process msg entry"
    and fn: "\<And>h. seen (snd (e_fn entry h (m_Payload msg))) = seen h + eff (m_Payload msg)"
    using assms(2,3) ack by (fastforce simp: acking_def known_task_def task_of_def split: option.splits)
  obtain result h where res: "e_fn entry (x_user w) (m_Payload msg) = (result, h)" by fastforce
  obtain w1 where w1: "x_user w1 = h"
    "processMessage r now msg entry w = process_switch r now msg (outcome_of r (x_user w) msg entry) w1"
    using processMessage_default[OF e(2) res] by metis
  have out: "o_Action (outcome_of r (x_user w) msg entry) = Ack"
    by (rule acking_outcome[OF ack _ e(1)]) (use assms(2) e(3) in simp)
  then have fate: "task_fate r w task = Acked" using e(3) by (simp add: fate_of_def)
  then show "leaves r w task = {#}" by (simp add: leaves_def)
  show "call_ids (task_calls r now task w) = {#m_ID (task_msg task)#}"
    using task_settled(1)[OF run] w fate e(3) outcome_keeps_id[OF keep e(1)] by (simp add: open_world_def)
  have sw: "process_switch r now msg (outcome_of r (x_user w) msg entry) w1 = Inr (res, w')" using run w1(2) e(3) by simp
  have "x_user w' = h" using sw out ack w1(1)
    by (auto simp: process_switch_def settle_Ack_def acking_def split_def Let_def frame_simps split: option.splits)
  then show "seen (x_user w') = seen (x_user w) + eff (m_Payload (task_msg task))" using fn[of "x_user w"] res e(3) by simp
qed

lemma unfiltered_dispatch:
  assumes "rt_idemFilter r = None" and "dispatchBatch r now batch w = Inr (tasks, w')"
  shows "w' = w" and "map task_msg tasks = assert_messages batch"
  using assms by (auto simp: dispatchBatch_def comp_def)

lemma drained_world:
  assumes "shutdown_drain order w = (res, w')"
  shows "holdings w' \<subseteq># holdings w" and "x_user w' = x_user w"
proof -
  have w': "w' = w\<lparr>x_ring := ring_Close (x_ring w), x_wheel := snd (wheel_Drain (x_wheel w) order)\<rparr>"
    by (rule shutdown_drain_world[OF assms])
  then show "x_user w' = x_user w" by simp
  have "wheel_items (snd (wheel_Drain (x_wheel w) order)) = {#}" by (simp add: wheel_Drain_def wheel_slots_def bucket_keys_def)
  then show "holdings w' \<subseteq># holdings w"
    using w' by (simp add: holdings_def ring_Close_correct ring_Close_parked)
qed

lemma open_at:
  assumes "sys_inv r z"
    and "(\<exists>j<length (z_polls z). z_polls z ! j \<noteq> FReturned) \<or> z_timer z \<noteq> FReturned \<or> z_disp z \<noteq> DReturned"
  shows "open_world (z_world z)"
proof -
  have i: "shared_inv z" "phase_inv z" using assms(1) by (simp_all add: sys_inv_def)
  show ?thesis by (rule open_sys[OF i(1)]) (use assms(2) phase_open[OF i(2)] in fastforce)
qed

lemma worker_open:
  assumes "sys_inv r z" and "i < length (p_workers (z_pool z))" and "p_workers (z_pool z) ! i = WRunning job"
  shows "open_world (z_world z)"
proof -
  have i: "shared_inv z" "phase_inv z" "wait_inv z" using assms(1) by (simp_all add: sys_inv_def)
  show ?thesis by (rule open_sys[OF i(1) worker_phase[OF i(2,3) assms(2)]]) (simp add: assms(3))
qed

lemma all_msgsD:
  assumes "all_msgs P z"
  shows "Some m \<in># holdings (z_world z) \<Longrightarrow> P m" and "m \<in># ticker_holds (z_tick z) \<Longrightarrow> P m"
    and "p \<in> set (z_polls z) \<Longrightarrow> m \<in> set (feed_rest p) \<Longrightarrow> P m" and "m \<in> set (feed_rest (z_timer z)) \<Longrightarrow> P m"
    and "task \<in> set (disp_tasks (z_disp z)) \<Longrightarrow> P (task_msg task)"
    and "job \<in># jobs (z_pool z) \<Longrightarrow> m \<in> set (job_msgs job) \<Longrightarrow> P m"
  using assms by (auto simp: all_msgs_def)

lemma running_msg:
  assumes "sys_inv r z" and "all_msgs P z" and "i < length (p_workers (z_pool z))" and "p_workers (z_pool z) ! i = WRunning (Job task)"
  shows "P (task_msg task)" and "known_task r task"
  using all_msgsD(6)[OF assms(2) job_running[OF assms(3,4)]] known_running[OF _ assms(3,4)] assms(1)
  by (simp_all add: sys_inv_def)

lemma ticker_msgs:
  assumes "all_msgs P z" and "wheel_items wheel + ticker_holds tk + mset rcv \<subseteq># wheel_items (x_wheel (z_world z)) + ticker_holds (z_tick z)"
  shows "\<forall>m. Some m \<in># holdings ((z_world z)\<lparr>x_wheel := wheel\<rparr>) \<longrightarrow> P m" and "\<forall>m\<in>#ticker_holds tk. P m" and "\<forall>m\<in>set rcv. P m"
proof -
  have split: "Some m \<in># holdings w \<longleftrightarrow> Some m \<in># mset (contents (x_ring w)) + parked (x_ring w) \<or> m \<in># wheel_items (x_wheel w)"
    for m and w :: "('a, 'b, 'c) world" by (auto simp: holdings_def)
  have P: "P m" if "m \<in># wheel_items wheel + ticker_holds tk + mset rcv" for m
  proof -
    have "m \<in># wheel_items (x_wheel (z_world z)) + ticker_holds (z_tick z)" by (rule mset_subset_eqD[OF assms(2) that])
    then have "Some m \<in># holdings (z_world z) \<or> m \<in># ticker_holds (z_tick z)" unfolding split union_iff by blast
    with assms(1) show ?thesis by (auto simp: all_msgs_def)
  qed
  show "\<forall>m. Some m \<in># holdings ((z_world z)\<lparr>x_wheel := wheel\<rparr>) \<longrightarrow> P m"
  proof (intro allI impI)
    fix m
    assume "Some m \<in># holdings ((z_world z)\<lparr>x_wheel := wheel\<rparr>)"
    then consider "Some m \<in># mset (contents (x_ring (z_world z))) + parked (x_ring (z_world z))" | "m \<in># wheel_items wheel"
      unfolding split by auto
    then show "P m"
    proof cases
      case 1
      then have "Some m \<in># holdings (z_world z)" unfolding split by blast
      with assms(1) show ?thesis by (auto simp: all_msgs_def)
    qed (use P in \<open>simp only: union_iff, blast\<close>)
  qed
  show "\<forall>m\<in>#ticker_holds tk. P m" "\<forall>m\<in>set rcv. P m" using P by auto
qed

lemma all_msgs_poll:
  assumes "poll_step r z z'" and inv: "sys_inv r z" and all: "all_msgs P z"
    and polls: "\<forall>p\<in>set (z_polls z'). \<forall>m\<in>set (feed_rest p). P m"
  shows "all_msgs P z'"
proof -
  note a = all_msgsD[OF all]
  from assms(1) show ?thesis
  proof (cases rule: poll_step.cases)
    case (poll_receive j msgs t)
    with a polls show ?thesis by (auto simp: all_msgs_def holdings_def frame_simps)
  next
    case (poll_message j m ms now res w)
    have "open_world (z_world z)" by (rule open_at[OF inv]) (use poll_message in \<open>auto split: if_splits\<close>)
    from poll_one_open[OF this poll_message(4)] have "holdings w = add_mset (Some m) (holdings (z_world z))" by simp
    moreover have "P m" using a(3)[OF nth_mem[OF poll_message(2)]] poll_message(3) by simp
    ultimately show ?thesis using a polls poll_message(1) by (auto simp: all_msgs_def)
  next
    case (poll_resume j m ms e w)
    have "open_world (z_world z)" by (rule open_at[OF inv]) (use poll_resume in \<open>auto split: if_splits\<close>)
    from ring_resume_holdings(1)[OF this poll_resume(4)] a polls poll_resume(1) show ?thesis by (auto simp: all_msgs_def)
  qed (use a polls in \<open>auto simp: all_msgs_def holdings_def ticker_holds_def\<close>)
qed

lemma all_msgs_timer:
  assumes "timer_step r z z'" and inv: "sys_inv r z" and all: "all_msgs P z"
    and polls: "\<forall>p\<in>set (z_polls z'). \<forall>m\<in>set (feed_rest p). P m"
  shows "all_msgs P z'"
proof -
  note a = all_msgsD[OF all]
  have wheel: "wheel_inv (x_wheel (z_world z))" using inv by (simp add: sys_inv_def shared_inv_def)
  from assms(1) show ?thesis
  proof (cases rule: timer_step.cases)
    case (ticker e wheel tk)
    from ticker_msgs[OF all ticker_moves[OF ticker(2) wheel disjI1[OF ticker(3)]]] a polls ticker(1) show ?thesis
      by (simp add: all_msgs_def)
  next
    case (timer_receive batch wheel tk)
    have "wheel_items wheel + ticker_holds tk + mset batch \<subseteq># wheel_items (x_wheel (z_world z)) + ticker_holds (z_tick z)"
      by (rule ticker_moves[OF timer_receive(3) wheel]) blast
    from ticker_msgs[OF all this] a polls timer_receive(1) show ?thesis by (simp add: all_msgs_def)
  next
    case (timer_message m ms res w)
    have "open_world (z_world z)" by (rule open_at[OF inv]) (use timer_message in \<open>auto split: if_splits\<close>)
    from enqueue_msg_open[OF this timer_message(3)] have "holdings w = add_mset (Some m) (holdings (z_world z))" by simp
    moreover have "P m" using a(4)[of m] timer_message(2) by simp
    ultimately show ?thesis using a polls timer_message(1,2) by (auto simp: all_msgs_def)
  next
    case (timer_resume m ms e w)
    have "open_world (z_world z)" by (rule open_at[OF inv]) (use timer_resume in \<open>auto split: if_splits\<close>)
    from ring_resume_holdings(1)[OF this timer_resume(3)] a polls timer_resume(1,2) show ?thesis by (auto simp: all_msgs_def)
  qed (use a polls in \<open>auto simp: all_msgs_def holdings_def ticker_holds_def\<close>)
qed

lemma all_msgs_disp:
  assumes "disp_step r z z'" and inv: "sys_inv r z" and nr: "never_local_retry P r" and all: "all_msgs P z"
    and polls: "\<forall>p\<in>set (z_polls z'). \<forall>m\<in>set (feed_rest p). P m"
  shows "all_msgs P z'"
proof -
  note a = all_msgsD[OF all]
  from assms(1) show ?thesis
  proof (cases rule: disp_step.cases)
    case (disp_none b)
    have "open_world (z_world z)" by (rule open_at[OF inv]) (use disp_none in \<open>auto split: if_splits\<close>)
    from dequeue_holdings[OF this disp_none(3)] a polls disp_none(1) show ?thesis by (auto simp: all_msgs_def)
  next
    case (disp_drained b)
    have "open_world (z_world z)" by (rule open_at[OF inv]) (use disp_drained in \<open>auto split: if_splits\<close>)
    from dequeue_holdings[OF this disp_drained(3)] a polls disp_drained(1) show ?thesis by (auto simp: all_msgs_def)
  next
    case (disp_batch drain batch b now tasks w)
    have "open_world (z_world z)" by (rule open_at[OF inv]) (use disp_batch in \<open>auto split: if_splits\<close>)
    note h = dequeue_holdings[OF this disp_batch(3)] and d = dispatchBatch_ids[OF disp_batch(5)]
    have "set (map task_msg tasks) \<subseteq> {m. Some m \<in># holdings (z_world z)}"
      using d(4) by (fastforce simp: set_assert_messages simp flip: h)
    moreover have "holdings w = holdings ((z_world z)\<lparr>x_ring := b\<rparr>)" using d(1,2) by (simp add: holdings_def)
    then have "set_mset (holdings w) \<subseteq> set_mset (holdings (z_world z))" by (simp flip: h)
    ultimately show ?thesis using a polls disp_batch(1) by (auto simp: all_msgs_def)
  next
    case (disp_submit drain task tasks pool)
    with a polls submit_jobs[OF disp_submit(3)] show ?thesis by (auto simp: all_msgs_def)
  qed (use a polls in \<open>auto simp: all_msgs_def holdings_def ticker_holds_def\<close>)
qed

lemma all_msgs_work:
  assumes "work_step r z z'" and inv: "sys_inv r z" and nr: "never_local_retry P r" and all: "all_msgs P z"
    and polls: "\<forall>p\<in>set (z_polls z'). \<forall>m\<in>set (feed_rest p). P m"
  shows "all_msgs P z'"
proof -
  note a = all_msgsD[OF all]
  from assms(1) show ?thesis
  proof (cases rule: work_step.cases)
    case (work_take i pool)
    with a polls take_jobs[OF work_take(2-4)] show ?thesis by (auto simp: all_msgs_def)
  next
    case (work_run k task now w pool)
    have "set_mset (jobs pool) \<subseteq> set_mset (jobs (z_pool z))" using return_jobs[OF work_run(2,3,5)] by auto
    with a polls no_retry_task(4)[OF nr running_msg[OF inv all work_run(2,3)] work_run(4)] work_run(1) show ?thesis by (auto simp: all_msgs_def)
  next
    case (work_park k task now m w)
    with no_retry_task(1)[OF nr running_msg[OF inv all work_park(2,3)] work_park(4)] show ?thesis by simp
  next
    case (work_sleep k m w)
    from ring_resume_holdings(1)[OF worker_open[OF inv work_sleep(2,3)] work_sleep(4)] a polls work_sleep(1) show ?thesis by (auto simp: all_msgs_def)
  next
    case (work_resume k m err w pool)
    note h = ring_resume_holdings(1)[OF worker_open[OF inv work_resume(2,3)] work_resume(4)]
    have "set_mset (jobs pool) \<subseteq> set_mset (jobs (z_pool z))" using return_jobs[OF work_resume(2,3,5)] by auto
    with h a polls work_resume(1) show ?thesis by (auto simp: all_msgs_def)
  qed
qed

lemma all_msgs_main:
  assumes "main_step r z z'" and inv: "sys_inv r z" and all: "all_msgs P z"
    and polls: "\<forall>p\<in>set (z_polls z'). \<forall>m\<in>set (feed_rest p). P m"
  shows "all_msgs P z'"
proof -
  note a = all_msgsD[OF all]
  from assms(1) show ?thesis
  proof (cases rule: main_step.cases)
    case (main_poller pool)
    with a polls stop_jobs[OF main_poller(4)] inv show ?thesis by (auto simp: all_msgs_def wait_inv_def sys_inv_def)
  next
    case (main_pool order w w')
    then have "holdings (z_world z') = holdings w" by (simp add: holdings_def closed_store_frame[OF main_pool(6)])
    with drained_world(1)[OF main_pool(5)] have "set_mset (holdings (z_world z')) \<subseteq> set_mset (holdings (z_world z))"
      by (metis set_mset_mono)
    with a polls main_pool(1) show ?thesis by (auto simp: all_msgs_def)
  qed (use a polls in \<open>auto simp: all_msgs_def holdings_def ticker_holds_def\<close>)
qed

lemma all_msgs_step:
  assumes "sys_step r z z'" and inv: "sys_inv r z" and nr: "never_local_retry P r" and "hands_over P z z'" and all: "all_msgs P z"
  shows "all_msgs P z'"
proof -
  have polls: "\<forall>p\<in>set (z_polls z'). \<forall>m\<in>set (feed_rest p). P m"
    using assms(4) all_msgsD(3)[OF all] by (fastforce simp: hands_over_def)
  show ?thesis using assms(1)
  proof (cases rule: sys_step.cases)
    case poll
    then show ?thesis by (rule all_msgs_poll[OF _ inv all polls])
  next
    case timer
    then show ?thesis by (rule all_msgs_timer[OF _ inv all polls])
  next
    case disp
    then show ?thesis by (rule all_msgs_disp[OF _ inv nr all polls])
  next
    case work
    then show ?thesis by (rule all_msgs_work[OF _ inv nr all polls])
  next
    case main
    then show ?thesis by (rule all_msgs_main[OF _ inv all polls])
  qed (use all polls in \<open>auto simp: all_msgs_def ticker_holds_def\<close>)
qed

text \<open>The effects of the settled messages are what is seen of the user's state.\<close>

lemma seen_poll:
  assumes "poll_step r z z'" and inv: "sys_inv r z"
  shows "seen (x_user (z_world z')) + sum_mset (image_mset g (z_settled z)) =
    seen (x_user (z_world z)) + sum_mset (image_mset g (z_settled z'))"
  using assms(1)
proof (cases rule: poll_step.cases)
  case (poll_message j m ms now res w)
  have "x_user w = x_user (z_world z)" using poll_message(4)
    by (auto simp: poll_one_def Let_def frame_simps enqueue_msg_def split: sum.splits if_splits prod.splits)
  with poll_message(1) show ?thesis by simp
next
  case (poll_resume j m ms e w)
  have "open_world (z_world z)" by (rule open_at[OF inv]) (use poll_resume in \<open>auto split: if_splits\<close>)
  from ring_resume_holdings(2)[OF this poll_resume(4)] poll_resume(1) show ?thesis by simp
qed (simp_all add: frame_simps)

lemma seen_timer:
  assumes "timer_step r z z'" and inv: "sys_inv r z"
  shows "seen (x_user (z_world z')) + sum_mset (image_mset g (z_settled z)) =
    seen (x_user (z_world z)) + sum_mset (image_mset g (z_settled z'))"
  using assms(1)
proof (cases rule: timer_step.cases)
  case (timer_message m ms res w)
  with enqueue_msg_frame(4)[of m "z_world z"] show ?thesis by simp
next
  case (timer_resume m ms e w)
  have "open_world (z_world z)" by (rule open_at[OF inv]) (use timer_resume in \<open>auto split: if_splits\<close>)
  from ring_resume_holdings(2)[OF this timer_resume(3)] timer_resume(1) show ?thesis by simp
qed (simp_all add: frame_simps)

lemma seen_work:
  assumes "work_step r z z'" and inv: "sys_inv r z" and ack: "acking P r seen eff" and all: "all_msgs P z"
    and keep: "coordinators_keep_ids r" and g: "\<And>m. P m \<Longrightarrow> g (m_ID m) = eff (m_Payload m)"
  shows "seen (x_user (z_world z')) + sum_mset (image_mset g (z_settled z)) =
    seen (x_user (z_world z)) + sum_mset (image_mset g (z_settled z'))"
  using assms(1)
proof (cases rule: work_step.cases)
  case (work_run k task now w pool)
  note P = running_msg[OF inv all work_run(2,3)]
  with acked_task(1,3)[OF ack P worker_open[OF inv work_run(2,3)] work_run(4) keep] work_run(1) g[OF P(1)] show ?thesis by simp
next
  case (work_park k task now m w)
  with no_retry_task(1)[OF acking_no_retry[OF ack] running_msg[OF inv all work_park(2,3)] work_park(4)] show ?thesis by simp
next
  case (work_sleep k m w)
  from ring_resume_holdings(2)[OF worker_open[OF inv work_sleep(2,3)] work_sleep(4)] work_sleep(1) show ?thesis by simp
next
  case (work_resume k m err w pool)
  from ring_resume_holdings(2)[OF worker_open[OF inv work_resume(2,3)] work_resume(4)] work_resume(1) show ?thesis by simp
qed (simp_all add: frame_simps)

lemma seen_step:
  assumes "sys_step r z z'" and inv: "sys_inv r z" and ack: "acking P r seen eff" and all: "all_msgs P z"
    and keep: "coordinators_keep_ids r" and g: "\<And>m. P m \<Longrightarrow> g (m_ID m) = eff (m_Payload m)"
  shows "seen (x_user (z_world z')) + sum_mset (image_mset g (z_settled z)) =
    seen (x_user (z_world z)) + sum_mset (image_mset g (z_settled z'))"
  using assms(1)
proof (cases rule: sys_step.cases)
  case poll
  then show ?thesis by (rule seen_poll[OF _ inv])
next
  case timer
  then show ?thesis by (rule seen_timer[OF _ inv])
next
  case disp
  then show ?thesis
  proof (cases rule: disp_step.cases)
    case (disp_batch drain batch b now tasks w)
    with unfiltered_dispatch[OF _ disp_batch(5)] unfiltered_calls[of r] ack show ?thesis by (simp add: acking_def)
  qed (simp_all add: frame_simps)
next
  case work
  then show ?thesis by (rule seen_work[OF _ inv ack all keep g])
next
  case main
  then show ?thesis
  proof (cases rule: main_step.cases)
    case (main_pool order w w')
    note closed_store_frame(3)[OF main_pool(6)]
    with drained_world(2)[OF main_pool(5)] main_pool(1) show ?thesis by simp
  qed (simp_all add: frame_simps)
qed (simp_all add: frame_simps)

lemma fed_run_inv:
  assumes "fed_run P r z z'" and "coordinators_keep_ids r" and "sys_inv r z" and "acking P r seen eff" and "all_msgs P z"
    and g: "\<And>m. P m \<Longrightarrow> g (m_ID m) = eff (m_Payload m)"
  shows "sys_inv r z' \<and> all_msgs P z' \<and> seen (x_user (z_world z')) + sum_mset (image_mset g (z_settled z)) =
    seen (x_user (z_world z)) + sum_mset (image_mset g (z_settled z'))"
  using assms(1,3,5)
proof (induction rule: fed_run.induct)
  case (step z z' z'')
  then have ih: "sys_inv r z'" "all_msgs P z'" "seen (x_user (z_world z')) + sum_mset (image_mset g (z_settled z)) =
    seen (x_user (z_world z)) + sum_mset (image_mset g (z_settled z'))" by simp_all
  have "seen (x_user (z_world z'')) + sum_mset (image_mset g (z_settled z)) + sum_mset (image_mset g (z_settled z')) =
      seen (x_user (z_world z)) + sum_mset (image_mset g (z_settled z'')) + sum_mset (image_mset g (z_settled z'))"
    using seen_step[OF step.hyps(2) ih(1) assms(4) ih(2) assms(2) g] ih(3) by (metis (no_types, lifting) add.assoc add.commute)
  then have "seen (x_user (z_world z'')) + sum_mset (image_mset g (z_settled z)) =
      seen (x_user (z_world z)) + sum_mset (image_mset g (z_settled z''))" by simp
  with sys_inv_step[OF step.hyps(2) assms(2) ih(1)] all_msgs_step[OF step.hyps(2) ih(1) acking_no_retry[OF assms(4)] step.hyps(3) ih(2)]
  show ?case by blast
qed simp

lemma fed_run_msgs:
  assumes "fed_run P r z z'" and "coordinators_keep_ids r" and "sys_inv r z" and "never_local_retry P r" and "all_msgs P z"
  shows "sys_inv r z' \<and> all_msgs P z'"
  using assms(1,3,5)
proof (induction rule: fed_run.induct)
  case (step z z' z'')
  with sys_inv_step[OF step.hyps(2) assms(2)] all_msgs_step[OF step.hyps(2) _ assms(4) step.hyps(3)] show ?case by blast
qed simp

lemma acked_left:
  assumes "fed_run P r z z'" and "coordinators_keep_ids r" and "sys_inv r z" and "acking P r seen eff" and "all_msgs P z"
  shows "z_left z' = z_left z"
  using assms(1,3,5)
proof (induction rule: fed_run.induct)
  case (step z z' z'')
  have ih: "sys_inv r z'" "all_msgs P z'"
    using fed_run_msgs[OF step.hyps(1) assms(2) step.prems(1) acking_no_retry[OF assms(4)] step.prems(2)] by simp_all
  have "leaves r (z_world z') task = {#}" if "Job task \<in># jobs (z_pool z')" for task
  proof -
    have "P (task_msg task)" "known_task r task" using that ih all_msgsD(6)[OF ih(2) that] by (auto simp: sys_inv_def task_inv_def)
    then show ?thesis using acking_outcome[OF assms(4)] assms(4) known_entry
      by (cases task) (fastforce simp: leaves_def fate_of_def acking_def known_task_def task_of_def)+
  qed
  from left_step[OF step.hyps(2) this] step show ?case by simp
qed simp

lemma all_msgs_start:
  assumes "fresh_world w"
  shows "all_msgs P (sys_start w n k)"
  using assms by (auto simp: all_msgs_def sys_start_def fresh_world_def started_jobs ticker_holds_def ticker_New_def)

section \<open>Nothing delayed\<close>

lemma ticker_idle:
  assumes "Start_step (wheel, tk, []) e (wheel', tk', rcv)" and "wheel_inv wheel"
    and "e \<in> {TkSend, TkStop} \<union> range (\<lambda>(t1, t2). TkTick t1 t2) \<or> (\<exists>batch. e = TkReceive batch)"
    and "wheel_items wheel = {#}" and "ticker_holds tk = {#}"
  shows "wheel_items wheel' = {#}" and "ticker_holds tk' = {#}" and "rcv = []"
  using ticker_moves[OF assms(1-3)] assms(4,5) by simp_all

lemma undelayed_poll:
  assumes "poll_step r z z'" and all: "all_msgs P z" and now: "\<And>m. P m \<Longrightarrow> m_NotBefore m \<le> 0" and un: "undelayed z"
  shows "undelayed z'"
proof -
  have u: "wheel_items (x_wheel (z_world z)) = {#}" "ticker_holds (z_tick z) = {#}" "z_lost z = {#}"
    using un by (simp_all add: undelayed_def)
  from assms(1) show ?thesis
  proof (cases rule: poll_step.cases)
    case (poll_message j m ms now res w)
    have "P m" using all poll_message(3) nth_mem[OF poll_message(2)] by (fastforce simp: all_msgs_def)
    then have "x_wheel w = x_wheel (z_world z)" using poll_message(4) now[of m]
      by (auto simp: poll_one_def Let_def frame_simps enqueue_msg_def split: if_splits prod.splits)
    with u poll_message(1) show ?thesis by (simp add: undelayed_def)
  next
    case (poll_resume j m ms e w)
    then have "x_wheel w = x_wheel (z_world z)" by (auto dest: ring_resume_wheel)
    with u poll_resume(1) show ?thesis by (simp add: undelayed_def)
  qed (use u in \<open>simp_all add: undelayed_def frame_simps ticker_holds_def\<close>)
qed

lemma undelayed_timer_step:
  assumes "timer_step r z z'" and inv: "sys_inv r z" and un: "undelayed z"
  shows "undelayed z'"
proof -
  have wheel: "wheel_inv (x_wheel (z_world z))" using inv by (simp add: sys_inv_def shared_inv_def)
  have u: "wheel_items (x_wheel (z_world z)) = {#}" "ticker_holds (z_tick z) = {#}" "z_lost z = {#}"
    using un by (simp_all add: undelayed_def)
  from assms(1) show ?thesis
  proof (cases rule: timer_step.cases)
    case (ticker e wheel tk)
    have "(case (e, tk_pc (z_tick z)) of (TkStop, Sending batch) \<Rightarrow> ids batch | _ \<Rightarrow> {#}) = {#}"
      using u(2) by (auto simp: ticker_holds_def split: ticker_pc.splits tk_event.splits)
    with ticker_idle(1,2)[OF ticker(2) wheel disjI1[OF ticker(3)] u(1,2)] u(3) ticker(1) show ?thesis
      by (simp add: undelayed_def)
  next
    case (timer_receive batch wheel' tk)
    with ticker_idle(1,2)[OF timer_receive(3) wheel _ u(1,2)] u(3) show ?thesis by (auto simp: undelayed_def)
  next
    case (timer_message m ms res w)
    with enqueue_msg_frame(3)[of m "z_world z"] u show ?thesis by (simp add: undelayed_def)
  next
    case (timer_resume m ms e w)
    then have "x_wheel w = x_wheel (z_world z)" by (auto dest: ring_resume_wheel)
    with u timer_resume(1) show ?thesis by (simp add: undelayed_def)
  qed (use u in \<open>simp_all add: undelayed_def frame_simps ticker_holds_def\<close>)
qed

lemma undelayed_disp:
  assumes "disp_step r z z'" and un: "undelayed z"
  shows "undelayed z'"
proof -
  have u: "wheel_items (x_wheel (z_world z)) = {#}" "ticker_holds (z_tick z) = {#}" "z_lost z = {#}"
    using un by (simp_all add: undelayed_def)
  from assms(1) show ?thesis
  proof (cases rule: disp_step.cases)
    case (disp_batch drain batch b now tasks w)
    with u dispatchBatch_ids(2)[OF disp_batch(5)] show ?thesis by (simp add: undelayed_def)
  qed (use u in \<open>simp_all add: undelayed_def frame_simps ticker_holds_def\<close>)
qed

lemma undelayed_work:
  assumes "work_step r z z'" and inv: "sys_inv r z" and nr: "never_local_retry P r" and all: "all_msgs P z" and un: "undelayed z"
  shows "undelayed z'"
proof -
  have u: "wheel_items (x_wheel (z_world z)) = {#}" "ticker_holds (z_tick z) = {#}" "z_lost z = {#}"
    using un by (simp_all add: undelayed_def)
  from assms(1) show ?thesis
  proof (cases rule: work_step.cases)
    case (work_run k task now w pool)
    with no_retry_task(3)[OF nr running_msg[OF inv all work_run(2,3)] work_run(4)] u work_run(1) show ?thesis by (simp add: undelayed_def)
  next
    case (work_park k task now m w)
    with no_retry_task(1)[OF nr running_msg[OF inv all work_park(2,3)] work_park(4)] show ?thesis by simp
  next
    case (work_sleep i m w)
    then have "x_wheel w = x_wheel (z_world z)" by (auto dest: ring_resume_wheel)
    with u work_sleep(1) show ?thesis by (simp add: undelayed_def)
  next
    case (work_resume i m err w pool)
    then have "x_wheel w = x_wheel (z_world z)" by (auto dest: ring_resume_wheel)
    with u work_resume(1) show ?thesis by (simp add: undelayed_def)
  qed (use u in \<open>simp_all add: undelayed_def frame_simps ticker_holds_def\<close>)
qed

lemma undelayed_main:
  assumes "main_step r z z'" and un: "undelayed z"
  shows "undelayed z'"
proof -
  have u: "wheel_items (x_wheel (z_world z)) = {#}" "ticker_holds (z_tick z) = {#}" "z_lost z = {#}"
    using un by (simp_all add: undelayed_def)
  from assms(1) show ?thesis
  proof (cases rule: main_step.cases)
    case (main_pool order w w')
    note shutdown_drain_world[OF main_pool(5)] closed_store_frame(2)[OF main_pool(6)]
    then show ?thesis using u main_pool(1) by (simp add: undelayed_def wheel_Drain_def wheel_slots_def bucket_keys_def)
  qed (use u in \<open>simp_all add: undelayed_def frame_simps ticker_holds_def\<close>)
qed

lemma undelayed_step:
  assumes "sys_step r z z'" and inv: "sys_inv r z" and nr: "never_local_retry P r" and all: "all_msgs P z"
    and now: "\<And>m. P m \<Longrightarrow> m_NotBefore m \<le> 0" and un: "undelayed z"
  shows "undelayed z'"
  using assms(1)
proof (cases rule: sys_step.cases)
  case poll
  then show ?thesis by (rule undelayed_poll[OF _ all now un])
next
  case timer
  then show ?thesis by (rule undelayed_timer_step[OF _ inv un])
next
  case disp
  then show ?thesis by (rule undelayed_disp[OF _ un])
next
  case work
  then show ?thesis by (rule undelayed_work[OF _ inv nr all un])
next
  case main
  then show ?thesis by (rule undelayed_main[OF _ un])
qed (use un in \<open>simp add: undelayed_def ticker_holds_def\<close>)

lemma undelayed_run:
  assumes "fed_run P r z z'" and "coordinators_keep_ids r" and "sys_inv r z" and "never_local_retry P r" and "all_msgs P z"
    and "\<And>m. P m \<Longrightarrow> m_NotBefore m \<le> 0" and "undelayed z"
  shows "sys_inv r z' \<and> all_msgs P z' \<and> undelayed z'"
  using assms(1,3,5,7)
proof (induction rule: fed_run.induct)
  case (step z z' z'')
  then have ih: "sys_inv r z'" "all_msgs P z'" "undelayed z'" by simp_all
  from sys_inv_step[OF step.hyps(2) assms(2) ih(1)] all_msgs_step[OF step.hyps(2) ih(1) assms(4) step.hyps(3) ih(2)]
    undelayed_step[OF step.hyps(2) ih(1) assms(4) ih(2) assms(6) ih(3)]
  show ?case by blast
qed simp

lemma undelayed_start:
  assumes "fresh_world w"
  shows "undelayed (sys_start w n k)"
  using assms by (auto simp: undelayed_def sys_start_def fresh_world_def holdings_def ticker_holds_def ticker_New_def)

lemma undelayed_timer: "undelayed z \<Longrightarrow> timer_ids (x_wheel (z_world z)) (z_tick z) = {#}"
  by (simp add: undelayed_def timer_ids_def ticker_holds_def)

text \<open>A run that receives nothing hands over nothing.\<close>

lemma received_grows: "sys_run r z z' \<Longrightarrow> z_received z \<subseteq># z_received z'"
proof (induction rule: sys_run.induct)
  case (step z z' z'')
  from step.hyps(2) have "z_received z' \<subseteq># z_received z''" 
    by (cases rule: sys_step.cases) (auto elim!: poll_step.cases timer_step.cases disp_step.cases work_step.cases main_step.cases)
  with step.IH show ?case by (rule subset_mset.order_trans)
qed simp

lemma keeps_rest:
  assumes "j < length ps" and "set (feed_rest q) \<subseteq> set (feed_rest (ps ! j))"
  shows "\<forall>p\<in>set (ps[j := q]). \<forall>m\<in>set (feed_rest p). P m \<or> (\<exists>q\<in>set ps. m \<in> set (feed_rest q))"
  using assms set_update_subset_insert[of ps j q] nth_mem[OF assms(1)] by blast

lemma silent_step:
  assumes "sys_step r z z'" and "z_received z' = z_received z"
  shows "hands_over P z z'"
  using assms(1)
proof (cases rule: sys_step.cases)
  case poll
  then show ?thesis
  proof (cases rule: poll_step.cases)
    case (poll_receive j msgs t)
    then have "msgs = []" using assms(2) by simp
    with poll_receive keeps_rest[of j "z_polls z" "FRunning []"] show ?thesis by (simp add: hands_over_def)
  next
    case (poll_message j m ms now res w)
    with keeps_rest[of j "z_polls z" "after_enqueue res m ms"] show ?thesis by (auto simp: hands_over_def)
  next
    case (poll_resume j m ms e w)
    with keeps_rest[of j "z_polls z" "after_resume e m ms"] show ?thesis by (auto simp: hands_over_def)
  next
    case (poll_next j)
    with keeps_rest[of j "z_polls z" FIdle] show ?thesis by (auto simp: hands_over_def)
  qed (auto simp: hands_over_def)
next
  case timer
  then show ?thesis by (cases rule: timer_step.cases) (auto simp: hands_over_def)
next
  case disp
  then show ?thesis by (cases rule: disp_step.cases) (auto simp: hands_over_def)
next
  case work
  then show ?thesis by (cases rule: work_step.cases) (auto simp: hands_over_def)
next
  case main
  then show ?thesis by (cases rule: main_step.cases) (auto simp: hands_over_def)
qed (auto simp: hands_over_def)

lemma silent_run:
  assumes "sys_run r z z'" and "z_received z' = z_received z"
  shows "fed_run P r z z'"
  using assms
proof (induction rule: sys_run.induct)
  case (step z z' z'')
  have "z_received z \<subseteq># z_received z'" "z_received z' \<subseteq># z_received z''"
    using received_grows[OF step.hyps(1)] received_grows[OF sys_run.step[OF sys_run.refl step.hyps(2)]] by auto
  with step.prems have same: "z_received z' = z_received z" by (metis subset_mset.antisym)
  with step.prems have "z_received z'' = z_received z'" by simp
  with same show ?case using step silent_step[OF step.hyps(2)] by (auto intro: fed_run.step)
qed (rule fed_run.refl)

lemma settled_received:
  assumes "sys_inv r z"
  shows "z_settled z \<subseteq># z_received z"
proof -
  have "accounted z + z_lost z = z_received z" using assms by (simp add: sys_inv_def balance_def)
  moreover have "z_settled z \<subseteq># accounted z" unfolding accounted_def
    by (rule subset_mset.order_trans[OF mset_subset_eq_add_right mset_subset_eq_add_left])
  ultimately show ?thesis
    using subset_mset.order_trans[OF _ mset_subset_eq_add_left[of "accounted z" "z_lost z"]] by simp
qed

end
