(* ===== verification/Progress.thy ===== *)
theory Progress
  imports System_Ring Handled
begin

text \<open>
  What a pipeline needs for its work to come to an end, and that it does: no message it receives
  ends in a local retry (\<open>never_local_retry\<close>; default coordinators with a positive base delay
  qualify), and the store behind the filter, if there is one, does not panic (\<open>filter_safe\<close>). \<open>calm\<close> is
  the invariant of such a pipeline; while a batch is outstanding some worker can bring its end nearer.
\<close>

section \<open>Definitions\<close>

text \<open>
  The calls the filter makes on its store return, whenever the store is in a state with \<open>ok\<close>, which
  they keep.
\<close>

definition filter_safe :: "('s \<Rightarrow> bool) \<Rightarrow> ('t, 's, 'h) runtime \<Rightarrow> bool" where
  "filter_safe ok r \<longleftrightarrow> (\<forall>f. rt_idemFilter r = Some f \<longrightarrow>
     (\<forall>now s ms. ok s \<longrightarrow> (\<exists>kept dups evs s'. filterDuplicates f now s ms = Inr (kept, dups, evs, s') \<and> ok s')) \<and>
     (\<forall>now s m. ok s \<longrightarrow> (\<exists>err s'. filter_mark f now s m = Inr (err, s') \<and> ok s')) \<and>
     (\<forall>s. ok s \<longrightarrow> (\<exists>err s'. filter_close f s = Inr (err, s'))))"

text \<open>A message whose attempts have been counted from 0, without overflow.\<close>

definition counted :: "Message \<Rightarrow> bool" where
  "counted m \<longleftrightarrow> 0 \<le> m_Attempts m \<and> m_Attempts m < 2 ^ 63 - 1"

text \<open>The default coordinator with a positive base delay whose backoff fits 64 bits.\<close>

definition in_budget :: "'h handlerEntry \<Rightarrow> bool" where
  "in_budget entry \<longleftrightarrow> e_coordinator entry = None \<and> 0 < e_baseDelay entry \<and> e_baseDelay entry * 2 ^ nat (e_maxRetries entry) < 2 ^ 63"

text \<open>\<open>Subscribe\<close> returns for all calls of the consumer at once, and until the dispatcher's context is
  done the main goroutine and the dispatcher are at work.\<close>

fun at_work :: "'h disp_pc \<Rightarrow> bool" where
  "at_work DTop = True"
| "at_work DDeq = True"
| "at_work DEmpty = True"
| "at_work (DSubmit drain tasks) = (\<not> drain)"
| "at_work (DWait drain) = (\<not> drain)"
| "at_work _ = False"

definition polls_uniform :: "feed_pc list \<Rightarrow> bool" where
  "polls_uniform ps \<longleftrightarrow> FReturned \<notin> set ps \<or> (\<forall>p\<in>set ps. p = FReturned)"

definition orderly :: "('t, 's, 'h) sys \<Rightarrow> bool" where
  "orderly z \<longleftrightarrow> polls_uniform (z_polls z) \<and> (z_dispDone z \<or> z_main z = MSelect \<and> at_work (z_disp z))"

text \<open>Everything the progress argument relies on.\<close>

definition calm :: "(Message \<Rightarrow> bool) \<Rightarrow> ('s \<Rightarrow> bool) \<Rightarrow> ('t, 's, 'h) runtime \<Rightarrow> ('t, 's, 'h) sys \<Rightarrow> bool" where
  "calm P ok r z \<longleftrightarrow> sys_inv r z \<and> park_inv z \<and> orderly z \<and> (\<forall>m. JParked m \<notin># jobs (z_pool z)) \<and> all_msgs P z \<and>
     (z_main z \<noteq> MReturned \<longrightarrow> ok (x_store (z_world z)))"

text \<open>What worker steps that end no message in a local retry leave as it is.\<close>

definition by_workers :: "('t, 's, 'h) sys \<Rightarrow> ('t, 's, 'h) sys \<Rightarrow> bool" where
  "by_workers z z' \<longleftrightarrow> z_disp z' = z_disp z \<and> z_polls z' = z_polls z \<and> z_timer z' = z_timer z \<and> z_main z' = z_main z \<and>
     z_tick z' = z_tick z \<and> z_dispDone z' = z_dispDone z \<and> z_received z' = z_received z \<and>
     x_ring (z_world z') = x_ring (z_world z)"

text \<open>A bound on the worker steps a batch still takes.\<close>

definition outstanding :: "'h job pool \<Rightarrow> nat" where
  "outstanding p = 2 * length (p_workCh p) + length (running p)"

section \<open>The store\<close>

lemma filter_safeD:
  assumes "filter_safe ok r" and "rt_idemFilter r = Some f" and "ok s"
  shows "\<exists>kept dups evs s'. filterDuplicates f now s ms = Inr (kept, dups, evs, s') \<and> ok s'"
    and "\<exists>err s'. filter_mark f t s m = Inr (err, s') \<and> ok s'" and "\<exists>err s'. filter_close f s = Inr (err, s')"
  using assms by (auto simp: filter_safe_def)

lemma ack_each_store: "x_store (ack_each r dups w) = x_store w"
  by (induction dups arbitrary: w) (simp_all add: frame_simps)

lemma dispatch_returns:
  assumes "filter_safe ok r" and "ok (x_store w)"
  obtains tasks w' where "dispatchBatch r now batch w = Inr (tasks, w')" and "ok (x_store w')"
proof (cases "rt_idemFilter r")
  case (Some f)
  obtain kept dups evs s' where "filterDuplicates f now (x_store w) (assert_messages batch) = Inr (kept, dups, evs, s')" "ok s'"
    using filter_safeD(1)[OF assms(1) Some assms(2)] by blast
  with Some that show thesis by (simp add: dispatchBatch_def Let_def ack_each_store frame_simps)
qed (use that assms(2) in \<open>simp add: dispatchBatch_def\<close>)

lemma settle_Ack_returns:
  assumes "filter_safe ok r" and "ok (x_store w)"
  shows "\<exists>w'. settle_Ack r now msg out w = Inr (Finished, w') \<and> ok (x_store w')"
proof (cases "rt_idemFilter r")
  case None
  with assms(2) show ?thesis by (simp add: settle_Ack_def split_def Let_def frame_simps split: option.split)
next
  case (Some f)
  obtain err s' where "filter_mark f now (x_store w) (o_Message out) = Inr (err, s')" "ok s'"
    using filter_safeD(2)[OF assms(1) Some assms(2)] by blast
  with Some show ?thesis
    by (cases "fst (t_Ack (rt_transport r) (x_transport w) [o_Message out])")
      (simp_all add: settle_Ack_def split_def Let_def frame_simps)
qed

lemma switch_store:
  assumes "filter_safe ok r" and "ok (x_store w)"
  shows "\<exists>res w'. process_switch r now msg out w = Inr (res, w') \<and> ok (x_store w')"
proof (cases "o_Action out")
  case Ack
  with settle_Ack_returns[OF assms, of now msg out] show ?thesis by (auto simp: process_switch_def)
next
  case Retry
  with assms(2) show ?thesis by (simp add: process_switch_def settle_Retry_def enqueue_msg_def split_def Let_def frame_simps)
next
  case DLQ
  have "x_store (settle_DLQ r (m_Topic msg) (o_Message out) (o_Err out) w) = x_store w"
    by (simp add: settle_DLQ_def split_def Let_def frame_simps split: option.split)
  with DLQ assms(2) show ?thesis by (simp add: process_switch_def)
qed (use assms(2) in \<open>simp_all add: process_switch_def settle_RetryWithDelay_def frame_simps\<close>)

lemma task_store:
  assumes "filter_safe ok r" and "ok (x_store w)"
  shows "\<exists>res w'. run_task r now task w = Inr (res, w') \<and> ok (x_store w')"
proof (cases task)
  case (Process msg entry)
  obtain w1 where "x_store w1 = x_store w"
    "processMessage r now msg entry w = process_switch r now msg (outcome_of r (x_user w) msg entry) w1"
    by (rule processMessage_switch)
  with switch_store[OF assms(1), of w1] assms(2) Process show ?thesis by simp
next
  case (Unknown msg)
  have "x_store (handleUnknownTopic r msg w) = x_store w"
    by (simp add: handleUnknownTopic_def settle_DLQ_def split_def Let_def frame_simps split: option.split)
  with Unknown assms(2) show ?thesis by simp
qed

lemma task_returns:
  assumes "never_local_retry P r" and "P (task_msg task)" and "known_task r task" and "filter_safe ok r" and "ok (x_store w)"
  shows "\<exists>w'. run_task r now task w = Inr (Finished, w')"
  using task_store[OF assms(4,5), of now task] no_retry_task(1)[OF assms(1-3)] by metis

lemma store_frame:
  "enqueue_msg m w = (res, w') \<Longrightarrow> x_store w' = x_store w" "ring_resume m w = Some (e, w') \<Longrightarrow> x_store w' = x_store w"
  "poll_one r now m w = Inr (res, w') \<Longrightarrow> x_store w' = x_store w"
  by (auto simp: enqueue_msg_def ring_resume_def poll_one_def Let_def frame_simps split: if_splits prod.splits sum.splits)

lemma store_step:
  assumes "sys_step r z z'" and sf: "filter_safe ok r" and st: "ok (x_store (z_world z))"
  shows "z_main z' \<noteq> MReturned \<longrightarrow> ok (x_store (z_world z'))"
  using assms(1)
proof (cases rule: sys_step.cases)
  case poll
  then show ?thesis by (cases rule: poll_step.cases) (use st in \<open>auto simp: frame_simps dest!: store_frame\<close>)
next
  case timer
  then show ?thesis by (cases rule: timer_step.cases) (use st in \<open>auto simp: frame_simps dest!: store_frame\<close>)
next
  case disp
  then show ?thesis
  proof (cases rule: disp_step.cases)
    case (disp_batch drain batch b now tasks w)
    obtain tasks' w1 where "dispatchBatch r now batch ((z_world z)\<lparr>x_ring := b\<rparr>) = Inr (tasks', w1)" "ok (x_store w1)"
      using dispatch_returns[OF sf, of "(z_world z)\<lparr>x_ring := b\<rparr>" now batch] st by auto
    with disp_batch show ?thesis by simp
  qed (use st in simp_all)
next
  case work
  then show ?thesis
  proof (cases rule: work_step.cases)
    case (work_run i task now w pool)
    with task_store[OF sf st, of now task] show ?thesis by auto
  next
    case (work_park i task now m w)
    with task_store[OF sf st, of now task] show ?thesis by auto
  qed (use st in \<open>auto dest!: store_frame\<close>)
next
  case main
  then show ?thesis by (cases rule: main_step.cases) (use st in simp_all)
qed (use st in simp)

section \<open>Pipelines that qualify\<close>

lemma scaled_below:
  fixes base :: int
  assumes "0 < base" and "base * 2 ^ n < 2 ^ 63"
  shows "n < 63"
proof (rule ccontr)
  assume "\<not> n < 63"
  then have "(2::int) ^ 63 \<le> 2 ^ n" by (intro power_increasing) auto
  also have "\<dots> \<le> base * 2 ^ n" using assms(1) by (simp add: mult_le_cancel_right1)
  finally show False using assms(2) by simp
qed

lemma default_not_retry:
  assumes "in_budget entry" and "counted m"
  shows "o_Action (outcome_of r h m entry) \<noteq> Retry"
proof -
  obtain result h' where fn: "e_fn entry h (m_Payload m) = (result, h')" by fastforce
  have e: "e_coordinator entry = None" "0 < e_baseDelay entry" "e_baseDelay entry * 2 ^ nat (e_maxRetries entry) < 2 ^ 63"
    using assms(1) by (simp_all add: in_budget_def)
  have m: "0 \<le> m_Attempts m" "wrap64 (m_Attempts m + 1) = m_Attempts m + 1"
    using assms(2) by (auto simp: counted_def int64_def intro!: wrap64_id)
  show ?thesis
  proof (cases "m_Attempts m + 1 \<le> e_maxRetries entry")
    case True
    then have le: "nat (m_Attempts m) \<le> nat (e_maxRetries entry)" by simp
    have "m_Attempts m < 63" using scaled_below[OF e(2,3)] le by simp
    with default_outcome[OF e(1) m(1) _ e(2) scaled_delay[OF e(2) le e(3)] fn, of r] show ?thesis by (auto split: if_splits)
  next
    case False
    then show ?thesis using e(1) fn m(2)
      by (cases "r_Action result") (simp_all add: outcome_of_def resolveOutcome_def default_Handle_def default_retry_def Let_def)
  qed
qed

text \<open>Default coordinators never end in a local retry, whatever their handlers ask for.\<close>

lemma default_never_retries:
  "(\<And>topic entry. rt_handlers r topic = Some entry \<Longrightarrow> in_budget entry) \<Longrightarrow> never_local_retry counted r"
  using default_not_retry by (fastforce simp: never_local_retry_def)

lemma memory_loop_returns:
  "ms_inv s \<Longrightarrow> \<exists>kept dups evs s'. filter_loop f MemoryIdemStore now s ms = Inr (kept, dups, evs, s') \<and> ms_inv s'"
proof (induction ms arbitrary: now s)
  case (Cons m ms)
  show ?case
  proof (cases "smap_get (m_Attributes m) (f_attributeKey f)")
    case None
    with Cons.IH[OF Cons.prems, of "\<lambda>i. now (Suc i)"] show ?thesis by auto
  next
    case (Some key)
    obtain b s1 where s1: "st_Exists MemoryIdemStore s (now 0) key = Inr ((b, None), s1)" "ms_inv s1"
      using memory.exists_answers[OF Cons.prems, of "now 0" key] by blast
    with Cons.IH[OF s1(2), of "\<lambda>i. now (Suc i)"] Some show ?thesis by (cases b) auto
  qed
qed simp

text \<open>The memory store does not panic before it is closed.\<close>

lemma memory_filter_safe:
  assumes "\<And>f. rt_idemFilter r = Some f \<Longrightarrow> f_store f = Some MemoryIdemStore"
  shows "filter_safe ms_inv r"
  unfolding filter_safe_def
proof (intro allI impI conjI)
  fix f now s ms
  assume f: "rt_idemFilter r = Some f" and "ms_inv s"
  then show "\<exists>kept dups evs s'. filterDuplicates f now s ms = Inr (kept, dups, evs, s') \<and> ms_inv s'"
    using memory_loop_returns assms[OF f] by (simp add: filterDuplicates_def)
next
  fix f t s m
  assume f: "rt_idemFilter r = Some f" and "ms_inv s"
  then show "\<exists>err s'. filter_mark f t s m = Inr (err, s') \<and> ms_inv s'"
    using memory.mark_records assms[OF f] by (fastforce simp: filter_mark_def split: option.split)
next
  fix f s
  assume f: "rt_idemFilter r = Some f" and "ms_inv s"
  then show "\<exists>err s'. filter_close f s = Inr (err, s')"
    using assms[OF f] by (simp add: filter_close_def MemoryIdemStore_def ms_Close_def ms_inv_def)
qed

section \<open>Order of the shutdown\<close>

lemma polls_uniform_update:
  assumes "polls_uniform ps" and "j < length ps" and "ps ! j \<noteq> FReturned" and "q \<noteq> FReturned"
  shows "polls_uniform (ps[j := q])"
  using assms nth_mem[OF assms(2)] set_update_subset_insert[of ps j q] unfolding polls_uniform_def by auto

lemma after_not_returned: "after_enqueue res m ms \<noteq> FReturned" "after_resume e m ms \<noteq> FReturned"
  by (cases res, simp_all) (cases e, simp_all)

lemma orderly_step:
  assumes "sys_step r z z'" and "orderly z"
  shows "orderly z'"
  using assms(1)
proof (cases rule: sys_step.cases)
  case poll
  then show ?thesis
  proof (cases rule: poll_step.cases)
    case (poll_return err)
    with assms(2) show ?thesis by (auto simp: orderly_def polls_uniform_def)
  qed (use assms(2) in \<open>auto simp: orderly_def after_not_returned intro!: polls_uniform_update\<close>)
next
  case timer
  then show ?thesis by (cases rule: timer_step.cases) (use assms(2) in \<open>auto simp: orderly_def after_not_returned intro!: polls_uniform_update\<close>)
next
  case disp
  then show ?thesis
  proof (cases rule: disp_step.cases)
    case (disp_batch drain batch b now tasks w)
    with assms(2) show ?thesis by (auto simp: orderly_def split: if_splits)
  qed (use assms(2) in \<open>auto simp: orderly_def after_not_returned intro!: polls_uniform_update\<close>)
next
  case work
  then show ?thesis by (cases rule: work_step.cases) (use assms(2) in \<open>auto simp: orderly_def after_not_returned intro!: polls_uniform_update\<close>)
next
  case main
  then show ?thesis by (cases rule: main_step.cases) (use assms(2) in \<open>auto simp: orderly_def after_not_returned intro!: polls_uniform_update\<close>)
qed (use assms(2) in \<open>auto simp: orderly_def after_not_returned intro!: polls_uniform_update\<close>)

section \<open>No parked job\<close>

lemma no_park_work:
  assumes "work_step r z z'" and nr: "never_local_retry P r" and inv: "sys_inv r z" and all: "all_msgs P z"
    and np: "\<forall>m. JParked m \<notin># jobs (z_pool z)"
  shows "\<forall>m. JParked m \<notin># jobs (z_pool z')"
  using assms(1)
proof (cases rule: work_step.cases)
  case (work_take i pool)
  with np take_jobs[OF work_take(2,3,4)] show ?thesis by auto
next
  case (work_run i task now w pool)
  with np return_jobs[OF work_run(2,3,5)] show ?thesis by auto
next
  case (work_park i task now m w)
  with no_retry_task(1)[OF nr running_msg[OF inv all work_park(2,3)] work_park(4)] show ?thesis by simp
next
  case (work_resume i m err w pool)
  with np return_jobs[OF work_resume(2,3,5)] show ?thesis by auto
qed (use np in auto)

lemma no_park_step:
  assumes "sys_step r z z'" and nr: "never_local_retry P r" and inv: "sys_inv r z" and all: "all_msgs P z"
    and np: "\<forall>m. JParked m \<notin># jobs (z_pool z)"
  shows "\<forall>m. JParked m \<notin># jobs (z_pool z')"
  using assms(1)
proof (cases rule: sys_step.cases)
  case poll
  then show ?thesis by (cases rule: poll_step.cases) (use np in auto)
next
  case timer
  then show ?thesis by (cases rule: timer_step.cases) (use np in auto)
next
  case disp
  then show ?thesis
  proof (cases rule: disp_step.cases)
    case (disp_submit drain task tasks pool)
    with np submit_jobs[OF disp_submit(3)] show ?thesis by auto
  qed (use np in auto)
next
  case work
  then show ?thesis by (rule no_park_work[OF _ nr inv all np])
next
  case main
  then show ?thesis
  proof (cases rule: main_step.cases)
    case (main_poller pool)
    with np inv stop_jobs[OF main_poller(4)] show ?thesis by (auto simp: wait_inv_def sys_inv_def)
  qed (use np in auto)
qed (use np in auto)

section \<open>Calm pipelines\<close>

lemma returned_step: "sys_step r z z' \<Longrightarrow> z_main z = MReturned \<Longrightarrow> z_main z' = MReturned"
  by (erule sys_step.cases) (auto elim: poll_step.cases timer_step.cases disp_step.cases work_step.cases main_step.cases)

lemma calm_step:
  assumes "sys_step r z z'" and "coordinators_keep_ids r" and "never_local_retry P r" and "filter_safe ok r"
    and "hands_over P z z'" and "calm P ok r z"
  shows "calm P ok r z'"
proof -
  have i: "sys_inv r z" "park_inv z" "orderly z" "\<forall>m. JParked m \<notin># jobs (z_pool z)" "all_msgs P z"
    using assms(6) by (simp_all add: calm_def)
  have "z_main z' \<noteq> MReturned \<longrightarrow> ok (x_store (z_world z'))"
    using store_step[OF assms(1,4)] returned_step[OF assms(1)] assms(6) by (auto simp: calm_def)
  then show ?thesis
    using sys_inv_step[OF assms(1,2) i(1)] park_inv_step[OF assms(1) i(1,2)] orderly_step[OF assms(1) i(3)]
      no_park_step[OF assms(1,3) i(1,5,4)] all_msgs_step[OF assms(1) i(1) assms(3,5) i(5)]
    by (simp add: calm_def)
qed

lemma calm_run:
  "fed_run P r z z' \<Longrightarrow> coordinators_keep_ids r \<Longrightarrow> never_local_retry P r \<Longrightarrow> filter_safe ok r \<Longrightarrow> calm P ok r z \<Longrightarrow> calm P ok r z'"
  by (induction rule: fed_run.induct) (auto intro: calm_step)

lemma calm_start: "fresh_world w \<Longrightarrow> ok (x_store w) \<Longrightarrow> calm P ok r (sys_start w n k)"
  using sys_inv_start[of w r n k] park_inv_start[of w n k] all_msgs_start[of w P n k]
  by (auto simp: calm_def orderly_def polls_uniform_def sys_start_def started_jobs)

section \<open>A batch comes to its end\<close>

text \<open>While jobs are outstanding and none is parked, some worker can take a step that brings the end nearer.\<close>

lemma running_worker:
  assumes "job \<in> set (running p)"
  obtains i where "i < length (p_workers p)" and "p_workers p ! i = WRunning job"
proof -
  obtain w where w: "w \<in> set (p_workers p)" "job \<in> set (worker_task w)" using assms by (auto simp: running_def)
  have "w = WRunning job" by (cases w) (use w(2) in auto)
  with w(1) show thesis using that by (metis in_set_conv_nth)
qed

lemma size_running: "size (jobs p) = length (p_workCh p) + length (running p)"
  by (simp add: jobs_def)

lemma alive_all: "sum_list (map worker_alive ws) = length ws \<Longrightarrow> WExited \<notin> set ws"
proof (induction ws)
  case (Cons w ws)
  then show ?case using sum_list_alive_le[of ws] by (cases w) auto
qed simp

lemma worker_progress:
  assumes nr: "never_local_retry P r" and sf: "filter_safe ok r" and calm: "calm P ok r z" and main: "z_main z \<noteq> MReturned"
    and wg: "0 < z_wg z"
  shows "\<exists>z'. sys_step r z z' \<and> outstanding (z_pool z') < outstanding (z_pool z) \<and> by_workers z z'"
proof -
  have i: "phase_inv z" "wait_inv z" "task_inv r z" and inv: "sys_inv r z" and all: "all_msgs P z"
    and np: "\<forall>m. JParked m \<notin># jobs (z_pool z)" and st: "ok (x_store (z_world z))"
    using calm main by (simp_all add: calm_def sys_inv_def)
  have size: "0 < size (jobs (z_pool z))" using i(2) wg by (simp add: wait_inv_def)
  show ?thesis
  proof (cases "running (z_pool z)")
    case (Cons job rest)
    then obtain k where k: "k < length (p_workers (z_pool z))" "p_workers (z_pool z) ! k = WRunning job"
      using running_worker[of job "z_pool z"] by auto
    then have "job \<in># jobs (z_pool z)" by (rule job_running)
    then obtain task where job: "job = Job task" using np by (cases job) auto
    note known = running_msg[OF inv all k(1) k(2)[unfolded job]]
    obtain w where w: "run_task r (\<lparr>wall = 0, mono = 0\<rparr>) task (z_world z) = Inr (Finished, w)"
      using task_returns[OF nr known sf st] by blast
    obtain pool where pool: "worker_step (z_pool z) k = Some pool" using k by (simp add: worker_step_def)
    note ret = return_jobs[OF k pool]
    have "p_workCh pool = p_workCh (z_pool z)" using pool k by (auto simp: worker_step_def)
    moreover have "size (jobs (z_pool z)) = Suc (size (jobs pool))" using ret by simp
    ultimately have "outstanding pool < outstanding (z_pool z)" by (simp add: outstanding_def size_running)
    then show ?thesis
      using sys_work_run[OF k[unfolded job] w pool] no_retry_task(2)[OF nr known w]
      by (intro exI conjI) (assumption, simp_all add: by_workers_def)
  next
    case Nil
    then obtain job rest where ch: "p_workCh (z_pool z) = job # rest"
      using size by (cases "p_workCh (z_pool z)") (simp_all add: size_running)
    have alive: "alive (z_pool z) = length (p_workers (z_pool z))" "0 < length (p_workers (z_pool z))"
      using i(2) ch by (auto simp: wait_inv_def pool_inv_def)
    have "p_workers (z_pool z) ! 0 \<in> set (p_workers (z_pool z))" using alive(2) by simp
    moreover have "WExited \<notin> set (p_workers (z_pool z))"
      using alive(1) by (simp add: alive_def) (metis alive_all)
    moreover have "WRunning job' \<notin> set (p_workers (z_pool z))" for job'
      using Nil by (force simp: running_def)
    ultimately have idle: "p_workers (z_pool z) ! 0 = WIdle" by (metis worker.exhaust)
    obtain pool where pool: "worker_step (z_pool z) 0 = Some pool" "p_workCh pool = rest"
      using idle ch by (simp add: worker_step_def)
    have "size (jobs pool) = size (jobs (z_pool z))" using take_jobs[OF alive(2) idle pool(1)] by simp
    then have "outstanding pool < outstanding (z_pool z)" using pool(2) ch by (simp add: outstanding_def size_running)
    then show ?thesis using sys_work_take[OF alive(2) idle pool(1), of r]
      by (intro exI conjI) (assumption, simp_all add: by_workers_def)
  qed
qed

lemma batch_drains:
  assumes "coordinators_keep_ids r" and "never_local_retry P r" and "filter_safe ok r"
    and "calm P ok r z" and "z_main z \<noteq> MReturned"
  shows "\<exists>z'. sys_run r z z' \<and> z_wg z' = 0 \<and> by_workers z z'"
  using assms(4,5)
proof (induction "outstanding (z_pool z)" arbitrary: z rule: less_induct)
  case less
  show ?case
  proof (cases "0 < z_wg z")
    case True
    then obtain z1 where z1: "sys_step r z z1" "outstanding (z_pool z1) < outstanding (z_pool z)" "by_workers z z1"
      using worker_progress[OF assms(2,3) less.prems] by blast
    have same: "z_received z1 = z_received z" "z_main z1 = z_main z" using z1(3) by (simp_all add: by_workers_def)
    have "calm P ok r z1" by (rule calm_step[OF z1(1) assms(1-3) silent_step[OF z1(1) same(1)] less.prems(1)])
    with less.hyps[OF z1(2)] same(2) less.prems(2)
    obtain z' where z': "sys_run r z1 z'" "z_wg z' = 0" "by_workers z1 z'" by auto
    have "sys_run r z z'" by (rule sys_run_trans[OF sys_run.step[OF sys_run.refl z1(1)] z'(1)])
    moreover have "by_workers z z'" using z1(3) z'(3) by (simp add: by_workers_def)
    ultimately show ?thesis using z'(2) by blast
  next
    case False
    then have "z_wg z = 0" using less.prems(1) by (simp add: calm_def sys_inv_def wait_inv_def)
    then show ?thesis by (auto simp: by_workers_def intro: sys_run.refl)
  qed
qed

end
