(* ===== verification/Shutdown.thy ===== *)
theory Shutdown
  imports Progress
begin

text \<open>
  Whether \<open>Run\<close> returns. When no message that is received ends in a local retry (locale \<open>stoppable\<close>),
  it can be stopped gracefully from every state before a cancellation: the dispatcher and the
  workers empty the ring, the feeders finish, and after the cancellation each wait of the
  shutdown sequence is met. But it need not return: once
  the dispatcher has left, a call of the consumer with more messages than the ring has room
  for parks at the full ring, nobody is left to wake it, and the wait for the poller never ends.
\<close>

section \<open>States of a stop\<close>

text \<open>What a stretch of work of the dispatcher and the workers leaves as it is; the ring only gets shorter.\<close>

definition fed :: "('t, 's, 'h) sys \<Rightarrow> ('t, 's, 'h) sys \<Rightarrow> bool" where
  "fed z z' \<longleftrightarrow> z_polls z' = z_polls z \<and> z_timer z' = z_timer z \<and> z_dispDone z' = z_dispDone z \<and>
     z_received z' = z_received z \<and> length (contents (x_ring (z_world z'))) \<le> length (contents (x_ring (z_world z)))"

text \<open>What a feeder still has to do.\<close>

fun feed_load :: "feed_pc \<Rightarrow> nat" where
  "feed_load (FRunning ms) = 2 * length ms"
| "feed_load (FParked m ms) = Suc (2 * length ms)"
| "feed_load _ = 0"

definition load :: "('t, 's, 'h) sys \<Rightarrow> nat" where
  "load z = sum_list (map feed_load (z_polls z)) + feed_load (z_timer z)"

text \<open>A step of a feeder that leaves it less to do.\<close>

definition feeds_less :: "('t, 's, 'h) sys \<Rightarrow> ('t, 's, 'h) sys \<Rightarrow> bool" where
  "feeds_less z z' \<longleftrightarrow> load z' < load z \<and> z_dispDone z' = z_dispDone z \<and> z_received z' = z_received z"

text \<open>The feeders have returned and the ring is empty.\<close>

definition quiet :: "('t, 's, 'h) sys \<Rightarrow> bool" where
  "quiet z \<longleftrightarrow> (\<forall>p\<in>set (z_polls z). p = FReturned) \<and> z_timer z = FReturned \<and> contents (x_ring (z_world z)) = []"

text \<open>A cancelled pipeline whose dispatcher is at its \<open>select\<close> and whose ring is empty.\<close>

definition cancelled :: "('t, 's, 'h) sys \<Rightarrow> ('t, 's, 'h) sys \<Rightarrow> bool" where
  "cancelled z z' \<longleftrightarrow> z_disp z' = DTop \<and> z_main z' = MSelect \<and> z_ctx z' \<and> z_dispDone z' \<and> tk_ctxDone (z_tick z') \<and>
     contents (x_ring (z_world z')) = [] \<and> z_received z' = z_received z"

text \<open>
  The dispatcher has returned, no job is left, and a call of the consumer is parked at the jammed
  ring; the main goroutine is at most waiting for that call.
\<close>

definition wedged :: "('t, 's, 'h) sys \<Rightarrow> bool" where
  "wedged z \<longleftrightarrow> jammed (z_world z) \<and> z_disp z = DReturned \<and> jobs (z_pool z) = {#} \<and> p_started (z_pool z) \<and>
     (\<exists>p\<in>set (z_polls z). feed_parked p \<noteq> []) \<and> phase (z_main z) < 4"

section \<open>A pipeline that can be stopped\<close>

lemma fed_refl [simp]: "fed z z" by (simp add: fed_def)

lemma fed_trans: "fed z1 z2 \<Longrightarrow> fed z2 z3 \<Longrightarrow> fed z1 z3" by (simp add: fed_def)

lemma by_workers_fed: "by_workers z z' \<Longrightarrow> fed z z'" by (simp add: by_workers_def fed_def)

lemma load_fed: "fed z z' \<Longrightarrow> load z' = load z" by (simp add: load_def fed_def)

lemma load_update:
  assumes "j < length ps" and "feed_load q < feed_load (ps ! j)"
  shows "sum_list (map feed_load (ps[j := q])) < sum_list (map feed_load ps)"
  using sum_list_update_swap[OF assms(1), of feed_load q] assms(2) by linarith

text \<open>
  The contract of a pipeline that can be stopped: coordinators keep the identifiers, no message it
  receives ends in a local retry, the store of its filter does not panic, and closing the
  transport returns.
\<close>

locale stoppable =
  fixes P :: "Message \<Rightarrow> bool" and ok :: "'s \<Rightarrow> bool" and r :: "('t, 's, 'h) runtime"
  assumes keep: "coordinators_keep_ids r"
    and no_retry: "never_local_retry P r"
    and safe: "filter_safe ok r"
    and close_returns: "\<exists>err t'. t_Close (rt_transport r) t = Inr (err, t')"
begin

lemma calm_after: "sys_run r z z' \<Longrightarrow> calm P ok r z \<Longrightarrow> z_received z' = z_received z \<Longrightarrow> calm P ok r z'"
  by (rule calm_run[OF silent_run keep no_retry safe])

lemma calm_working: "calm P ok r z \<Longrightarrow> \<not> z_dispDone z \<Longrightarrow> z_main z \<noteq> MReturned"
  by (simp add: calm_def orderly_def)

lemma workers_finish:
  assumes "calm P ok r z" and "z_main z \<noteq> MReturned"
  obtains z' where "sys_run r z z'" "z_wg z' = 0" "jobs (z_pool z') = {#}" "by_workers z z'" "calm P ok r z'"
proof -
  obtain z' where z': "sys_run r z z'" "z_wg z' = 0" "by_workers z z'"
    using batch_drains[OF keep no_retry safe assms] by blast
  have "calm P ok r z'" by (rule calm_after[OF z'(1) assms(1)]) (use z'(3) in \<open>simp add: by_workers_def\<close>)
  with z' that show thesis by (auto simp: calm_def sys_inv_def wait_inv_def)
qed

lemma submit_all:
  assumes "calm P ok r z" and "z_disp z = DSubmit False tasks" and "\<not> z_dispDone z"
  shows "\<exists>z'. sys_run r z z' \<and> z_disp z' = DSubmit False [] \<and> fed z z'"
  using assms
proof (induction tasks arbitrary: z)
  case Nil
  then show ?case by (auto intro: sys_run.refl)
next
  case (Cons task tasks)
  obtain z1 where z1: "sys_run r z z1" "jobs (z_pool z1) = {#}" "by_workers z z1" "calm P ok r z1"
    using workers_finish[OF Cons.prems(1) calm_working[OF Cons.prems(1,3)]] by blast
  have pool: "p_workCh (z_pool z1) = []" using z1(2) by (simp add: jobs_def)
  have disp: "z_disp z1 = DSubmit False (task # tasks)" "\<not> z_dispDone z1"
    using z1(3) Cons.prems by (simp_all add: by_workers_def)
  then have "\<not> p_closed (z_pool z1)" "1 \<le> p_cap (z_pool z1)"
    using z1(4) by (auto simp: calm_def orderly_def sys_inv_def wait_inv_def pool_inv_def)
  then obtain p where p: "pool_Submit (z_pool z1) (Job task) = Inr (Some p)" using pool by (simp add: pool_Submit_def)
  let ?z2 = "z1\<lparr>z_disp := DSubmit False tasks, z_pool := p, z_wg := z_wg z1 + 1\<rparr>"
  have run2: "sys_run r z ?z2" by (rule sys_run.step[OF z1(1) sys_disp_submit[OF disp(1) p]])
  obtain z' where z': "sys_run r ?z2 z'" "z_disp z' = DSubmit False []" "fed ?z2 z'"
    using Cons.IH[of ?z2] calm_after[OF run2 Cons.prems(1)] disp(2) z1(3) by (auto simp: by_workers_def)
  have "fed z z'" using z'(3) by_workers_fed[OF z1(3)] by (simp add: fed_def)
  with sys_run_trans[OF run2 z'(1)] z'(2) show ?case by blast
qed

lemma finish_wait:
  assumes "calm P ok r z" and "z_disp z = DWait False" and "\<not> z_dispDone z"
  shows "\<exists>z'. sys_run r z z' \<and> z_disp z' = DTop \<and> fed z z'"
proof -
  obtain z1 where z1: "sys_run r z z1" "z_wg z1 = 0" "by_workers z z1"
    using workers_finish[OF assms(1) calm_working[OF assms(1,3)]] by blast
  then have "z_disp z1 = DWait False" using assms(2) by (simp add: by_workers_def)
  from sys_run.step[OF z1(1) sys_disp_wait[OF this z1(2)]] by_workers_fed[OF z1(3)] show ?thesis
    by (auto simp: fed_def)
qed

lemma finish_submit:
  assumes "calm P ok r z" and "z_disp z = DSubmit False tasks" and "\<not> z_dispDone z"
  shows "\<exists>z'. sys_run r z z' \<and> z_disp z' = DTop \<and> fed z z'"
proof -
  obtain z1 where z1: "sys_run r z z1" "z_disp z1 = DSubmit False []" "fed z z1" using submit_all[OF assms] by blast
  have run2: "sys_run r z (z1\<lparr>z_disp := DWait False\<rparr>)" by (rule sys_run.step[OF z1(1) sys_disp_submitted[OF z1(2)]])
  obtain z' where "sys_run r (z1\<lparr>z_disp := DWait False\<rparr>) z'" "z_disp z' = DTop" "fed (z1\<lparr>z_disp := DWait False\<rparr>) z'"
    using finish_wait[OF calm_after[OF run2 assms(1)]] z1(3) assms(3) by (auto simp: fed_def)
  with sys_run_trans[OF run2] z1(3) show ?thesis by (fastforce simp: fed_def)
qed

lemma dequeue_round:
  assumes "calm P ok r z" and "z_disp z = DDeq" and "\<not> z_dispDone z"
  shows "\<exists>z'. sys_run r z z' \<and> z_disp z' = DTop \<and> fed z z' \<and>
    (contents (x_ring (z_world z)) \<noteq> [] \<longrightarrow> length (contents (x_ring (z_world z'))) < length (contents (x_ring (z_world z))))"
proof -
  have inv: "ring_inv (x_ring (z_world z))" using assms(1) by (simp add: calm_def sys_inv_def shared_inv_def)
  obtain batch b where d: "DequeueBatch (x_ring (z_world z)) 10 = (batch, b)" by fastforce
  have b: "length batch = min 10 (length (contents (x_ring (z_world z))))"
    "length (contents b) = length (contents (x_ring (z_world z))) - length batch"
    using DequeueBatch_correct[OF inv d] by (simp_all add: batch_size_def)
  show ?thesis
  proof (cases batch)
    case Nil
    let ?z1 = "z\<lparr>z_disp := DEmpty, z_world := (z_world z)\<lparr>x_ring := b\<rparr>\<rparr>"
    have "sys_run r z ?z1"
      using sys_disp_none[OF assms(2), of b r] d Nil by (auto intro: sys_run.intros)
    from sys_run.step[OF this sys_disp_empty] assms(3)
    have "sys_run r z (z\<lparr>z_world := (z_world z)\<lparr>x_ring := b\<rparr>, z_disp := DTop\<rparr>)" by simp
    moreover have "length (contents (x_ring (z_world z))) = 0" using b(1) Nil by (simp add: min_def split: if_splits)
    then have "contents (x_ring (z_world z)) = []" by (simp only: length_0_conv)
    ultimately show ?thesis using b(2) by (intro exI conjI) (assumption, simp_all add: fed_def)
  next
    case (Cons x xs)
    let ?w = "(z_world z)\<lparr>x_ring := b\<rparr>" and ?now = "\<lambda>_. \<lparr>wall = 0, mono = 0\<rparr>"
    have "ok (x_store ?w)" using assms(1) calm_working[OF assms(1,3)] by (simp add: calm_def)
    then obtain tasks w where d1: "dispatchBatch r ?now batch ?w = Inr (tasks, w)" by (rule dispatch_returns[OF safe])
    have ring: "x_ring w = b" using dispatchBatch_ids(1)[OF d1] by simp
    have "sys_step r z (z\<lparr>z_disp := DSubmit False tasks, z_world := w, z_calls := z_calls z @ dispatch_calls r ?now batch ?w\<rparr>)"
      (is "sys_step r z ?z1")
      using sys_disp_batch[of z False batch b r ?now tasks w] assms(2) d d1 Cons by simp
    then have run1: "sys_run r z ?z1" by (rule sys_run.step[OF sys_run.refl])
    obtain z' where z': "sys_run r ?z1 z'" "z_disp z' = DTop" "fed ?z1 z'"
      using finish_submit[OF calm_after[OF run1 assms(1)]] assms(3) by auto
    have "length (contents b) < length (contents (x_ring (z_world z)))" using b Cons by (cases "contents (x_ring (z_world z))") auto
    with sys_run_trans[OF run1 z'(1)] z'(2,3) ring show ?thesis by (fastforce simp: fed_def)
  qed
qed

lemma to_top:
  assumes "calm P ok r z" and "\<not> z_dispDone z"
  shows "\<exists>z'. sys_run r z z' \<and> z_disp z' = DTop \<and> fed z z'"
proof -
  have "at_work (z_disp z)" using assms by (simp add: calm_def orderly_def)
  then show ?thesis
  proof (cases "z_disp z")
    case DTop
    then show ?thesis by (auto intro: sys_run.refl)
  next
    case DDeq
    from dequeue_round[OF assms(1) this assms(2)] show ?thesis by blast
  next
    case DEmpty
    from sys_run.step[OF sys_run.refl sys_disp_empty[OF this]] assms(2) show ?thesis by (fastforce simp: fed_def)
  next
    case (DSubmit drain tasks)
    with \<open>at_work (z_disp z)\<close> finish_submit[OF assms(1) _ assms(2)] show ?thesis by simp
  next
    case (DWait drain)
    with \<open>at_work (z_disp z)\<close> finish_wait[OF assms(1) _ assms(2)] show ?thesis by simp
  qed simp_all
qed

lemma empty_ring:
  assumes "calm P ok r z" and "\<not> z_dispDone z"
  shows "\<exists>z'. sys_run r z z' \<and> z_disp z' = DTop \<and> fed z z' \<and> contents (x_ring (z_world z')) = []"
  using assms
proof (induction "length (contents (x_ring (z_world z)))" arbitrary: z rule: less_induct)
  case less
  obtain z1 where z1: "sys_run r z z1" "z_disp z1 = DTop" "fed z z1" using to_top[OF less.prems] by blast
  have done1: "\<not> z_dispDone z1" using z1(3) less.prems(2) by (simp add: fed_def)
  show ?case
  proof (cases "contents (x_ring (z_world z1)) = []")
    case False
    let ?z2 = "z1\<lparr>z_disp := DDeq\<rparr>"
    have run2: "sys_run r z ?z2" using sys_run.step[OF z1(1) sys_disp_top[OF z1(2)]] done1 by simp
    obtain z3 where z3: "sys_run r ?z2 z3" "fed ?z2 z3" "length (contents (x_ring (z_world z3))) < length (contents (x_ring (z_world z1)))"
      using dequeue_round[OF calm_after[OF run2 less.prems(1)]] done1 z1(3) False by (auto simp: fed_def)
    have run3: "sys_run r z z3" by (rule sys_run_trans[OF run2 z3(1)])
    have fed3: "fed z z3" "length (contents (x_ring (z_world z3))) < length (contents (x_ring (z_world z)))"
      using z1(3) z3(2,3) by (simp_all add: fed_def)
    obtain z' where "sys_run r z3 z'" "z_disp z' = DTop" "fed z3 z'" "contents (x_ring (z_world z')) = []"
      using less.hyps[OF fed3(2) calm_after[OF run3 less.prems(1)]] fed3(1) less.prems(2) by (auto simp: fed_def)
    with sys_run_trans[OF run3] fed_trans[OF fed3(1)] show ?thesis by blast
  qed (use z1 in blast)
qed

end

section \<open>The feeders\<close>

lemma calm_open:
  assumes "calm P ok r z" and "\<not> z_dispDone z"
  shows "open_world (z_world z)" and "z_main z = MSelect"
proof -
  show "z_main z = MSelect" using assms by (simp add: calm_def orderly_def)
  then show "open_world (z_world z)" using assms(1) open_sys[of z] by (simp add: calm_def sys_inv_def)
qed

text \<open>While the ring is empty and somebody is parked at it, somebody has been woken.\<close>

lemma somebody_woken:
  assumes "calm P ok r z" and "contents (x_ring (z_world z)) = []" and "parked_msgs z \<noteq> {#}"
  obtains m where "Some m \<in> set (woken (b_cond (x_ring (z_world z))))" and "m \<in># parked_msgs z"
proof -
  let ?b = "x_ring (z_world z)"
  have pk: "mset (waiting (b_cond ?b)) + mset (woken (b_cond ?b)) = image_mset Some (parked_msgs z)" "wake_inv ?b" "ring_inv ?b"
    using assms(1) by (auto simp: calm_def park_inv_def parked_def sys_inv_def shared_inv_def)
  have "woken (b_cond ?b) \<noteq> []"
  proof
    assume none: "woken (b_cond ?b) = []"
    then have "waiting (b_cond ?b) \<noteq> []" using pk(1) assms(3) by auto
    then have "ring_cap ?b = 0" using pk(2) none assms(2) by (simp add: wake_inv_def)
    with ring_cap_pos[OF pk(3)] show False by simp
  qed
  then obtain x where x: "x \<in> set (woken (b_cond ?b))" by (metis last_in_set)
  then have "x \<in># image_mset Some (parked_msgs z)" by (simp flip: pk(1))
  then show thesis using that x by auto
qed

lemma ring_resume_returns:
  assumes "open_world w" and "contents (x_ring w) = []" and "Some m \<in> set (woken (b_cond (x_ring w)))"
  shows "\<exists>err w'. ring_resume m w = Some (Returned err, w')"
proof -
  have inv: "ring_inv (x_ring w)" "\<not> b_closed (x_ring w)" using assms(1) by (simp_all add: open_world_def)
  obtain e b where e: "Enqueue_resume (x_ring w) (Some m) = (e, b)" by fastforce
  have "e = Returned None"
    using Enqueue_resume_correct[OF inv(1) e] inv(2) assms(2) ring_cap_pos[OF inv(1)] by simp
  with e assms(3) show ?thesis by (simp add: ring_resume_def)
qed

lemma feed_parked_load: "m \<in> set (feed_parked p) \<Longrightarrow> \<exists>ms. p = FParked m ms"
  by (cases p) auto

lemma feed_load_pos: "0 < feed_load p \<Longrightarrow> (\<exists>m ms. p = FRunning (m # ms)) \<or> feed_parked p \<noteq> []"
proof (cases p)
  case (FRunning ms)
  moreover assume "0 < feed_load p"
  ultimately show ?thesis by (cases ms) auto
qed auto

lemma parked_feeder:
  assumes "calm P ok r z" and "m \<in># parked_msgs z"
  obtains (poll) j ms where "j < length (z_polls z)" "z_polls z ! j = FParked m ms"
  | (timer) ms where "z_timer z = FParked m ms"
proof -
  have "m \<notin># sum_mset (image_mset (\<lambda>job. mset (job_parked job)) (jobs (z_pool z)))"
  proof
    assume "m \<in># sum_mset (image_mset (\<lambda>job. mset (job_parked job)) (jobs (z_pool z)))"
    then obtain job where "job \<in># jobs (z_pool z)" "m \<in> set (job_parked job)" by auto
    then show False using assms(1) by (cases job) (auto simp: calm_def)
  qed
  then consider p where "p \<in> set (z_polls z)" "m \<in> set (feed_parked p)" | "m \<in> set (feed_parked (z_timer z))"
    using assms(2) by (auto simp: parked_msgs_def)
  then show thesis
  proof cases
    case (1 p)
    then obtain j where "j < length (z_polls z)" "z_polls z ! j = p" by (metis in_set_conv_nth)
    with 1(2) feed_parked_load poll show thesis by metis
  next
    case 2
    with feed_parked_load timer show thesis by metis
  qed
qed

lemma loaded_feeder: "0 < sum_list (map feed_load ps) \<Longrightarrow> \<exists>p\<in>set ps. 0 < feed_load p"
  by (induction ps) auto

lemma after_load:
  "feed_load (after_enqueue res m ms) < feed_load (FRunning (m # ms))"
  "feed_load (after_resume (Returned err) m ms) < feed_load (FParked m ms)"
  by (cases res) simp_all

lemma running_feeder_step:
  assumes "open_world (z_world z)" and "p \<in> set (z_polls z) \<or> p = z_timer z" and p: "p = FRunning (m # ms)"
  shows "\<exists>z'. sys_step r z z' \<and> feeds_less z z'"
  using assms(2)
proof
  assume "p \<in> set (z_polls z)"
  then obtain j where j: "j < length (z_polls z)" "z_polls z ! j = FRunning (m # ms)" using p by (metis in_set_conv_nth)
  obtain res w where one: "poll_one r \<lparr>wall = 0, mono = 0\<rparr> m (z_world z) = Inr (res, w)" using poll_one_ok[OF assms(1)] by blast
  have "sum_list (map feed_load ((z_polls z)[j := after_enqueue res m ms])) < sum_list (map feed_load (z_polls z))"
    by (rule load_update[OF j(1)]) (use after_load(1) j(2) in simp)
  with sys_poll_message[OF j one] show ?thesis
    by (intro exI conjI) (assumption, simp add: feeds_less_def load_def)
next
  assume t: "p = z_timer z"
  obtain res w where "enqueue_msg m (z_world z) = (res, w)" by fastforce
  from sys_timer_message[OF _ this] t p have "sys_step r z (z\<lparr>z_timer := after_enqueue res m ms, z_world := w\<rparr>)" by simp
  moreover have "feed_load (after_enqueue res m ms) < feed_load (z_timer z)" using after_load(1) t p by metis
  ultimately show ?thesis by (intro exI conjI) (assumption, simp add: feeds_less_def load_def)
qed

lemma parked_feeder_step:
  assumes "calm P ok r z" and "\<not> z_dispDone z" and "contents (x_ring (z_world z)) = []" and "parked_msgs z \<noteq> {#}"
  shows "\<exists>z'. sys_step r z z' \<and> feeds_less z z'"
proof -
  obtain m where m: "Some m \<in> set (woken (b_cond (x_ring (z_world z))))" "m \<in># parked_msgs z"
    using somebody_woken[OF assms(1,3,4)] .
  obtain err w where res: "ring_resume m (z_world z) = Some (Returned err, w)"
    using ring_resume_returns[OF calm_open(1)[OF assms(1,2)] assms(3) m(1)] by blast
  from assms(1) m(2) show ?thesis
  proof (cases rule: parked_feeder)
    case (poll j ms)
    have "sum_list (map feed_load ((z_polls z)[j := after_resume (Returned err) m ms])) < sum_list (map feed_load (z_polls z))"
      by (rule load_update[OF poll(1)]) (use after_load(2) poll(2) in simp)
    with sys_poll_resume[OF poll res] show ?thesis
      by (intro exI conjI) (assumption, simp add: feeds_less_def load_def)
  next
    case (timer ms)
    have "feed_load (after_resume (Returned err) m ms) < feed_load (z_timer z)" using after_load(2) timer by metis
    with sys_timer_resume[OF timer res] show ?thesis
      by (intro exI conjI) (assumption, simp add: feeds_less_def load_def)
  qed
qed

lemma feeder_step:
  assumes "calm P ok r z" and "\<not> z_dispDone z" and "contents (x_ring (z_world z)) = []" and "0 < load z"
  shows "\<exists>z'. sys_step r z z' \<and> feeds_less z z'"
proof -
  obtain p where p: "p \<in> set (z_polls z) \<or> p = z_timer z" "0 < feed_load p"
    using assms(4) loaded_feeder[of "z_polls z"] by (auto simp: load_def)
  from feed_load_pos[OF p(2)] show ?thesis
  proof
    assume "\<exists>m ms. p = FRunning (m # ms)"
    with running_feeder_step[OF calm_open(1)[OF assms(1,2)] p(1)] show ?thesis by blast
  next
    assume "feed_parked p \<noteq> []"
    then have "parked_msgs z \<noteq> {#}" using p(1) by (auto simp: parked_msgs_def)
    from parked_feeder_step[OF assms(1-3) this] show ?thesis .
  qed
qed

context stoppable
begin

lemma feeders_finish:
  assumes "calm P ok r z" and "\<not> z_dispDone z"
  shows "\<exists>z'. sys_run r z z' \<and> z_disp z' = DTop \<and> contents (x_ring (z_world z')) = [] \<and> load z' = 0 \<and>
    \<not> z_dispDone z' \<and> z_received z' = z_received z"
  using assms
proof (induction "load z" arbitrary: z rule: less_induct)
  case less
  obtain z1 where z1: "sys_run r z z1" "z_disp z1 = DTop" "fed z z1" "contents (x_ring (z_world z1)) = []"
    using empty_ring[OF less.prems] by blast
  have done1: "\<not> z_dispDone z1" "z_received z1 = z_received z" using z1(3) less.prems(2) by (simp_all add: fed_def)
  have calm1: "calm P ok r z1" by (rule calm_after[OF z1(1) less.prems(1) done1(2)])
  show ?case
  proof (cases "load z1 = 0")
    case False
    then obtain z2 where z2: "sys_step r z1 z2" "feeds_less z1 z2"
      using feeder_step[OF calm1 done1(1) z1(4)] by auto
    have run2: "sys_run r z z2" by (rule sys_run.step[OF z1(1) z2(1)])
    have less2: "load z2 < load z" "\<not> z_dispDone z2" "z_received z2 = z_received z"
      using z2(2) load_fed[OF z1(3)] done1 by (simp_all add: feeds_less_def)
    with less.hyps[of z2] calm_after[OF run2 less.prems(1) less2(3)] sys_run_trans[OF run2] show ?thesis by metis
  qed (use z1 done1 in blast)
qed

end

section \<open>The stop\<close>

lemma filter_update_less:
  assumes "j < length xs" and "P (xs ! j)" and "\<not> P x"
  shows "length (filter P (xs[j := x])) < length (filter P xs)"
  using assms
proof (induction xs arbitrary: j)
  case (Cons y ys)
  then show ?case by (cases j) auto
qed simp

lemma feed_load_0: "feed_load p = 0 \<Longrightarrow> p \<in> {FIdle, FReturned, FRunning []}"
  by (cases p) simp_all

text \<open>The calls of the consumer that have nothing left return, one after the other.\<close>

lemma polls_settle:
  assumes "\<forall>p\<in>set (z_polls z). feed_load p = 0"
  shows "\<exists>ps. sys_run r z (z\<lparr>z_polls := ps\<rparr>) \<and> (\<forall>p\<in>set ps. p \<in> {FIdle, FReturned})"
  using assms
proof (induction "length (filter (\<lambda>p. p = FRunning []) (z_polls z))" arbitrary: z rule: less_induct)
  case less
  show ?case
  proof (cases "FRunning [] \<in> set (z_polls z)")
    case True
    then obtain j where j: "j < length (z_polls z)" "z_polls z ! j = FRunning []" by (metis in_set_conv_nth)
    let ?z1 = "z\<lparr>z_polls := (z_polls z)[j := FIdle]\<rparr>"
    have run1: "sys_run r z ?z1" by (rule sys_run.step[OF sys_run.refl sys_poll_next[OF j]])
    have "length (filter (\<lambda>p. p = FRunning []) ((z_polls z)[j := FIdle])) < length (filter (\<lambda>p. p = FRunning []) (z_polls z))"
      by (rule filter_update_less[OF j(1)]) (simp_all add: j(2))
    moreover have "\<forall>p\<in>set (z_polls ?z1). feed_load p = 0"
      using less.prems set_update_subset_insert[of "z_polls z" j FIdle] by auto
    ultimately obtain ps where "sys_run r ?z1 (?z1\<lparr>z_polls := ps\<rparr>)" "\<forall>p\<in>set ps. p \<in> {FIdle, FReturned}"
      using less.hyps[of ?z1] by auto
    with sys_run_trans[OF run1] show ?thesis by fastforce
  next
    case False
    have "p \<in> {FIdle, FReturned}" if "p \<in> set (z_polls z)" for p
      using that False feed_load_0[OF bspec[OF less.prems that]] by auto
    then show ?thesis by (intro exI[of _ "z_polls z"]) (simp add: sys_run.refl)
  qed
qed

context stoppable
begin

lemma polls_return:
  assumes "calm P ok r z" and "load z = 0" and "z_disp z = DTop" and "contents (x_ring (z_world z)) = []" and "\<not> z_dispDone z"
  shows "\<exists>z'. sys_run r z z' \<and> cancelled z z' \<and> (\<forall>p\<in>set (z_polls z'). p = FReturned) \<and> z_timer z' = z_timer z"
proof -
  let ?z1 = "z\<lparr>z_ctx := True, z_dispDone := True, z_pollDone := True, z_tick := (z_tick z)\<lparr>tk_ctxDone := True\<rparr>\<rparr>"
  have run1: "sys_run r z ?z1" by (rule sys_run.step[OF sys_run.refl sys_step.cancel])
  obtain ps where ps: "sys_run r ?z1 (?z1\<lparr>z_polls := ps\<rparr>)" "\<forall>p\<in>set ps. p \<in> {FIdle, FReturned}"
    using polls_settle[of ?z1 r] assms(2) by (auto simp: load_def)
  define z2 where "z2 = ?z1\<lparr>z_polls := ps\<rparr>"
  have run2: "sys_run r z z2" unfolding z2_def by (rule sys_run_trans[OF run1 ps(1)])
  have z2: "cancelled z z2" "z_timer z2 = z_timer z" "z_polls z2 = ps"
    using calm_open(2)[OF assms(1,5)] assms(3,4) by (simp_all add: z2_def cancelled_def)
  have uni: "polls_uniform ps" using calm_after[OF run2 assms(1)] z2(1,3) by (simp add: cancelled_def calm_def orderly_def)
  show ?thesis
  proof (cases "\<forall>p\<in>set ps. p = FReturned")
    case False
    then have "\<forall>p\<in>set (z_polls z2). p = FIdle" using uni ps(2) z2(3) by (auto simp: polls_uniform_def)
    from sys_run.step[OF run2 sys_poll_return[OF this, of r None]] z2 show ?thesis
      by (intro exI conjI) (assumption, simp_all add: cancelled_def)
  qed (use run2 z2 in blast)
qed

lemma timer_returns:
  assumes "sys_run r z z1" and "cancelled z z1" and "\<forall>p\<in>set (z_polls z1). p = FReturned" and "feed_load (z_timer z1) = 0"
  shows "\<exists>z'. sys_run r z z' \<and> cancelled z z' \<and> quiet z'"
proof -
  have idle: ?thesis if "sys_run r z z2" "cancelled z z2" "\<forall>p\<in>set (z_polls z2). p = FReturned" "z_timer z2 = FIdle" for z2
  proof -
    have "sys_step r z2 (z2\<lparr>z_timer := FReturned\<rparr>)" using that(2,4) by (auto simp: cancelled_def intro: sys_timer_return)
    from sys_run.step[OF that(1) this] that(2,3) show ?thesis
      by (intro exI conjI) (assumption, simp_all add: cancelled_def quiet_def)
  qed
  show ?thesis
  proof (cases "z_timer z1")
    case (FRunning ms)
    then have "z_timer z1 = FRunning []" using assms(4) by simp
    from sys_run.step[OF assms(1) sys_timer_next[OF this]] show ?thesis
      by (rule idle) (use assms(2,3) in \<open>simp_all add: cancelled_def\<close>)
  qed (use assms idle in \<open>auto simp: cancelled_def quiet_def\<close>)
qed

text \<open>The dispatcher leaves, then the main goroutine works through its waits.\<close>

lemma main_to_pool:
  assumes "calm P ok r z" and "cancelled z0 z" and "quiet z"
  shows "\<exists>z'. sys_run r z z' \<and> quiet z' \<and> z_main z' = MWaitPool \<and> jobs (z_pool z') = {#} \<and> z_received z' = z_received z0"
proof -
  have c: "z_disp z = DTop" "z_main z = MSelect" "z_ctx z" "z_dispDone z" "contents (x_ring (z_world z)) = []"
    "z_received z = z_received z0" using assms(2) by (simp_all add: cancelled_def)
  have i: "ring_inv (x_ring (z_world z))" "p_started (z_pool z)" "\<not> p_closed (z_pool z)" "jobs (z_pool z) = {#}"
    using assms(1) c(1,2) by (auto simp: calm_def sys_inv_def shared_inv_def wait_inv_def)
  obtain batch b where d: "DequeueBatch (x_ring (z_world z)) 100 = (batch, b)" by fastforce
  then have b: "batch = []" "contents b = []" using DequeueBatch_correct[OF i(1) d] c(5) by simp_all
  obtain err t where cl: "t_Close (rt_transport r) (x_transport (z_world z)) = Inr (err, t)" using close_returns by blast
  obtain p where p: "pool_StopDispatching (z_pool z) = Inr p" "jobs p = {#}"
    using stop_jobs[of "z_pool z"] i(2-4) by (simp add: pool_StopDispatching_def)
  define z1 where "z1 = z\<lparr>z_main := MWaitDisp, z_dispDone := True\<rparr>"
  have r1: "sys_run r z z1" unfolding z1_def by (intro sys_run.step[OF sys_run.refl] sys_main_select) (use c in simp_all)
  define z2 where "z2 = z1\<lparr>z_disp := DDrain\<rparr>"
  have r2: "sys_run r z z2" using sys_run.step[OF r1 sys_disp_top] c by (simp add: z2_def z1_def)
  define z3 where "z3 = z2\<lparr>z_disp := DReturned, z_world := (z_world z)\<lparr>x_ring := b\<rparr>\<rparr>"
  have r3: "sys_run r z z3" using sys_run.step[OF r2 sys_disp_drained] d b by (simp add: z3_def z2_def z1_def)
  define z4 where "z4 = z3\<lparr>z_main := MWaitTimer, z_tick := (z_tick z3)\<lparr>tk_ctxDone := True\<rparr>\<rparr>"
  have r4: "sys_run r z z4" using sys_run.step[OF r3 sys_main_disp] by (simp add: z4_def z3_def z2_def z1_def)
  define z5 where "z5 = z4\<lparr>z_main := MWaitPoller, z_world := (z_world z4)\<lparr>x_transport := t\<rparr>, z_calls := z_calls z4 @ [CClose]\<rparr>"
  note zs = z5_def z4_def z3_def z2_def z1_def
  have "sys_step r z4 z5" unfolding z5_def
    by (rule sys_main_timer) (use cl assms(3) in \<open>simp_all add: zs quiet_def\<close>)
  then have r5: "sys_run r z z5" by (rule sys_run.step[OF r4])
  have "sys_step r z5 (z5\<lparr>z_main := MWaitPool, z_pool := p\<rparr>)"
    by (rule sys_main_poller) (use p assms(3) in \<open>simp_all add: zs quiet_def\<close>)
  from sys_run.step[OF r5 this] assms(3) b(2) p(2) c(6) show ?thesis
    by (intro exI conjI) (assumption, simp_all add: zs quiet_def)
qed

end

text \<open>The workers leave the closed, empty channel.\<close>

lemma live_worker: "0 < sum_list (map worker_alive ws) \<Longrightarrow> \<exists>i<length ws. ws ! i \<noteq> WExited"
proof (induction ws)
  case (Cons x xs)
  then show ?case by (cases x) (auto intro: exI[of _ 0])
qed simp

context stoppable
begin

lemma worker_leaves:
  assumes "calm P ok r z" and "z_main z = MWaitPool" and "jobs (z_pool z) = {#}" and "0 < alive (z_pool z)"
  shows "\<exists>p. sys_step r z (z\<lparr>z_pool := p\<rparr>) \<and> jobs p = {#} \<and> alive p < alive (z_pool z)"
proof -
  let ?p = "z_pool z"
  obtain i where i: "i < length (p_workers ?p)" "p_workers ?p ! i \<noteq> WExited"
    using live_worker[of "p_workers ?p"] assms(4) by (auto simp: alive_def)
  have empty: "p_workCh ?p = []" "running ?p = []" using assms(3) by (simp_all add: jobs_def)
  have "p_closed ?p" using assms(1,2) by (simp add: calm_def sys_inv_def wait_inv_def)
  moreover have idle: "p_workers ?p ! i = WIdle"
    using i empty(2) job_running[OF i(1)] assms(3) by (cases "p_workers ?p ! i") auto
  ultimately obtain p where p: "worker_step ?p i = Some p" "p_workers p = (p_workers ?p)[i := WExited]"
    using empty(1) by (simp add: worker_step_def)
  have "alive p < alive ?p"
    using sum_list_update_swap[OF i(1), of worker_alive WExited] idle p(2) by (simp add: alive_def)
  with sys_work_take[OF i(1) idle p(1)] take_jobs[OF i(1) idle p(1)] assms(3) show ?thesis by auto
qed

lemma workers_leave:
  assumes "calm P ok r z" and "z_main z = MWaitPool" and "jobs (z_pool z) = {#}"
  shows "\<exists>p. sys_run r z (z\<lparr>z_pool := p\<rparr>) \<and> pool_Wait p"
  using assms
proof (induction "alive (z_pool z)" arbitrary: z rule: less_induct)
  case less
  show ?case
  proof (cases "0 < alive (z_pool z)")
    case True
    then obtain p1 where p1: "sys_step r z (z\<lparr>z_pool := p1\<rparr>)" "jobs p1 = {#}" "alive p1 < alive (z_pool z)"
      using worker_leaves[OF less.prems] by blast
    have run1: "sys_run r z (z\<lparr>z_pool := p1\<rparr>)" by (rule sys_run.step[OF sys_run.refl p1(1)])
    obtain p where "sys_run r (z\<lparr>z_pool := p1\<rparr>) (z\<lparr>z_pool := p\<rparr>)" "pool_Wait p"
      using less.hyps[of "z\<lparr>z_pool := p1\<rparr>"] calm_after[OF run1 less.prems(1)] less.prems(2) p1(2,3) by auto
    with sys_run_trans[OF run1] show ?thesis by blast
  next
    case False
    then have "pool_Wait (z_pool z)" using less.prems(1)
      by (simp add: calm_def sys_inv_def wait_inv_def pool_inv_def pool_Wait_def)
    then show ?thesis by (intro exI[of _ "z_pool z"]) (simp add: sys_run.refl)
  qed
qed

lemma main_returns:
  assumes "calm P ok r z" and "quiet z" and "z_main z = MWaitPool" and "pool_Wait (z_pool z)"
  shows "\<exists>z'. sys_step r z z' \<and> quiet z' \<and> z_main z' = MReturned \<and> z_received z' = z_received z \<and> z_ctx z' = z_ctx z"
proof -
  have "finite (bucket_keys (x_wheel (z_world z)))"
    using assms(1) by (auto simp: calm_def sys_inv_def shared_inv_def wheel_inv_def)
  then obtain order where order: "iteration_order (x_wheel (z_world z)) order"
    using finite_distinct_list by (auto simp: iteration_order_def)
  obtain w where w: "shutdown_drain order (z_world z) = (PollDone, w)"
    using timer_batch_closed[of "(z_world z)\<lparr>x_ring := ring_Close (x_ring (z_world z)), x_wheel := snd (wheel_Drain (x_wheel (z_world z)) order)\<rparr>"]
    by (simp add: shutdown_drain_def wheel_Drain_def ring_Close_def)
  have "ok (x_store w)" using assms(1,3) shutdown_drain_world[OF w] by (simp add: calm_def)
  then obtain w' where w': "case rt_idemFilter r of None \<Rightarrow> w' = w
      | Some f \<Rightarrow> \<exists>err s. filter_close f (x_store w) = Inr (err, s) \<and> w' = w\<lparr>x_store := s\<rparr>"
    using filter_safeD(3)[OF safe] by (cases "rt_idemFilter r") (simp, fastforce)
  have "contents (x_ring w') = []"
    using shutdown_drain_ring[OF w] closed_store_frame(1)[OF w'] assms(2) by (simp add: ring_Close_correct quiet_def)
  with sys_main_pool[OF assms(3,4) order w w'] assms(2) show ?thesis
    by (intro exI conjI) (assumption, simp_all add: quiet_def)
qed

lemma graceful:
  assumes "calm P ok r z" and "\<not> z_dispDone z"
  shows "\<exists>z'. sys_run r z z' \<and> quiet z' \<and> z_main z' = MReturned \<and> z_received z' = z_received z"
proof -
  obtain z1 where z1: "sys_run r z z1" "z_disp z1 = DTop" "contents (x_ring (z_world z1)) = []" "load z1 = 0"
    "\<not> z_dispDone z1" "z_received z1 = z_received z" using feeders_finish[OF assms] by blast
  note c1 = calm_after[OF z1(1) assms(1) z1(6)]
  obtain z2 where z2: "sys_run r z1 z2" "cancelled z1 z2" "\<forall>p\<in>set (z_polls z2). p = FReturned" "z_timer z2 = z_timer z1"
    using polls_return[OF c1 z1(4,2,3,5)] by blast
  have "feed_load (z_timer z2) = 0" using z1(4) z2(4) by (simp add: load_def)
  then obtain z3 where z3: "sys_run r z1 z3" "cancelled z1 z3" "quiet z3" using timer_returns[OF z2(1-3)] by blast
  have c3: "calm P ok r z3" by (rule calm_after[OF z3(1) c1]) (use z3(2) in \<open>simp add: cancelled_def\<close>)
  obtain z4 where z4: "sys_run r z3 z4" "quiet z4" "z_main z4 = MWaitPool" "jobs (z_pool z4) = {#}" "z_received z4 = z_received z1"
    using main_to_pool[OF c3 z3(2,3)] by blast
  have c4: "calm P ok r z4" by (rule calm_after[OF z4(1) c3]) (use z3(2) z4(5) in \<open>simp add: cancelled_def\<close>)
  obtain p where p: "sys_run r z4 (z4\<lparr>z_pool := p\<rparr>)" "pool_Wait p" using workers_leave[OF c4 z4(3,4)] by blast
  obtain z' where z': "sys_step r (z4\<lparr>z_pool := p\<rparr>) z'" "quiet z'" "z_main z' = MReturned" "z_received z' = z_received z4"
    using main_returns[OF calm_after[OF p(1) c4]] z4(2,3) p(2) by (auto simp: quiet_def)
  have "sys_run r z z'"
    by (rule sys_run.step[OF sys_run_trans[OF sys_run_trans[OF sys_run_trans[OF z1(1) z3(1)] z4(1)] p(1)] z'(1)])
  with z' z4(5) z1(6) show ?thesis by auto
qed

lemma quiet_ring: "calm P ok r z \<Longrightarrow> quiet z \<Longrightarrow> ring_ids (z_world z) = {#}"
proof -
  assume c: "calm P ok r z" and q: "quiet z"
  have "job_parked job = []" if "job \<in># jobs (z_pool z)" for job using c that by (cases job) (auto simp: calm_def)
  then have "sum_mset (image_mset (\<lambda>job. mset (job_parked job)) (jobs (z_pool z))) = {#}"
    by (auto simp: sum_mset.neutral)
  moreover have "concat (map feed_parked (z_polls z)) = []" using q by (auto simp: quiet_def)
  ultimately have "parked (x_ring (z_world z)) = {#}" using c q by (simp add: calm_def park_inv_def parked_msgs_def quiet_def)
  with q show ?thesis by (simp add: ring_ids_def item_ids_def quiet_def)
qed

text \<open>What has been received is settled then, or was lost from the wheel or left in the ticker's channel.\<close>

lemma graceful_settled:
  assumes "calm P ok r z" and "\<not> z_dispDone z"
  shows "\<exists>z'. sys_run r z z' \<and> z_main z' = MReturned \<and> z_received z' = z_received z \<and>
    z_received z = z_settled z' + z_left z' + z_lost z' + timer_ids (x_wheel (z_world z')) (z_tick z')"
proof -
  obtain z' where z': "sys_run r z z'" "quiet z'" "z_main z' = MReturned" "z_received z' = z_received z"
    using graceful[OF assms] by blast
  have c: "calm P ok r z'" by (rule calm_after[OF z'(1) assms(1) z'(4)])
  then have i: "phase_inv z'" "wait_inv z'" "balance z' = z_received z'" by (simp_all add: calm_def sys_inv_def)
  have pcs: "z_disp z' = DReturned" "\<forall>p\<in>set (z_polls z'). p = FReturned" "z_timer z' = FReturned"
    using i(1) z'(3) by (simp_all add: phase_inv_def)
  then have "jobs (z_pool z') = {#}" using i(2) by (auto simp: wait_inv_def)
  then have "z_received z' = z_settled z' + z_left z' + z_lost z' + timer_ids (x_wheel (z_world z')) (z_tick z')"
    using pcs i(3) quiet_ring[OF c z'(2)] feeds_quiet(1)[of "z_polls z'"]
    by (simp add: balance_def accounted_def job_ids_def ac_simps)
  with z' show ?thesis by metis
qed

text \<open>A stop that begins with an error of \<open>Subscribe\<close>, without a cancellation.\<close>

lemma failed_poller_stops:
  assumes "fresh_world w" and "ok (x_store w)"
  shows "\<exists>z. sys_run r ((sys_start w n k)\<lparr>z_polls := map (\<lambda>_. FReturned) (z_polls (sys_start w n k)), z_pollDone := True\<rparr>) z \<and>
    z_main z = MReturned \<and> \<not> z_ctx z"
proof -
  let ?z0 = "sys_start w n k"
  define z1 where "z1 = ?z0\<lparr>z_polls := map (\<lambda>_. FReturned) (z_polls ?z0), z_pollDone := True\<rparr>"
  have "sys_step r ?z0 z1"
    using sys_poll_return[of ?z0 r "Some ContextCanceled"] by (simp add: z1_def sys_start_def)
  then have "sys_run r ?z0 z1" by (rule sys_run.step[OF sys_run.refl])
  then have calm1: "calm P ok r z1" by (rule calm_after[OF _ calm_start[where ok = ok, OF assms]]) (simp add: z1_def)
  have w: "contents (x_ring w) = []" "ring_inv (x_ring w)" using assms(1) by (simp_all add: fresh_world_def holdings_def open_world_def)
  obtain batch b where d: "DequeueBatch (x_ring w) 100 = (batch, b)" by fastforce
  then have b: "batch = []" "contents b = []" using DequeueBatch_correct[OF w(2) d] w(1) by simp_all
  obtain err t where cl: "t_Close (rt_transport r) (x_transport w) = Inr (err, t)" using close_returns by blast
  obtain p where p0: "pool_StopDispatching (pool_Start (pool_New n) :: 'h job pool) = Inr p"
    by (simp add: pool_StopDispatching_def started_jobs(3) started_pool(1))
  then have p: "pool_StopDispatching (z_pool ?z0) = Inr p" "jobs p = {#}"
    using stop_jobs[OF p0 started_pool(1)] by (simp_all add: sys_start_def started_jobs(2))
  define z2 where "z2 = z1\<lparr>z_main := MWaitDisp, z_dispDone := True\<rparr>"
  have r2: "sys_run r z1 z2" unfolding z2_def
    by (intro sys_run.step[OF sys_run.refl] sys_main_select) (simp_all add: z1_def sys_start_def)
  define z3 where "z3 = z2\<lparr>z_disp := DDrain\<rparr>"
  have r3: "sys_run r z1 z3" using sys_run.step[OF r2 sys_disp_top] by (simp add: z3_def z2_def z1_def sys_start_def)
  define z4 where "z4 = z3\<lparr>z_disp := DReturned, z_world := (z_world z3)\<lparr>x_ring := b\<rparr>\<rparr>"
  have r4: "sys_run r z1 z4" using sys_run.step[OF r3 sys_disp_drained] d b(1) by (simp add: z4_def z3_def z2_def z1_def sys_start_def)
  define z5 where "z5 = z4\<lparr>z_main := MWaitTimer, z_tick := (z_tick z4)\<lparr>tk_ctxDone := True\<rparr>\<rparr>"
  have r5: "sys_run r z1 z5" using sys_run.step[OF r4 sys_main_disp] by (simp add: z5_def z4_def z3_def z2_def z1_def)
  define z6 where "z6 = z5\<lparr>z_timer := FReturned\<rparr>"
  note zs = z6_def z5_def z4_def z3_def z2_def z1_def sys_start_def
  have r6: "sys_run r z1 z6" using sys_run.step[OF r5 sys_timer_return] by (simp add: zs)
  define z7 where "z7 = z6\<lparr>z_main := MWaitPoller, z_world := (z_world z6)\<lparr>x_transport := t\<rparr>, z_calls := z_calls z6 @ [CClose]\<rparr>"
  have "sys_step r z6 z7" unfolding z7_def by (rule sys_main_timer) (use cl in \<open>simp_all add: zs\<close>)
  then have r7: "sys_run r z1 z7" by (rule sys_run.step[OF r6])
  define z8 where "z8 = z7\<lparr>z_main := MWaitPool, z_pool := p\<rparr>"
  have "sys_step r z7 z8" unfolding z8_def by (rule sys_main_poller) (use p in \<open>simp_all add: z7_def zs\<close>)
  then have r8: "sys_run r z1 z8" by (rule sys_run.step[OF r7])
  have z8: "quiet z8" "z_main z8 = MWaitPool" "jobs (z_pool z8) = {#}" "\<not> z_ctx z8"
    using b(2) p(2) by (simp_all add: z8_def z7_def zs quiet_def)
  have c8: "calm P ok r z8" by (rule calm_after[OF r8 calm1]) (simp add: z8_def z7_def zs)
  obtain q where q: "sys_run r z8 (z8\<lparr>z_pool := q\<rparr>)" "pool_Wait q" using workers_leave[OF c8 z8(2,3)] by blast
  obtain z where "sys_step r (z8\<lparr>z_pool := q\<rparr>) z" "z_main z = MReturned" "\<not> z_ctx z"
    using main_returns[OF calm_after[OF q(1) c8]] z8(1,2,4) q(2) by (auto simp: quiet_def)
  with sys_run.step[OF sys_run_trans[OF r8 q(1)]] show ?thesis unfolding z1_def by blast
qed

end

section \<open>A consumer left behind\<close>

lemma parked_update:
  assumes "\<exists>p\<in>set ps. feed_parked p \<noteq> []" and "j < length ps" and "feed_parked (ps ! j) = []"
  shows "\<exists>p\<in>set (ps[j := q]). feed_parked p \<noteq> []"
proof -
  obtain i where i: "i < length ps" "feed_parked (ps ! i) \<noteq> []" using assms(1) by (metis in_set_conv_nth)
  then have "ps[j := q] ! i = ps ! i" using assms(3) by (cases "i = j") simp_all
  with i show ?thesis by (metis length_list_update nth_mem)
qed

lemma wedged_poll:
  assumes "poll_step r z z'" and wd: "wedged z"
  shows "wedged z'"
proof -
  have parked: "\<exists>p\<in>set (z_polls z). feed_parked p \<noteq> []" and jam: "jammed (z_world z)"
    using wd by (simp_all add: wedged_def)
  from assms(1) show ?thesis
  proof (cases rule: poll_step.cases)
    case (poll_receive j msgs t)
    with wd parked_update[OF parked poll_receive(2)] show ?thesis by (simp add: wedged_def jammed_frame)
  next
    case (poll_message j m ms now res w)
    with wd parked_update[OF parked poll_message(2)] poll_one_jammed[OF jam poll_message(4)] show ?thesis
      by (simp add: wedged_def)
  next
    case (poll_next j)
    with wd parked_update[OF parked poll_next(2)] show ?thesis by (simp add: wedged_def)
  next
    case (poll_return err)
    with parked show ?thesis by force
  qed (use wd in \<open>auto simp: wedged_def ring_resume_none\<close>)
qed

lemma wedged_timer:
  assumes "timer_step r z z'" and wd: "wedged z"
  shows "wedged z'"
  using assms(1)
proof (cases rule: timer_step.cases)
  case (ticker e wheel tk)
  with wd ticker_ids[OF ticker(2) _ disjI1[OF ticker(3)]] show ?thesis by (simp add: wedged_def jammed_def open_world_def)
next
  case (timer_receive batch wheel tk)
  with wd ticker_ids[OF timer_receive(3)] show ?thesis by (simp add: wedged_def jammed_def open_world_def)
next
  case (timer_message m ms res w)
  with wd enqueue_msg_jammed(1)[OF _ timer_message(3)] show ?thesis by (simp add: wedged_def)
qed (use wd in \<open>auto simp: wedged_def ring_resume_none\<close>)

lemma wedged_work:
  assumes "work_step r z z'" and wd: "wedged z"
  shows "wedged z'"
proof -
  have no_job: False if "i < length (p_workers (z_pool z))" "p_workers (z_pool z) ! i = WRunning job" for i job
    using job_running[OF that] wd by (simp add: wedged_def)
  from assms(1) show ?thesis
  proof (cases rule: work_step.cases)
    case (work_take i pool)
    with wd take_jobs[OF work_take(2-4)] show ?thesis by (simp add: wedged_def)
  qed (use wd no_job in \<open>auto simp: wedged_def\<close>)
qed

lemma wedged_main:
  assumes "main_step r z z'" and wd: "wedged z"
  shows "wedged z'"
  using assms(1)
proof (cases rule: main_step.cases)
  case (main_timer err t)
  with wd show ?thesis by (simp add: wedged_def jammed_frame)
next
  case (main_poller pool)
  with wd show ?thesis by (force simp: wedged_def)
qed (use wd in \<open>auto simp: wedged_def ring_resume_none\<close>)

lemma wedged_step:
  assumes "sys_step r z z'" and wd: "wedged z"
  shows "wedged z'"
  using assms(1)
proof (cases rule: sys_step.cases)
  case poll
  then show ?thesis by (rule wedged_poll[OF _ wd])
next
  case timer
  then show ?thesis by (rule wedged_timer[OF _ wd])
next
  case disp
  then show ?thesis
  proof (cases rule: disp_step.cases)
    case (disp_batch drain batch b now tasks w)
    with wd show ?thesis by (auto simp: wedged_def split: if_splits)
  qed (use wd in \<open>auto simp: wedged_def ring_resume_none\<close>)
next
  case work
  then show ?thesis by (rule wedged_work[OF _ wd])
next
  case main
  then show ?thesis by (rule wedged_main[OF _ wd])
qed (use wd in \<open>auto simp: wedged_def ring_resume_none\<close>)

lemma wedged_run: "sys_run r z z' \<Longrightarrow> wedged z \<Longrightarrow> wedged z'"
  by (induction rule: sys_run.induct) (auto intro: wedged_step)

lemma enqueue_msg_room:
  assumes "open_world w" and "parked (x_ring w) = {#}" and "length (contents (x_ring w)) < ring_cap (x_ring w)"
  obtains b where "enqueue_msg m w = (Finished, w\<lparr>x_ring := b\<rparr>)" "open_world (w\<lparr>x_ring := b\<rparr>)" "parked b = {#}"
    "contents b = contents (x_ring w) @ [Some m]" "ring_cap b = ring_cap (x_ring w)"
proof -
  obtain e b where e: "Enqueue (x_ring w) (Some m) = (e, b)" by fastforce
  have ring: "ring_inv (x_ring w)" "\<not> b_closed (x_ring w)" "b_policy (x_ring w) = Block"
    using assms(1) by (simp_all add: open_world_def)
  have q: "ring_inv b" "e = Returned None" "contents b = contents (x_ring w) @ [Some m]"
    using Enqueue_correct[OF ring(1) e] ring assms(3) by (auto split: if_splits)
  have b: "enqueue_msg m w = (Finished, w\<lparr>x_ring := b\<rparr>)" using e q(2) by (simp add: enqueue_msg_def)
  have "parked b = {#}" using Enqueue_parked[of "x_ring w" "Some m"] e q(2) assms(2) by simp
  moreover have "ring_cap b = ring_cap (x_ring w)" using Enqueue_frame(4)[of "x_ring w" "Some m"] e by simp
  moreover have "open_world (w\<lparr>x_ring := b\<rparr>)" using enqueue_msg_open[OF assms(1) b] by simp
  ultimately show thesis using that b q(3) by blast
qed

text \<open>A call of the consumer with more messages than the ring has room for fills it and parks.\<close>

lemma consumer_fills:
  assumes "open_world (z_world z)" and "parked (x_ring (z_world z)) = {#}" and "z_disp z = DReturned" and "jobs (z_pool z) = {#}"
    and "p_started (z_pool z)" and "phase (z_main z) < 4" and "j < length (z_polls z)" and "z_polls z ! j = FRunning msgs"
    and "length msgs + length (contents (x_ring (z_world z))) = Suc (ring_cap (x_ring (z_world z)))"
    and "\<forall>m\<in>set msgs. m_NotBefore m \<le> 0"
  shows "\<exists>z'. sys_run r z z' \<and> wedged z' \<and> z_received z' = z_received z \<and> z_ctx z' = z_ctx z"
  using assms
proof (induction msgs arbitrary: z)
  case Nil
  then show ?case using ring_inv_length[of "x_ring (z_world z)"] by (simp add: open_world_def)
next
  case (Cons m ms)
  define w where "w = log_events (fire (h_OnDispatch (rt_hooks r)) (OnDispatch (m_Topic m))) (z_world z)"
  have w: "open_world w" "x_ring w = x_ring (z_world z)" using Cons.prems(1) by (simp_all add: w_def open_world_def frame_simps)
  have one: "poll_one r now m (z_world z) = Inr (enqueue_msg m w)" for now
    using Cons.prems(10) by (simp add: poll_one_def w_def Let_def)
  show ?case
  proof (cases "length (contents (x_ring w)) < ring_cap (x_ring w)")
    case True
    obtain b where b: "enqueue_msg m w = (Finished, w\<lparr>x_ring := b\<rparr>)" "open_world (w\<lparr>x_ring := b\<rparr>)" "parked b = {#}"
        "contents b = contents (x_ring w) @ [Some m]" "ring_cap b = ring_cap (x_ring w)"
      using enqueue_msg_room[OF w(1) _ True, of m] Cons.prems(2) w(2) by metis
    let ?z1 = "z\<lparr>z_polls := (z_polls z)[j := FRunning ms], z_world := w\<lparr>x_ring := b\<rparr>\<rparr>"
    have run1: "sys_run r z ?z1"
      using sys_run.step[OF sys_run.refl sys_poll_message[OF Cons.prems(7,8) one[unfolded b(1)]]] by simp
    obtain z' where "sys_run r ?z1 z'" "wedged z'" "z_received z' = z_received z" "z_ctx z' = z_ctx z"
      using Cons.IH[of ?z1] Cons.prems b w(2) by auto
    with sys_run_trans[OF run1] show ?thesis by blast
  next
    case False
    obtain res w' where e: "enqueue_msg m w = (res, w')" by fastforce
    have jam: "jammed w" using False w Cons.prems(2) by (simp add: jammed_def parked_def)
    note q = enqueue_msg_jammed[OF jam e]
    let ?z1 = "z\<lparr>z_polls := (z_polls z)[j := FParked m ms], z_world := w'\<rparr>"
    have "sys_run r z ?z1"
      using sys_run.step[OF sys_run.refl sys_poll_message[OF Cons.prems(7,8) one[unfolded e]]] q(2) by simp
    moreover have "\<exists>p\<in>set (z_polls ?z1). feed_parked p \<noteq> []"
      using Cons.prems(7) by (auto intro!: bexI[of _ "FParked m ms"] simp: set_update_memI)
    then have "wedged ?z1" using q(1) Cons.prems(3-6) by (simp add: wedged_def)
    ultimately show ?thesis by (intro exI conjI) (assumption+, simp_all)
  qed
qed

lemma reach_wedged:
  assumes "fresh_world w" and "0 < k" and "length msgs = Suc (ring_cap (x_ring w))" and "\<forall>m\<in>set msgs. m_NotBefore m \<le> 0"
  shows "\<exists>z. sys_run r (sys_start w n k) z \<and> wedged z \<and> z_received z = ids msgs \<and> z_ctx z"
proof -
  let ?z0 = "sys_start w n k"
  have w: "open_world w" "contents (x_ring w) = []" "parked (x_ring w) = {#}"
    using assms(1) by (simp_all add: fresh_world_def holdings_def)
  define z1 where "z1 = ?z0\<lparr>z_polls := (z_polls ?z0)[0 := FRunning msgs], z_received := z_received ?z0 + ids msgs,
       z_world := log_events (fire (h_OnReceive (rt_hooks r)) (OnReceive (length msgs))) ((z_world ?z0)\<lparr>x_transport := x_transport w\<rparr>)\<rparr>"
  have r1: "sys_run r ?z0 z1" unfolding z1_def
    by (intro sys_run.step[OF sys_run.refl] sys_poll_receive) (use assms(2) in \<open>simp_all add: sys_start_def\<close>)
  define z2 where "z2 = z1\<lparr>z_ctx := True, z_dispDone := True, z_pollDone := True, z_tick := (z_tick z1)\<lparr>tk_ctxDone := True\<rparr>\<rparr>"
  have r2: "sys_run r ?z0 z2" unfolding z2_def by (rule sys_run.step[OF r1 sys_step.cancel])
  define z3 where "z3 = z2\<lparr>z_main := MWaitDisp, z_dispDone := True\<rparr>"
  note zs = z3_def z2_def z1_def sys_start_def
  have r3: "sys_run r ?z0 z3" unfolding z3_def
    by (rule sys_run.step[OF r2 sys_main_select]) (simp_all add: z2_def z1_def sys_start_def)
  have r4: "sys_run r ?z0 (z3\<lparr>z_disp := DDrain\<rparr>)" using sys_run.step[OF r3 sys_disp_top] by (simp add: zs)
  have "b_count (x_ring w) = 0" using w(2) length_contents[of "x_ring w"] by (simp add: unat_eq_0)
  then have deq: "DequeueBatch (x_ring w) 100 = ([], x_ring w)" by (simp add: DequeueBatch_def)
  let ?z5 = "z3\<lparr>z_disp := DReturned, z_world := (z_world z3)\<lparr>x_ring := x_ring w\<rparr>\<rparr>"
  have "sys_step r (z3\<lparr>z_disp := DDrain\<rparr>) ?z5"
    using sys_disp_drained[of "z3\<lparr>z_disp := DDrain\<rparr>" "x_ring w" r] deq by (simp add: zs frame_simps)
  note r5 = sys_run.step[OF r4 this]
  obtain z where "sys_run r ?z5 z" "wedged z" "z_received z = z_received z3" "z_ctx z = z_ctx z3"
    using consumer_fills[of ?z5 0 msgs r] w assms(2-4)
    by (auto simp: zs open_world_def frame_simps started_jobs started_pool)
  with sys_run_trans[OF r5] show ?thesis by (auto simp: zs)
qed

section \<open>The sample pipeline\<close>

text \<open>
  Its handler always asks for a retry, and its coordinator is the default one; the store is the
  memory store.
\<close>

interpretation sample: stoppable counted ms_inv sample_runtime
proof
  show "coordinators_keep_ids sample_runtime"
    by (auto simp: coordinators_keep_ids_def sample_runtime_def poison_entry_def split: if_splits)
  show "never_local_retry counted sample_runtime"
    by (rule default_never_retries) (auto simp: sample_runtime_def poison_entry_def in_budget_def Second_def split: if_splits)
  show "filter_safe ms_inv sample_runtime" by (rule memory_filter_safe) (simp add: sample_runtime_def)
  show "\<exists>err t'. t_Close (rt_transport sample_runtime) t = Inr (err, t')" for t :: "mem \<times> t_call list"
    by (simp add: sample_runtime_def logged_def recorded_go_def MemoryTransport_def split_def)
qed

lemma sample_store: "ms_inv (x_store (sample_world msgs))"
  by (simp add: sample_world_def NewMemoryStore_def ms_inv_def)

text \<open>Nothing is asked of the coordinators when nothing is received.\<close>

lemma never_local_retry_none: "never_local_retry (\<lambda>_. False) r" by (simp add: never_local_retry_def)

section \<open>Properties\<close>

text \<open>C4. A pipeline without local retries can be stopped gracefully. Let no message with \<open>P\<close> end in a
  local retry (for messages whose attempts are counted from 0 every pipeline of default
  coordinators with a positive base delay qualifies, by \<open>default_never_retries\<close>, whatever its
  handlers ask for), let the store of the filter, if there is one, not panic (the memory store does
  not, by \<open>memory_filter_safe\<close>), and let \<open>Close\<close> of the transport return. Then every state reached before
  a cancellation, while the transport has handed over messages with \<open>P\<close> only, has a continuation in
  which \<open>Run\<close> returns, no further message being received, and every message received until then has
  been settled by a call to the transport, unless its settlement is missing for good (a failed
  dead-letter send, an action outside the switch), or it was delayed and is lost from the
  wheel or left in the ticker's channel; nothing is left in the ring.\<close>

theorem graceful_stop:
  assumes "fed_run P r (sys_start w n k) z" and "fresh_world w" and "ok (x_store w)" and "\<not> z_dispDone z"
    and "coordinators_keep_ids r" and "never_local_retry P r" and "filter_safe ok r"
    and "\<And>t. \<exists>err t'. t_Close (rt_transport r) t = Inr (err, t')"
  shows "\<exists>z'. sys_run r z z' \<and> z_main z' = MReturned \<and> z_received z' = z_received z \<and>
    z_received z = z_settled z' + z_left z' + z_lost z' + timer_ids (x_wheel (z_world z')) (z_tick z')"
  by (rule stoppable.graceful_settled[OF stoppable.intro[OF assms(5-8)]
      calm_run[OF assms(1,5-7) calm_start[where P = P and ok = ok and r = r, OF assms(2,3)]] assms(4)])

theorem graceful_stop_witness:
  "\<exists>z z'. z_received z = {#''1''#} \<and> sys_run sample_runtime (sys_start (sample_world []) 4 2) z \<and> sys_run sample_runtime z z' \<and>
     z_main z' = MReturned \<and>
     {#''1''#} = z_settled z' + z_left z' + z_lost z' + timer_ids (x_wheel (z_world z')) (z_tick z')"
proof -
  let ?z0 = "sys_start (sample_world []) 4 2"
  define z where "z = ?z0\<lparr>z_polls := (z_polls ?z0)[0 := FRunning [sample_msg 0]], z_received := z_received ?z0 + ids [sample_msg 0],
       z_world := log_events (fire (h_OnReceive (rt_hooks sample_runtime)) (OnReceive (length [sample_msg 0])))
         ((z_world ?z0)\<lparr>x_transport := x_transport (z_world ?z0)\<rparr>)\<rparr>"
  have "sys_step sample_runtime ?z0 z" unfolding z_def by (rule sys_poll_receive) (simp_all add: sys_start_def)
  moreover have "z_received z = {#''1''#}" "\<not> z_dispDone z" by (simp_all add: z_def sys_start_def sample_msg_def)
  moreover have "hands_over counted ?z0 z"
    by (simp add: z_def sys_start_def hands_over_def counted_def sample_msg_def numeral_2_eq_2)
  ultimately have z: "sys_step sample_runtime ?z0 z" "z_received z = {#''1''#}" "\<not> z_dispDone z" "hands_over counted ?z0 z"
    by blast+
  from graceful_stop[OF fed_run.step[OF fed_run.refl z(1,4)] sample_world_fresh sample_store z(3)
      sample.keep sample.no_retry sample.safe sample.close_returns]
  show ?thesis using z(2) sys_run.step[OF sys_run.refl z(1)] by auto
qed

text \<open>C12. After a cancellation \<open>Run\<close> need not return: for every pipeline, a call of the consumer that is
  given one message more than the ring has slots (none delayed) around the cancellation can
  find the dispatcher gone, fill the ring and park; from there, whatever happens, that call is
  parked for ever and \<open>Run\<close> never returns.\<close>

theorem shutdown_deadlock:
  assumes "fresh_world w" and "0 < k" and "length msgs = Suc (ring_cap (x_ring w))" and "\<forall>m\<in>set msgs. m_NotBefore m \<le> 0"
  shows "\<exists>z. sys_run r (sys_start w n k) z \<and> z_ctx z \<and> z_received z = ids msgs \<and>
    \<not> (\<exists>z'. sys_run r z z' \<and> ((\<forall>p\<in>set (z_polls z'). p = FReturned) \<or> z_main z' = MReturned))"
proof -
  obtain z where z: "sys_run r (sys_start w n k) z" "wedged z" "z_received z = ids msgs" "z_ctx z"
    using reach_wedged[OF assms] by blast
  have "\<not> ((\<forall>p\<in>set (z_polls z'). p = FReturned) \<or> z_main z' = MReturned)" if "sys_run r z z'" for z'
    using wedged_run[OF that z(2)] by (force simp: wedged_def)
  with z show ?thesis by blast
qed

theorem shutdown_deadlock_witness:
  "\<exists>z. sys_run ok_runtime (sys_start (sample_world []) 1 1) z \<and> z_received z = {#''1'', ''1''#} \<and>
    \<not> (\<exists>z'. sys_run ok_runtime z z' \<and> z_main z' = MReturned)"
proof -
  have "length [sample_msg 1, sample_msg 2] = Suc (ring_cap (x_ring (sample_world [])))"
    by (simp add: sample_world_def sample_ring_def ring_cap_def)
  from shutdown_deadlock[OF sample_world_fresh _ this, of 1 ok_runtime 1] show ?thesis
    by (auto simp: sample_msg_def)
qed

text \<open>C13. \<open>Run\<close> does not report that the transport failed: its result is the error of the context only, so
  when \<open>Subscribe\<close> fails at once and nobody cancels, there is a run in which the pipeline shuts down in order
  and \<open>Run\<close> returns nil, the error being lost.\<close>

theorem subscribe_error_swallowed:
  assumes "fresh_world w" and "ok (x_store w)" and "coordinators_keep_ids r" and "filter_safe ok r"
    and "\<And>t. \<exists>err t'. t_Close (rt_transport r) t = Inr (err, t')"
  shows "\<exists>z1 z. sys_step r (sys_start w n k) z1 \<and> z_pollDone z1 \<and> \<not> z_ctx z1 \<and> sys_run r z1 z \<and> z_main z = MReturned \<and>
    Run_result z = None"
proof -
  let ?z0 = "sys_start w n k"
  have "sys_step r ?z0 (?z0\<lparr>z_polls := map (\<lambda>_. FReturned) (z_polls ?z0), z_pollDone := True\<rparr>)"
    using sys_poll_return[of ?z0 r "Some ContextCanceled"] by (simp add: sys_start_def)
  moreover obtain z where "sys_run r (?z0\<lparr>z_polls := map (\<lambda>_. FReturned) (z_polls ?z0), z_pollDone := True\<rparr>) z"
      "z_main z = MReturned" "\<not> z_ctx z"
    using stoppable.failed_poller_stops[OF stoppable.intro[OF assms(3) never_local_retry_none assms(4,5)] assms(1,2)] by blast
  ultimately show ?thesis by (intro exI conjI) (assumption | simp add: Run_result_def sys_start_def)+
qed

theorem subscribe_error_swallowed_witness:
  "\<exists>z1 z. z_pollDone z1 \<and> \<not> z_ctx z1 \<and> sys_run sample_runtime z1 z \<and> z_main z = MReturned \<and> Run_result z = None"
  using subscribe_error_swallowed[OF sample_world_fresh sample_store sample.keep sample.safe sample.close_returns] by blast

end
