(* ===== verification/Programs.thy ===== *)
theory Programs
  imports Examples Shutdown Handled
begin

text \<open>
  Programs on the concurrent pipeline: what is handled when \<open>Run\<close> returns, in every interleaving of
  its goroutines, and the example programs \<open>examples/simple\<close> and \<open>examples/otel\<close> as instances.
\<close>

section \<open>Effects of the example programs\<close>

text \<open>What a handler adds to the output for a payload; nothing when it cannot be decoded.\<close>

definition decoded :: "(bytes \<Rightarrow> go_error + 'p) \<Rightarrow> ('p \<Rightarrow> 'a) \<Rightarrow> bytes \<Rightarrow> 'a multiset" where
  "decoded unmarshal line raw = (case unmarshal raw of Inl _ \<Rightarrow> {#} | Inr x \<Rightarrow> {#line x#})"

text \<open>The effect of a message, by its identifier.\<close>

definition by_id :: "Message list \<Rightarrow> (bytes \<Rightarrow> 'a multiset) \<Rightarrow> string \<Rightarrow> 'a multiset" where
  "by_id msgs eff ident = (case map_of (map (\<lambda>m. (m_ID m, m_Payload m)) msgs) ident of None \<Rightarrow> {#} | Some raw \<Rightarrow> eff raw)"

definition order_line :: "'f OrderPayload \<Rightarrow> string \<times> 'f" where
  "order_line x = (op_OrderID x, op_Amount x)"

definition email_line :: "EmailPayload \<Rightarrow> string \<times> string" where
  "email_line x = (em_To x, em_Subject x)"

text \<open>A decoder for the samples: an order whose number is the payload.\<close>

definition sample_order :: "bytes \<Rightarrow> go_error + int OrderPayload" where
  "sample_order raw = Inr \<lparr>op_OrderID = raw, op_Amount = 1\<rparr>"

definition sample_program :: "(mem \<times> t_call list, MemoryStore, (string \<times> int) list) runtime" where
  "sample_program = \<lparr>rt_handlers = map_of (pl_handlers (simple_pipeline (\<lambda>_. Inr []) sample_order :: (mem \<times> t_call list, MemoryStore, _) Pipeline)),
     rt_transport = logged MemoryTransport, rt_hooks = no_hooks, rt_idemFilter = None, rt_conv = \<lambda>_. 0\<rparr>"

definition sample_start :: "(mem \<times> t_call list, MemoryStore, (string \<times> int) list) world" where
  "sample_start = \<lparr>x_ring = sample_ring, x_transport = (mem_New, []), x_store = NewMemoryStore, x_wheel = wheel_New,
     x_user = [], x_events = []\<rparr>"

section \<open>A pipeline that handles every delivery once\<close>

text \<open>
  A pipeline that can be stopped, whose handlers acknowledge what the transport hands over, nothing
  of it delayed, the identifier of a message telling the effect of its payload.
\<close>

locale once = stoppable P "\<lambda>_ :: 's. True" r for P and r :: "('t, 's, 'h) runtime" +
  fixes seen :: "'h \<Rightarrow> 'a multiset" and eff :: "bytes \<Rightarrow> 'a multiset" and g :: "string \<Rightarrow> 'a multiset"
  assumes ack: "acking P r seen eff"
    and now: "P m \<Longrightarrow> m_NotBefore m \<le> 0"
    and tells: "P m \<Longrightarrow> g (m_ID m) = eff (m_Payload m)"
begin

lemma seen_settled:
  assumes "fed_run P r (sys_start w n k) z" and "fresh_world w"
  shows "seen (x_user (z_world z)) = seen (x_user w) + sum_mset (image_mset g (z_settled z))"
  using fed_run_inv[OF assms(1) keep sys_inv_start[OF assms(2)] ack all_msgs_start[OF assms(2)] tells]
  by (simp add: sys_start_def)

lemma can_finish:
  assumes run: "fed_run P r (sys_start w n k) z" and "fresh_world w" and "\<not> z_dispDone z"
  shows "\<exists>z'. fed_run P r z z' \<and> z_main z' = MReturned \<and> z_received z' = z_received z \<and> z_settled z' = z_received z \<and>
    seen (x_user (z_world z')) = seen (x_user w) + sum_mset (image_mset g (z_received z))"
proof -
  have calm: "calm P (\<lambda>_. True) r z" by (rule calm_run[OF run keep no_retry safe calm_start[OF assms(2) TrueI]])
  obtain z' where z': "sys_run r z z'" "z_main z' = MReturned" "z_received z' = z_received z"
    "z_received z = z_settled z' + z_left z' + z_lost z' + timer_ids (x_wheel (z_world z')) (z_tick z')"
    using graceful_settled[OF calm assms(3)] by blast
  have fed: "fed_run P r z z'" by (rule silent_run[OF z'(1,3)])
  have run': "fed_run P r (sys_start w n k) z'" by (rule fed_run_trans[OF fed run])
  have "undelayed z'"
    using undelayed_run[OF run' keep sys_inv_start[OF assms(2)] no_retry all_msgs_start[OF assms(2)] now undelayed_start[OF assms(2)]]
    by simp
  moreover have "z_left z' = {#}"
    using acked_left[OF run' keep sys_inv_start[OF assms(2)] ack all_msgs_start[OF assms(2)]] by (simp add: sys_start_def)
  ultimately have settled: "z_settled z' = z_received z" using z'(4) undelayed_timer[of z'] by (simp add: undelayed_def)
  show ?thesis
    by (intro exI[of _ z'] conjI fed z'(2,3) settled) (use seen_settled[OF run' assms(2)] settled in simp)
qed

end

text \<open>When a handler adds a line to a list of lines for each payload it decodes.\<close>

lemma wrapped_acking:
  assumes "rt_idemFilter r = None" and "\<And>m. P m \<Longrightarrow> rt_handlers r (m_Topic m) = Some (default_entry (Wrap marshal unmarshal handler))"
    and "\<And>m. P m \<Longrightarrow> \<exists>x. unmarshal (m_Payload m) = Inr x"
    and "\<And>out x. handler out x = (\<lparr>r_Action = Ack, r_Delay = 0, r_Err = None\<rparr>, out @ [line x])"
  shows "acking P r mset (decoded unmarshal line)"
  using assms(1-3) by (fastforce simp: acking_def default_entry_def Wrap_def JSONCodec_def decoded_def assms(4))

lemma once_intro:
  assumes "coordinators_keep_ids r" and "\<And>t. \<exists>err t'. t_Close (rt_transport r) t = Inr (err, t')" and "acking P r seen eff"
    and "\<And>m. P m \<Longrightarrow> m_NotBefore m \<le> 0" and "\<And>m. P m \<Longrightarrow> g (m_ID m) = eff (m_Payload m)"
  shows "once P r seen eff g"
proof -
  have "filter_safe (\<lambda>_. True) r" using assms(3) by (simp add: filter_safe_def acking_def)
  from stoppable.intro[OF assms(1) acking_no_retry[OF assms(3)] this assms(2)] assms(3-5) show ?thesis
    by (intro once.intro once_axioms.intro)
qed

lemma logged_memory_closes: "\<exists>err t'. t_Close (logged MemoryTransport) t = Inr (err, t')"
  by (simp add: logged_def recorded_go_def MemoryTransport_def split_def)

lemma once_program:
  assumes "rt_idemFilter r = None" and "rt_transport r = logged MemoryTransport"
    and "rt_handlers r = [topic \<mapsto> default_entry (Wrap marshal unmarshal handler)]"
    and "\<And>out x. handler out x = (\<lparr>r_Action = Ack, r_Delay = 0, r_Err = None\<rparr>, out @ [line x])"
    and "\<And>m. m \<in> set msgs \<Longrightarrow> m_Topic m = topic \<and> m_NotBefore m \<le> 0 \<and> (\<exists>x. unmarshal (m_Payload m) = Inr x)"
    and "distinct (map m_ID msgs)"
  shows "once (\<lambda>m. m \<in> set msgs) r mset (decoded unmarshal line) (by_id msgs (decoded unmarshal line))"
proof (rule once_intro)
  show "coordinators_keep_ids r" using assms(3) by (auto simp: coordinators_keep_ids_def default_entry_def split: if_splits)
  show "\<exists>err t'. t_Close (rt_transport r) t = Inr (err, t')" for t using logged_memory_closes assms(2) by simp
  show "acking (\<lambda>m. m \<in> set msgs) r mset (decoded unmarshal line)"
    by (rule wrapped_acking[OF assms(1) _ _ assms(4)]) (use assms(3,5) in auto)
  show "m_NotBefore m \<le> 0" if "m \<in> set msgs" for m using assms(5)[OF that] by simp
  show "by_id msgs (decoded unmarshal line) (m_ID m) = decoded unmarshal line (m_Payload m)" if "m \<in> set msgs" for m
  proof -
    have "map_of (map (\<lambda>m. (m_ID m, m_Payload m)) msgs) (m_ID m) = Some (m_Payload m)"
      using that assms(6) by (intro map_of_is_SomeI) (auto simp: comp_def)
    then show ?thesis by (simp add: by_id_def)
  qed
qed

lemma run_start_fresh:
  assumes "Run_start conv p t s h = Inr (Inr (r, w, pool))" and "sint (cfg_BufferSize (pl_config p)) \<le> 2 ^ 32" and "pl_idemConf p = None"
  shows "fresh_world w" and "x_user w = h" and "rt_idemFilter r = None" and "Some (rt_transport r) = pl_transport p"
    and "rt_handlers r = map_of (pl_handlers p)" and "pool = pool_Start (pool_New (sint (cfg_Concurrency (pl_config p))))"
proof -
  obtain b :: "Message buffer" where b: "ring_New (cfg_BufferSize (pl_config p)) Block = Inr b" "ring_inv b"
    "contents b = []" "b_policy b = Block" "\<not> b_closed b" "b_cond b = cond_New"
    using ring_New_ok[OF assms(2)] ring_New_Inr[OF _ assms(2)] by metis
  then have "parked b = {#}" by (simp add: parked_def cond_New_def)
  with assms b wheel_New_inv[where 'a = Message] wheel_New_open[where 'a = Message] wheel_New_items[where 'a = Message]
  show "fresh_world w" "x_user w = h" "rt_idemFilter r = None" "Some (rt_transport r) = pl_transport p"
    "rt_handlers r = map_of (pl_handlers p)" "pool = pool_Start (pool_New (sint (cfg_Concurrency (pl_config p))))"
    by (auto simp: Run_start_def Let_def fresh_world_def open_world_def holdings_def split: option.splits if_splits)
qed

text \<open>The transport hands over a batch in the first step.\<close>

lemma batch_received:
  assumes "0 < k"
  obtains z where "fed_run (\<lambda>m. m \<in> set msgs) r (sys_start w n k) z" and "\<not> z_dispDone z" and "z_received z = ids msgs"
proof -
  let ?P = "\<lambda>m. m \<in> set msgs" and ?z0 = "sys_start w n k"
  define z where "z = ?z0\<lparr>z_polls := (z_polls ?z0)[0 := FRunning msgs], z_received := z_received ?z0 + ids msgs,
       z_world := log_events (fire (h_OnReceive (rt_hooks r)) (OnReceive (length msgs))) ((z_world ?z0)\<lparr>x_transport := x_transport w\<rparr>)\<rparr>"
  have "sys_step r ?z0 z" unfolding z_def by (rule sys_poll_receive) (use assms in \<open>simp_all add: sys_start_def\<close>)
  moreover have "hands_over ?P ?z0 z"
    using set_update_subset_insert[of "replicate k FIdle" 0 "FRunning msgs"] by (fastforce simp: hands_over_def z_def sys_start_def)
  ultimately have "fed_run ?P r ?z0 z" by (rule fed_run.step[OF fed_run.refl])
  then show thesis by (rule that) (simp_all add: z_def sys_start_def)
qed

text \<open>A program of one topic: any interleaving, and one that handles everything and returns.\<close>

lemma program_runs:
  assumes "once (\<lambda>m. m \<in> set msgs) r mset eff (by_id msgs eff)" and "fresh_world w" and "x_user w = []" and "0 < k"
  shows "\<forall>z. fed_run (\<lambda>m. m \<in> set msgs) r (sys_start w n k) z \<longrightarrow>
      mset (x_user (z_world z)) = sum_mset (image_mset (by_id msgs eff) (z_settled z))"
    and "\<exists>z. fed_run (\<lambda>m. m \<in> set msgs) r (sys_start w n k) z \<and> z_main z = MReturned \<and> z_settled z = ids msgs \<and>
      mset (x_user (z_world z)) = sum_mset (image_mset (by_id msgs eff) (ids msgs))"
proof -
  let ?P = "\<lambda>m. m \<in> set msgs" and ?z0 = "sys_start w n k"
  show "\<forall>z. fed_run ?P r ?z0 z \<longrightarrow> mset (x_user (z_world z)) = sum_mset (image_mset (by_id msgs eff) (z_settled z))"
    using once.seen_settled[OF assms(1) _ assms(2)] assms(3) by simp
  obtain z1 where run1: "fed_run ?P r ?z0 z1" and z1: "\<not> z_dispDone z1" "z_received z1 = ids msgs" using batch_received[OF assms(4)] .
  from once.can_finish[OF assms(1) run1 assms(2)] z1 obtain z where z: "fed_run ?P r z1 z" "z_main z = MReturned" "z_settled z = ids msgs"
    "mset (x_user (z_world z)) = sum_mset (image_mset (by_id msgs eff) (ids msgs))"
    using assms(3) by auto
  from fed_run_trans[OF z(1) run1] z(2-4) show "\<exists>z. fed_run ?P r ?z0 z \<and> z_main z = MReturned \<and> z_settled z = ids msgs \<and>
      mset (x_user (z_world z)) = sum_mset (image_mset (by_id msgs eff) (ids msgs))" by blast
qed

lemmas program_defs = simple_pipeline_def otel_pipeline_def builder_defs default_entry_def simple_messages_def email_messages_def message_lit_def

lemma simple_once:
  assumes "\<forall>m\<in>set simple_messages. \<exists>x. unmarshal (m_Payload m) = Inr x" and "rt_idemFilter r = None"
    and "rt_transport r = logged MemoryTransport" and "rt_handlers r = map_of (pl_handlers (simple_pipeline marshal unmarshal))"
  shows "once (\<lambda>m. m \<in> set simple_messages) r mset (decoded unmarshal order_line) (by_id simple_messages (decoded unmarshal order_line))"
  by (rule once_program[OF assms(2,3), where topic = "''order.created''" and marshal = marshal and handler = simple_processOrder])
    (use assms(1,4) in \<open>auto simp: program_defs simple_processOrder_def order_line_def\<close>)

lemma email_once:
  assumes "\<forall>m\<in>set email_messages. \<exists>x. unmarshal (m_Payload m) = Inr x" and "rt_idemFilter r = None"
    and "rt_transport r = logged MemoryTransport" and "rt_handlers r = map_of (pl_handlers (otel_pipeline marshal unmarshal))"
  shows "once (\<lambda>m. m \<in> set email_messages) r mset (decoded unmarshal email_line) (by_id email_messages (decoded unmarshal email_line))"
  by (rule once_program[OF assms(2,3), where topic = "''email.send''" and marshal = marshal and handler = sendEmail])
    (use assms(1,4) in \<open>auto simp: program_defs sendEmail_def email_line_def\<close>)

section \<open>The sample program\<close>

lemma sample_once:
  "once (\<lambda>m. m \<in> set simple_messages) sample_program mset (decoded sample_order order_line)
     (by_id simple_messages (decoded sample_order order_line))"
  by (rule simple_once[where marshal = "\<lambda>_. Inr []"]) (simp_all add: sample_program_def sample_order_def)

interpretation orders: once "\<lambda>m. m \<in> set simple_messages" sample_program mset "decoded sample_order order_line"
  "by_id simple_messages (decoded sample_order order_line)"
  by (rule sample_once)

lemma sample_start_fresh: "fresh_world sample_start" "x_user sample_start = []"
  using sample_world_fresh by (simp_all add: fresh_world_def open_world_def holdings_def sample_world_def sample_start_def)

lemma sample_lines:
  "sum_mset (image_mset (by_id simple_messages (decoded sample_order order_line)) (ids simple_messages)) =
    {#(m_Payload (simple_messages ! 0), 1), (m_Payload (simple_messages ! 1), 1)#}"
  by (simp add: by_id_def decoded_def sample_order_def order_line_def simple_messages_def message_lit_def)

section \<open>Properties\<close>

text \<open>C5. Each message is handled exactly once, in every interleaving: when the transport hands over only
  messages whose handlers acknowledge them (no filter, default coordinator), and a message's
  identifier tells the effect of its payload on the state of the user code, then at every moment
  what is seen of that state is what it was at the start and the effect of each settled message,
  once for each time it was received and settled.\<close>

theorem handled_exactly_once:
  assumes "fed_run P r (sys_start w n k) z" and "fresh_world w" and "coordinators_keep_ids r" and "acking P r seen eff"
    and "\<forall>m. P m \<longrightarrow> g (m_ID m) = eff (m_Payload m)"
  shows "seen (x_user (z_world z)) = seen (x_user w) + sum_mset (image_mset g (z_settled z)) \<and> z_settled z \<subseteq># z_received z"
proof -
  let ?z0 = "sys_start w n k"
  have inv: "sys_inv r z" "seen (x_user (z_world z)) + sum_mset (image_mset g (z_settled ?z0)) =
      seen (x_user (z_world ?z0)) + sum_mset (image_mset g (z_settled z))"
    using fed_run_inv[OF assms(1,3) sys_inv_start[OF assms(2)] assms(4) all_msgs_start[OF assms(2)]] assms(5) by blast+
  with settled_received[OF inv(1)] show ?thesis by (simp add: sys_start_def)
qed

theorem handled_exactly_once_witness:
  "\<exists>z. fed_run (\<lambda>m. m \<in> set simple_messages) sample_program (sys_start sample_start 4 1) z \<and> z_settled z = {#''1'', ''2''#} \<and>
     mset (x_user (z_world z)) = {#(m_Payload (simple_messages ! 0), 1), (m_Payload (simple_messages ! 1), 1)#}"
proof -
  let ?g = "by_id simple_messages (decoded sample_order order_line)"
  obtain z where z: "fed_run (\<lambda>m. m \<in> set simple_messages) sample_program (sys_start sample_start 4 1) z" "z_settled z = ids simple_messages"
    using program_runs(2)[OF sample_once sample_start_fresh zero_less_one, of 4] by blast
  have "mset (x_user (z_world z)) = sum_mset (image_mset ?g (z_settled z))"
    using handled_exactly_once[OF z(1) sample_start_fresh(1) orders.keep orders.ack, of ?g] orders.tells sample_start_fresh(2) by simp
  moreover have "ids simple_messages = {#''1'', ''2''#}" by (simp add: simple_messages_def message_lit_def)
  ultimately show ?thesis using z sample_lines by metis
qed

text \<open>C6. Every delivery is handled by the time \<open>Run\<close> returns, in a pipeline whose handlers acknowledge what
  they are given: let the messages handed over by the transport be undelayed messages that their
  handlers acknowledge (no filter, default coordinator for these messages), whose identifier tells
  the effect of the payload, and let \<open>Close\<close> of the transport return. Then each state reached before
  a cancellation has a continuation in which no further message is handed over, \<open>Run\<close> returns,
  every message received is settled, and the state of the user code shows the effect of every
  message received, each exactly once.\<close>

theorem every_delivery_handled:
  assumes "fed_run P r (sys_start w n k) z" and "fresh_world w" and "\<not> z_dispDone z"
    and "coordinators_keep_ids r" and "\<And>t. \<exists>err t'. t_Close (rt_transport r) t = Inr (err, t')"
    and "acking P r seen eff" and "\<And>m. P m \<Longrightarrow> m_NotBefore m \<le> 0" and "\<And>m. P m \<Longrightarrow> g (m_ID m) = eff (m_Payload m)"
  shows "\<exists>z'. fed_run P r z z' \<and> z_main z' = MReturned \<and> z_received z' = z_received z \<and> z_settled z' = z_received z \<and>
    seen (x_user (z_world z')) = seen (x_user w) + sum_mset (image_mset g (z_received z))"
  by (rule once.can_finish[OF once_intro[OF assms(4-8)] assms(1-3)])

theorem every_delivery_handled_witness:
  "\<exists>z z'. z_received z = {#''1'', ''2''#} \<and> fed_run (\<lambda>m. m \<in> set simple_messages) sample_program (sys_start sample_start 4 3) z \<and>
     fed_run (\<lambda>m. m \<in> set simple_messages) sample_program z z' \<and> z_main z' = MReturned \<and> z_settled z' = {#''1'', ''2''#} \<and>
     mset (x_user (z_world z')) = {#(m_Payload (simple_messages ! 0), 1), (m_Payload (simple_messages ! 1), 1)#}"
proof -
  obtain z where z: "fed_run (\<lambda>m. m \<in> set simple_messages) sample_program (sys_start sample_start 4 3) z" "\<not> z_dispDone z"
    "z_received z = ids simple_messages" by (rule batch_received[of 3]) simp_all
  from every_delivery_handled[OF z(1) sample_start_fresh(1) z(2) orders.keep orders.close_returns orders.ack orders.now orders.tells]
  obtain z' where z': "fed_run (\<lambda>m. m \<in> set simple_messages) sample_program z z'" "z_main z' = MReturned"
    "z_settled z' = ids simple_messages"
    "mset (x_user (z_world z')) = sum_mset (image_mset (by_id simple_messages (decoded sample_order order_line)) (ids simple_messages))"
    using z(3) sample_start_fresh(2) by auto
  moreover have "ids simple_messages = {#''1'', ''2''#}" by (simp add: simple_messages_def message_lit_def)
  ultimately show ?thesis using z sample_lines by metis
qed

text \<open>C31. The simple program prints each order once: for every JSON decoder that decodes its two payloads,
  in every interleaving of the goroutines its \<open>Run\<close> starts, the orders printed are those of the
  settled messages, each once; and there is one in which \<open>Run\<close> returns with both orders printed
  and both messages settled.\<close>

theorem simple_program:
  assumes "Run_start conv (simple_pipeline marshal unmarshal) (mem_New, []) NewMemoryStore [] = Inr (Inr (r, w, pool))"
    and "unmarshal (m_Payload (simple_messages ! 0)) = Inr o1" and "unmarshal (m_Payload (simple_messages ! 1)) = Inr o2"
  shows "(\<forall>z. fed_run (\<lambda>m. m \<in> set simple_messages) r (sys_start w 4 1) z \<longrightarrow>
      mset (x_user (z_world z)) = sum_mset (image_mset (by_id simple_messages (decoded unmarshal order_line)) (z_settled z))) \<and>
    (\<exists>z. fed_run (\<lambda>m. m \<in> set simple_messages) r (sys_start w 4 1) z \<and> z_main z = MReturned \<and> z_settled z = {#''1'', ''2''#} \<and>
      mset (x_user (z_world z)) = {#(op_OrderID o1, op_Amount o1), (op_OrderID o2, op_Amount o2)#})"
proof -
  have size: "sint (cfg_BufferSize (pl_config (simple_pipeline marshal unmarshal))) \<le> 2 ^ 32" "pl_idemConf (simple_pipeline marshal unmarshal) = None"
    by (simp_all add: program_defs)
  note start = run_start_fresh[OF assms(1) size]
  have "once (\<lambda>m. m \<in> set simple_messages) r mset (decoded unmarshal order_line) (by_id simple_messages (decoded unmarshal order_line))"
    by (rule simple_once[where marshal = marshal]) (use start assms(2,3) in \<open>auto simp: program_defs\<close>)
  note runs = program_runs[OF this start(1,2) zero_less_one, of 4]
  have "sum_mset (image_mset (by_id simple_messages (decoded unmarshal order_line)) (ids simple_messages)) =
      {#(op_OrderID o1, op_Amount o1), (op_OrderID o2, op_Amount o2)#}"
    using assms(2,3) by (simp add: by_id_def decoded_def order_line_def simple_messages_def message_lit_def)
  moreover have "ids simple_messages = {#''1'', ''2''#}" by (simp add: simple_messages_def message_lit_def)
  ultimately show ?thesis using runs by auto
qed

theorem simple_program_witness:
  "\<exists>r w pool z. Run_start (\<lambda>_. 0) (simple_pipeline (\<lambda>_. Inr []) sample_order) (mem_New, []) NewMemoryStore [] = Inr (Inr (r, w, pool)) \<and>
     fed_run (\<lambda>m. m \<in> set simple_messages) r (sys_start w 4 1) z \<and> z_main z = MReturned \<and> length (x_user (z_world z)) = 2"
proof -
  let ?p = "simple_pipeline (\<lambda>_. Inr []) sample_order :: (mem \<times> t_call list, MemoryStore, (string \<times> int) list) Pipeline"
  obtain r w pool where start: "Run_start (\<lambda>_. 0) ?p (mem_New, []) NewMemoryStore [] = Inr (Inr (r, w, pool))"
    by (rule run_start_idle[where p = ?p and conv = "\<lambda>_. 0" and s = NewMemoryStore and h = "[]"]) (simp_all add: program_defs)
  obtain z where z: "fed_run (\<lambda>m. m \<in> set simple_messages) r (sys_start w 4 1) z" "z_main z = MReturned"
    "mset (x_user (z_world z)) = {#(m_Payload (simple_messages ! 0), 1), (m_Payload (simple_messages ! 1), 1)#}"
    using simple_program[OF start, of "\<lparr>op_OrderID = m_Payload (simple_messages ! 0), op_Amount = 1\<rparr>"
        "\<lparr>op_OrderID = m_Payload (simple_messages ! 1), op_Amount = 1\<rparr>"] by (auto simp: sample_order_def)
  have "length (x_user (z_world z)) = 2" using arg_cong[OF z(3), of size] by simp
  with start z(1,2) show ?thesis by blast
qed

end
