(* ===== verification/Example_Mains.thy ===== *)
theory Example_Mains
  imports Examples
begin

text \<open>
  The function \<open>main\<close> of each program of \<open>src/examples\<close>, statement by statement, and what the retry and
  the delay program do with the time they leave to the pipeline.

  A \<open>main\<close> is the list of its statements after the pipeline has been built: \<open>go pipeline.Run(ctx)\<close>,
  publishing, sleeping, printing, cancelling, waiting for the interrupt. \<open>phases_of\<close> turns it into the
  phases of \<open>Rounds\<close>: while \<open>main\<close> sleeps the pipeline makes as many rounds as \<open>R\<close> says for that
  time. The deferred \<open>cancel\<close> at the end of each \<open>main\<close> is left out.
\<close>

section \<open>Statements\<close>

datatype stmt = GoRun | Publish Message | Sleep duration | Println string | Cancel | AwaitDone | Run_here | CloseTransport
  | PrintErr string go_error | ExitWith int

definition Millisecond :: duration where
  "Millisecond = 1000000"

definition done_line :: string where
  "done_line = ''Done. Press Ctrl+C to exit.''"

definition simple_main :: "stmt list" where
  "simple_main = [GoRun] @ map Publish simple_messages @ [Sleep (100 * Millisecond), Println done_line, AwaitDone]"

definition retry_main :: "stmt list" where
  "retry_main = [GoRun, Sleep (200 * Millisecond), Publish payment_message, Sleep (15 * Second), Cancel, Println ''Done.'']"

definition idempotent_main :: "stmt list" where
  "idempotent_main = [GoRun, Sleep (200 * Millisecond), Publish (idempotent_messages ! 0), Sleep (300 * Millisecond),
     Publish (idempotent_messages ! 1), Sleep (300 * Millisecond), Publish (idempotent_messages ! 2),
     Sleep (300 * Millisecond), Println done_line, AwaitDone]"

definition delayed_main :: "stmt list" where
  "delayed_main = [GoRun, Sleep (200 * Millisecond), Publish (reminder_messages ! 0), Println ''Published immediate message'',
     Publish (reminder_messages ! 1), Println ''Published delayed message (NotBefore=5s)'', Sleep (8 * Second), Cancel,
     Println ''Done.'']"

definition otel_main :: "stmt list" where
  "otel_main = [GoRun, Sleep (200 * Millisecond)] @ map Publish email_messages @
     [Sleep (300 * Millisecond), Println done_line, AwaitDone]"

definition redis_main :: "stmt list" where
  "redis_main = [GoRun, Sleep (200 * Millisecond)] @ map Publish notification_messages @
     [Sleep (500 * Millisecond), Println done_line, AwaitDone]"

definition running_line :: string where
  "running_line = ''Pipeline running... Press Ctrl+C to stop.''"

definition sqs_main :: "(string \<Rightarrow> string) \<Rightarrow> stmt list" where
  "sqs_main getenv =
     (if getenv ''SQS_QUEUE_URL'' = ''''
      then [Println (''SQS_QUEUE_URL not set '' @ [CHR 0xE2, CHR 0x80, CHR 0x94] @ '' using Floci default'')] else []) @
     [Println running_line, Run_here]"

text \<open>\<open>pubsub.New\<close> may fail; then the program prints the error and exits, without running deferred calls.\<close>

definition pubsub_main :: "(string \<Rightarrow> go_error option) \<Rightarrow> (string \<Rightarrow> string) \<Rightarrow> stmt list" where
  "pubsub_main newClient getenv =
     (case pubsub_New newClient (pubsub_example_config getenv) of
        Inl err \<Rightarrow> [PrintErr ''failed to create pubsub transport'' err, ExitWith 1]
      | Inr transport \<Rightarrow> [Println running_line, Run_here, CloseTransport])"

section \<open>Time\<close>

fun phases_of :: "(duration \<Rightarrow> nat) \<Rightarrow> gotime \<Rightarrow> Message list \<Rightarrow> stmt list \<Rightarrow> (Message list \<times> gotime \<times> nat) list" where
  "phases_of R now msgs [] = []"
| "phases_of R now msgs (Publish m # ss) = phases_of R now (msgs @ [m]) ss"
| "phases_of R now msgs (Sleep d # ss) = (msgs, now, R d) # phases_of R (time_Add now d) [] ss"
| "phases_of R now msgs (Cancel # ss) = []"
| "phases_of R now msgs (AwaitDone # ss) = []"
| "phases_of R now msgs (_ # ss) = phases_of R now msgs ss"

text \<open>The time after which each message is published, and the program cancels its context.\<close>

fun published_after :: "duration \<Rightarrow> stmt list \<Rightarrow> (Message \<times> duration) list" where
  "published_after t [] = []"
| "published_after t (Publish m # ss) = (m, t) # published_after t ss"
| "published_after t (Sleep d # ss) = published_after (t + d) ss"
| "published_after t (_ # ss) = published_after t ss"

fun cancelled_after :: "duration \<Rightarrow> stmt list \<Rightarrow> duration option" where
  "cancelled_after t [] = None"
| "cancelled_after t (Cancel # ss) = Some t"
| "cancelled_after t (Sleep d # ss) = cancelled_after (t + d) ss"
| "cancelled_after t (_ # ss) = cancelled_after t ss"

section \<open>Idle rounds\<close>

lemma idle_round:
  assumes "idle_world w []" and "rt_idemFilter r = None"
  shows "\<exists>w'. memory_round r now w = Inr w' \<and> idle_world w' [] \<and> x_user w' = x_user w \<and> calls w' = calls w"
proof -
  let ?t = "snd (Subscribe_check (fst (x_transport w)) 0)"
  have sub: "batch_of (fst (Subscribe_check (fst (x_transport w)) 0)) = []" "mt_messages ?t = []" "\<not> mt_closed ?t"
    using assms(1) by (simp_all add: idle_world_def Subscribe_check_def)
  obtain xs b where d: "DequeueBatch (x_ring w) 10 = (xs, b)" by fastforce
  have q: "xs = [] \<and> ring_inv b \<and> contents b = [] \<and> b_closed b = b_closed (x_ring w) \<and> b_policy b = b_policy (x_ring w)"
    by (rule dequeue_nothing[OF _ _ d]) (use assms(1) in \<open>simp_all add: idle_world_def open_world_def\<close>)
  with sub d assms show ?thesis
    by (auto simp: memory_round_def consume_def split_def Let_def dispatchBatch_def idle_world_def open_world_def frame_simps)
qed

lemma idle_rounds:
  "idle_world w [] \<Longrightarrow> rt_idemFilter r = None \<Longrightarrow>
    \<exists>w'. memory_rounds n r now w = Inr w' \<and> idle_world w' [] \<and> x_user w' = x_user w \<and> calls w' = calls w"
proof (induction n arbitrary: w)
  case (Suc n)
  obtain w1 where w1: "memory_round r now w = Inr w1" "idle_world w1 []" "x_user w1 = x_user w" "calls w1 = calls w"
    using idle_round[OF Suc.prems] by blast
  with Suc.IH[OF w1(2) Suc.prems(2)] show ?case by auto
qed auto

lemma memory_rounds_add:
  "memory_rounds (m + n) r now w = (case memory_rounds m r now w of Inl p \<Rightarrow> Inl p | Inr w' \<Rightarrow> memory_rounds n r now w')"
  by (induction m arbitrary: w) (auto split: sum.split)

text \<open>The delay program cancels its context more than two seconds, and so two ticks of the wheel, after
  its delayed message is due.\<close>

lemma delayed_main_waits:
  "\<exists>c t. cancelled_after 0 delayed_main = Some c \<and> (reminder_messages ! 1, t) \<in> set (published_after 0 delayed_main) \<and>
     t + m_NotBefore (reminder_messages ! 1) + 2 * Second < c"
  by (intro exI[of _ "8200 * Millisecond"] exI[of _ "200 * Millisecond"])
    (simp add: delayed_main_def reminder_messages_def Millisecond_def duration_defs)

text \<open>The retry program, statement by statement: whatever the pipeline does before the message is published,
  when it makes at least four rounds in the fifteen seconds before the program cancels, the payment
  is processed at the fourth attempt and acknowledged, and the rounds that are left change nothing.\<close>

theorem retry_main_succeeds:
  assumes "unmarshal (m_Payload payment_message) = Inr pay" and "4 \<le> R (15 * Second)"
  shows "\<exists>w'. run_main conv (retry_pipeline marshal unmarshal) \<lparr>attemptCount = 0, reported = []\<rparr> (phases_of R now [] retry_main) = Inr (Inr w') \<and>
    idle_world w' [] \<and> x_user w' = payments_after (pay_PaymentID pay) 4 \<and>
    calls w' = CPublish payment_message # success_calls (1 * Second) payment_message 0 3"
proof -
  obtain r w pool where start: "Run_start conv (retry_pipeline marshal unmarshal) (mem_New, []) NewMemoryStore \<lparr>attemptCount = 0, reported = []\<rparr> =
      Inr (Inr (r, w, pool))" "idle_world w []" "calls w = []" "x_user w = \<lparr>attemptCount = 0, reported = []\<rparr>"
    and r: "rt_transport r = logged MemoryTransport" "rt_idemFilter r = None" "rt_handlers r = map_of (pl_handlers (retry_pipeline marshal unmarshal))"
    by (rule retry_start)
  let ?t = "time_Add now (200 * Millisecond)" and ?n = "R (15 * Second)"
  obtain w0 where w0: "memory_rounds (R (200 * Millisecond)) r now w = Inr w0" "idle_world w0 []" "x_user w0 = x_user w" "calls w0 = []"
    using idle_rounds[OF start(2) r(2)] start(3) by metis
  obtain w1 where w1: "publish_all r [payment_message] w0 = Inr w1" "idle_world w1 [payment_message]"
    "calls w1 = [CPublish payment_message]" "x_user w1 = payments_after (pay_PaymentID pay) 0"
    using publish_all_idle[OF r(1) w0(2), of "[payment_message]"] w0(3,4) start(4) by (auto simp: payment_calls(3))
  obtain w2 where w2: "memory_rounds 4 r ?t w1 = Inr w2" "idle_world w2 []" "x_user w2 = payments_after (pay_PaymentID pay) 4"
    "calls w2 = CPublish payment_message # success_calls (1 * Second) payment_message 0 3"
    using payment_rounds[OF assms(1) r w1(2,4), of ?t] w1(3) by auto
  obtain w3 where w3: "memory_rounds (?n - 4) r ?t w2 = Inr w3" "idle_world w3 []" "x_user w3 = x_user w2" "calls w3 = calls w2"
    using idle_rounds[OF w2(2) r(2)] by metis
  have "memory_rounds ?n r ?t w1 = Inr w3"
    using memory_rounds_add[of 4 "?n - 4" r ?t w1] assms(2) w2(1) w3(1) by simp
  then have "run_main conv (retry_pipeline marshal unmarshal) \<lparr>attemptCount = 0, reported = []\<rparr> (phases_of R now [] retry_main) = Inr (Inr w3)"
    using start(1) w0(1) w1(1) by (simp add: run_main_def retry_main_def del: publish_all.simps(2))
  with w2 w3 show ?thesis by metis
qed

end
