(* ===== verification/E2E_Helpers.thy ===== *)
theory E2E_Helpers
  imports PubSub_Transport
begin

text \<open>
  The helpers of the end-to-end tests, \<open>src/e2e/helper.go\<close> and \<open>pubsub_helper.go\<close>: setting up the
  services' clients, creating queues, topics and subscriptions, and cleaning up.

  The SDKs are parameters that answer as any function of the calls made so far. \<open>t.Fatalf\<close> and
  \<open>t.Skip\<close> end the test with a value that says so (deferred calls are run then, too); \<open>t.Logf\<close> adds
  to a log. The environment of the process is a function, an unset variable reading as the
  empty string.
\<close>

section \<open>How a test goes on\<close>

datatype 'a tested = Goes 'a | Skipped string | Fatal string go_error | Panics go_panic

section \<open>\<open>helper.go\<close>\<close>

definition envOrDefault :: "(string \<Rightarrow> string) \<Rightarrow> string \<Rightarrow> string \<Rightarrow> string" where
  "envOrDefault env key def = (let v = env key in if v \<noteq> '''' then v else def)"

definition flociEndpoint :: "(string \<Rightarrow> string) \<Rightarrow> string" where
  "flociEndpoint env = envOrDefault env ''FLOCI_ENDPOINT'' ''http://localhost:4566''"

definition awsRegion :: "(string \<Rightarrow> string) \<Rightarrow> string" where
  "awsRegion env = envOrDefault env ''AWS_REGION'' ''us-east-1''"

text \<open>The calls: a queue with its redrive policy, if it has one.\<close>

datatype e2e_call = CreateQueue string "string option" | DeleteQueue string | PurgeQueue string

record e2e_client =
  on_CreateQueue :: "e2e_call list \<Rightarrow> go_error + string option"
  on_DeleteQueue :: "e2e_call list \<Rightarrow> go_error option"
  on_PurgeQueue :: "e2e_call list \<Rightarrow> go_error option"

text \<open>\<open>config.LoadDefaultConfig\<close> with a region, which reads the environment, and \<open>sqs.NewFromConfig\<close>.\<close>

record 'a e2e_aws =
  load_config :: "string \<Rightarrow> (string \<Rightarrow> string) \<Rightarrow> go_error + 'a"
  client_for :: "'a \<Rightarrow> string \<Rightarrow> e2e_client"

text \<open>\<open>globalEnv\<close>, the environment of the process, the package variables, the calls made and the test's log.\<close>

record testEnv =
  te_client :: "e2e_client option"
  te_queues :: "string list"
  te_env :: "string \<Rightarrow> string"
  te_endpoint :: string
  te_region :: string
  te_calls :: "e2e_call list"
  te_log :: "(string \<times> go_error) list"

definition testEnv_init :: "(string \<Rightarrow> string) \<Rightarrow> testEnv" where
  "testEnv_init env = \<lparr>te_client = None, te_queues = [], te_env = env, te_endpoint = flociEndpoint env,
     te_region = awsRegion env, te_calls = [], te_log = []\<rparr>"

definition flociReachable :: bool where
  "flociReachable = True"

definition set_default :: "string \<Rightarrow> string \<Rightarrow> testEnv \<Rightarrow> testEnv" where
  "set_default key def e = e\<lparr>te_env := (te_env e)(key := envOrDefault (te_env e) key def)\<rparr>"

definition setupEnv :: "'a e2e_aws \<Rightarrow> testEnv \<Rightarrow> unit tested \<times> testEnv" where
  "setupEnv A e =
     (if te_client e \<noteq> None then (Goes (), e)
      else if te_env e ''FLOCI_ENDPOINT'' = '''' \<and> \<not> flociReachable
      then (Skipped ''Floci not reachable'', e)
      else
        (let e = set_default ''AWS_SESSION_TOKEN'' ''test'' (set_default ''AWS_SECRET_ACCESS_KEY'' ''test''
                   (set_default ''AWS_ACCESS_KEY_ID'' ''test'' e))
         in case load_config A (te_region e) (te_env e) of
              Inl err \<Rightarrow> (Fatal ''load AWS config'' err, e)
            | Inr cfg \<Rightarrow> (Goes (), e\<lparr>te_client := Some (client_for A cfg (te_endpoint e))\<rparr>)))"

definition queueARN :: "testEnv \<Rightarrow> string \<Rightarrow> string" where
  "queueARN e name =
     (let accountID = envOrDefault (te_env e) ''AWS_ACCOUNT_ID'' ''000000000000''
      in ''arn:aws:sqs:'' @ te_region e @ '':'' @ accountID @ '':'' @ name)"

text \<open>One \<open>CreateQueue\<close> call and the URL it points to; \<open>what\<close> is the text of the failure.\<close>

definition create :: "string \<Rightarrow> string \<Rightarrow> string option \<Rightarrow> testEnv \<Rightarrow> string tested \<times> testEnv" where
  "create what name policy e =
     (case te_client e of
        None \<Rightarrow> (Panics NilDereference, e)
      | Some client \<Rightarrow>
          (let e = e\<lparr>te_calls := te_calls e @ [CreateQueue name policy]\<rparr>
           in case on_CreateQueue client (te_calls e) of
                Inl err \<Rightarrow> (Fatal (what @ name) err, e)
              | Inr None \<Rightarrow> (Panics NilDereference, e)
              | Inr (Some url) \<Rightarrow> (Goes url, e)))"

definition createDLQ :: "string \<Rightarrow> testEnv \<Rightarrow> string tested \<times> testEnv" where
  "createDLQ name e = create ''create DLQ '' name None e"

definition redrivePolicy :: "string \<Rightarrow> string" where
  "redrivePolicy dlqARN = ''{\"maxReceiveCount\":\"3\",\"deadLetterTargetArn\":\"'' @ dlqARN @ ''\"}''"

definition createQueue :: "string \<Rightarrow> testEnv \<Rightarrow> (string \<times> string) tested \<times> testEnv" where
  "createQueue name e =
     (let dlqName = name @ ''-dlq''
      in case createDLQ dlqName e of
           (Goes dlqURL, e) \<Rightarrow>
             (case create ''create queue '' name (Some (redrivePolicy (queueARN e dlqName))) e of
                (Goes url, e) \<Rightarrow> (Goes (url, dlqURL), e\<lparr>te_queues := te_queues e @ [url, dlqURL]\<rparr>)
              | (Skipped s, e) \<Rightarrow> (Skipped s, e)
              | (Fatal s err, e) \<Rightarrow> (Fatal s err, e)
              | (Panics p, e) \<Rightarrow> (Panics p, e))
         | (Skipped s, e) \<Rightarrow> (Skipped s, e)
         | (Fatal s err, e) \<Rightarrow> (Fatal s err, e)
         | (Panics p, e) \<Rightarrow> (Panics p, e))"

fun delete_all :: "e2e_client \<Rightarrow> string list \<Rightarrow> testEnv \<Rightarrow> testEnv" where
  "delete_all client [] e = e"
| "delete_all client (url # urls) e =
     (let e = e\<lparr>te_calls := te_calls e @ [DeleteQueue url]\<rparr>
      in delete_all client urls (case on_DeleteQueue client (te_calls e) of
           None \<Rightarrow> e
         | Some err \<Rightarrow> e\<lparr>te_log := te_log e @ [(''delete queue '' @ url, err)]\<rparr>))"

definition e2e_cleanup :: "testEnv \<Rightarrow> unit tested \<times> testEnv" where
  "e2e_cleanup e =
     (case (te_queues e, te_client e) of
        ([], _) \<Rightarrow> (Goes (), e)
      | (_, None) \<Rightarrow> (Panics NilDereference, e)
      | (urls, Some client) \<Rightarrow> (Goes (), (delete_all client urls e)\<lparr>te_queues := []\<rparr>))"

definition purgeQueue :: "string \<Rightarrow> testEnv \<Rightarrow> unit tested \<times> testEnv" where
  "purgeQueue url e =
     (case te_client e of
        None \<Rightarrow> (Panics NilDereference, e)
      | Some client \<Rightarrow>
          (let e = e\<lparr>te_calls := te_calls e @ [PurgeQueue url]\<rparr>
           in (Goes (), case on_PurgeQueue client (te_calls e) of
                 None \<Rightarrow> e
               | Some err \<Rightarrow> e\<lparr>te_log := te_log e @ [(''purge queue '' @ url, err)]\<rparr>)))"

definition sqsClient :: "testEnv \<Rightarrow> e2e_client option" where
  "sqsClient e = te_client e"

section \<open>\<open>pubsub_helper.go\<close>\<close>

record gcpTestEnv =
  ge_projectID :: string
  ge_topicID :: string
  ge_subscriptionID :: string
  ge_transport :: "pubsub option"

text \<open>
  The SDK: a client for a project, a topic of it and a subscription to a topic, each with an error
  or none. \<open>n1\<close> and \<open>n2\<close> are the readings of \<open>time.Now().UnixNano()\<close>.
\<close>

record pubsub_admin =
  on_NewClient :: "string \<Rightarrow> go_error option"
  on_CreateTopic :: "string \<Rightarrow> go_error option"
  on_CreateSubscription :: "string \<Rightarrow> string \<Rightarrow> go_error option"

definition setupPubSubEnv :: "pubsub_admin \<Rightarrow> nat \<Rightarrow> nat \<Rightarrow> (string \<Rightarrow> string) \<Rightarrow> gcpTestEnv tested \<times> (string \<Rightarrow> string)" where
  "setupPubSubEnv A n1 n2 env =
     (let env = (if env ''PUBSUB_EMULATOR_HOST'' = '''' then env(''PUBSUB_EMULATOR_HOST'' := ''localhost:8085'') else env);
          projectID = ''test-project'';
          topicID = ''e2e-topic-'' @ fmtInt n1 '''';
          subscriptionID = ''e2e-sub-'' @ fmtInt n2 ''''
      in (case on_NewClient A projectID of
            Some err \<Rightarrow> Skipped ''pubsub emulator not reachable''
          | None \<Rightarrow> (case on_CreateTopic A topicID of
              Some err \<Rightarrow> Fatal ''create topic'' err
            | None \<Rightarrow> (case on_CreateSubscription A subscriptionID topicID of
                Some err \<Rightarrow> Fatal ''create subscription'' err
              | None \<Rightarrow> Goes \<lparr>ge_projectID = projectID, ge_topicID = topicID, ge_subscriptionID = subscriptionID,
                  ge_transport = None\<rparr>)), env))"

definition createTransport :: "gcpTestEnv \<Rightarrow> pubsub \<times> gcpTestEnv" where
  "createTransport e =
     (let tr = pubsub_NewWithClient \<lparr>pc_ProjectID = ge_projectID e, pc_TopicID = ge_topicID e,
            pc_SubscriptionID = ge_subscriptionID e, pc_MaxMessages = 10, pc_TopicAttribute = ''''\<rparr>
      in (tr, e\<lparr>ge_transport := Some tr\<rparr>))"

text \<open>The calls the cleanup makes on the client, which is never nil after \<open>setupPubSubEnv\<close>.\<close>

definition gcp_cleanup :: "pubsub_client \<Rightarrow> gcpTestEnv \<Rightarrow> pubsub_call list" where
  "gcp_cleanup client e =
     (case ge_transport e of None \<Rightarrow> [] | Some tr \<Rightarrow> drop (length (ps_calls tr)) (ps_calls (snd (pubsub_Close client tr)))) @
     [ClientClose]"

text \<open>Creating several queues, as the tests of a package do one after the other.\<close>

fun create_queues :: "string list \<Rightarrow> testEnv \<Rightarrow> (string \<times> string) list tested \<times> testEnv" where
  "create_queues [] e = (Goes [], e)"
| "create_queues (name # names) e =
     (case createQueue name e of
        (Goes urls, e) \<Rightarrow>
          (case create_queues names e of
             (Goes rest, e) \<Rightarrow> (Goes (urls # rest), e)
           | (Skipped s, e) \<Rightarrow> (Skipped s, e)
           | (Fatal s err, e) \<Rightarrow> (Fatal s err, e)
           | (Panics p, e) \<Rightarrow> (Panics p, e))
      | (Skipped s, e) \<Rightarrow> (Skipped s, e)
      | (Fatal s err, e) \<Rightarrow> (Fatal s err, e)
      | (Panics p, e) \<Rightarrow> (Panics p, e))"

section \<open>Setting up\<close>

text \<open>The tests are never skipped: \<open>flociReachable\<close> says so whatever runs on the machine.\<close>

lemma setupEnv_never_skips: "fst (setupEnv A e) \<noteq> Skipped s"
  by (simp add: setupEnv_def flociReachable_def Let_def split: sum.split)

lemma setupEnv_once: "setupEnv A e = (Goes (), e') \<Longrightarrow> te_client e' \<noteq> None \<and> setupEnv A e' = (Goes (), e')"
  by (auto simp: setupEnv_def Let_def split: if_splits sum.splits)

lemma set_default_env:
  "te_env (set_default key def e) = (\<lambda>k. if k = key then envOrDefault (te_env e) key def else te_env e k)"
  by (auto simp: set_default_def)

text \<open>The credentials are set when the configuration is loaded, and those of the environment are kept.\<close>

lemma setupEnv_credentials:
  assumes "setupEnv A e = (res, e')" and "te_client e = None"
    and "key \<in> {''AWS_ACCESS_KEY_ID'', ''AWS_SECRET_ACCESS_KEY'', ''AWS_SESSION_TOKEN''}"
  shows "te_env e' key = (if te_env e key = '''' then ''test'' else te_env e key)"
  using assms by (auto simp: setupEnv_def flociReachable_def set_default_env envOrDefault_def Let_def split: sum.splits)

section \<open>Queues are recorded and deleted\<close>

lemma create_frame:
  assumes "create what name policy e = (res, e')"
  shows "te_client e' = te_client e" and "te_queues e' = te_queues e" and "te_env e' = te_env e" and "te_region e' = te_region e"
    and "te_client e \<noteq> None \<Longrightarrow> te_calls e' = te_calls e @ [CreateQueue name policy]"
  using assms by (auto simp: create_def Let_def split: option.splits sum.splits)

lemma createQueue_records:
  assumes "createQueue name e = (Goes (url, dlqURL), e')"
  shows "te_queues e' = te_queues e @ [url, dlqURL]" and "te_client e' = te_client e"
    and "te_calls e' = te_calls e @ [CreateQueue (name @ ''-dlq'') None, CreateQueue name (Some (redrivePolicy (queueARN e (name @ ''-dlq''))))]"
proof -
  obtain e1 e2 where d: "create ''create DLQ '' (name @ ''-dlq'') None e = (Goes dlqURL, e1)"
    and q: "create ''create queue '' name (Some (redrivePolicy (queueARN e1 (name @ ''-dlq'')))) e1 = (Goes url, e2)"
      "e' = e2\<lparr>te_queues := te_queues e2 @ [url, dlqURL]\<rparr>"
    using assms by (auto simp: createQueue_def createDLQ_def Let_def split: prod.splits tested.splits)
  have client: "te_client e \<noteq> None" using d by (auto simp: create_def split: option.splits)
  note f = create_frame[OF d] and g = create_frame[OF q(1)]
  have "queueARN e1 (name @ ''-dlq'') = queueARN e (name @ ''-dlq'')" using f(3,4) by (simp add: queueARN_def)
  with f g client q(2) show "te_queues e' = te_queues e @ [url, dlqURL]" "te_client e' = te_client e"
    "te_calls e' = te_calls e @ [CreateQueue (name @ ''-dlq'') None, CreateQueue name (Some (redrivePolicy (queueARN e (name @ ''-dlq''))))]"
    by simp_all
qed

lemma delete_all_calls: "te_calls (delete_all client urls e) = te_calls e @ map DeleteQueue urls"
  by (induction urls arbitrary: e) (simp_all add: Let_def split: option.split)

lemma create_queues_records:
  "create_queues names e = (Goes pairs, e') \<Longrightarrow>
    te_queues e' = te_queues e @ concat (map (\<lambda>(u, d). [u, d]) pairs) \<and> te_client e' = te_client e"
proof (induction names arbitrary: e pairs e')
  case (Cons name names)
  then obtain u d e1 rest where c: "createQueue name e = (Goes (u, d), e1)" "create_queues names e1 = (Goes rest, e')" "pairs = (u, d) # rest"
    by (auto split: prod.splits tested.splits)
  with Cons.IH[OF c(2)] createQueue_records(1,2)[OF c(1)] show ?case by simp
qed simp

text \<open>The cleanup deletes every queue that was recorded, once and in order, and forgets them all.\<close>

theorem cleanup_deletes_all:
  assumes "te_client e \<noteq> None" and "te_queues e = []" and "create_queues names e = (Goes pairs, e1)" and "e2e_cleanup e1 = (res, e2)"
  shows "res = Goes () \<and> te_queues e2 = [] \<and> te_calls e2 = te_calls e1 @ map DeleteQueue (concat (map (\<lambda>(u, d). [u, d]) pairs))"
proof -
  have q: "te_queues e1 = concat (map (\<lambda>(u, d). [u, d]) pairs)" "te_client e1 \<noteq> None"
    using create_queues_records[OF assms(3)] assms(1,2) by simp_all
  show ?thesis
  proof (cases "te_queues e1")
    case Nil
    with assms(4) show ?thesis unfolding q(1)[symmetric] by (auto simp: e2e_cleanup_def)
  next
    case (Cons u us)
    obtain client where "te_client e1 = Some client" using q(2) by blast
    with Cons assms(4) show ?thesis unfolding q(1)[symmetric] by (auto simp: e2e_cleanup_def delete_all_calls Let_def split: option.split)
  qed
qed

text \<open>A queue that cannot be created leaves its dead-letter queue behind: it exists and is not recorded.\<close>

lemma failed_queue_leaks_dlq:
  assumes "te_client e = Some client" and "on_CreateQueue client (te_calls e @ [CreateQueue (name @ ''-dlq'') None]) = Inr (Some dlqURL)"
    and "on_CreateQueue client (te_calls e @ [CreateQueue (name @ ''-dlq'') None,
      CreateQueue name (Some (redrivePolicy (queueARN e (name @ ''-dlq''))))]) = Inl err"
  shows "\<exists>e'. createQueue name e = (Fatal (''create queue '' @ name) err, e') \<and> te_queues e' = te_queues e \<and>
    CreateQueue (name @ ''-dlq'') None \<in> set (te_calls e')"
  using assms by (simp add: createQueue_def createDLQ_def create_def Let_def queueARN_def)

section \<open>Pub/Sub\<close>

text \<open>With a transport the client is closed twice, first by the transport, which also clears the emulator's address.\<close>

lemma gcp_cleanup_closes_twice:
  "gcp_cleanup client (snd (createTransport e)) = [Setenv ''PUBSUB_EMULATOR_HOST'' '''', ClientClose, ClientClose]"
  by (simp add: gcp_cleanup_def createTransport_def pubsub_NewWithClient_def newWithClient_def pubsub_Close_def
      ps_log_def Let_def)

lemma setupPubSubEnv_goes:
  "fst (setupPubSubEnv A n1 n2 env) = Goes e \<longleftrightarrow> on_NewClient A ''test-project'' = None \<and>
     on_CreateTopic A (''e2e-topic-'' @ fmtInt n1 '''') = None \<and>
     on_CreateSubscription A (''e2e-sub-'' @ fmtInt n2 '''') (''e2e-topic-'' @ fmtInt n1 '''') = None \<and>
     e = \<lparr>ge_projectID = ''test-project'', ge_topicID = ''e2e-topic-'' @ fmtInt n1 '''',
       ge_subscriptionID = ''e2e-sub-'' @ fmtInt n2 '''', ge_transport = None\<rparr>"
  by (auto simp: setupPubSubEnv_def Let_def split: option.splits)

end
