(* ===== verification/Streams_Transport.thy ===== *)
theory Streams_Transport
  imports Broker_Interface
begin

text \<open>
  The Redis Streams transport, \<open>src/transport/redisstreams/streams.go\<close>.

  \<open>streams\<close> is \<open>StreamsTransport\<close> with the calls made to the client so far; the client is a
  parameter whose errors are texts. A value of an entry is what the code can tell apart: a
  string, a \<open>map[interface{}]interface{}\<close> (its entries in the order the loop visits them, each
  with its \<open>fmt.Sprint\<close> rendering) or something else.

  Shown here: the calls with which each outcome is settled, what \<open>Subscribe\<close> does before its
  first read (it acknowledges what the consumer had pending), the batches it hands over, and
  what of a published message arrives.
\<close>

section \<open>Data\<close>

record streams_Config =
  xc_Addr :: string
  xc_StreamKey :: string
  xc_ConsumerGroup :: string
  xc_ConsumerName :: string
  xc_DLQStreamKey :: string
  xc_Password :: string
  xc_DB :: int
  xc_BlockTimeout :: duration
  xc_BatchSize :: int
  xc_IdleTimeout :: duration
  xc_TopicAttribute :: string

text \<open>\<open>fmt.Sprintf("%s-%d", host, os.Getpid())\<close>\<close>

definition process_name :: "string \<Rightarrow> nat \<Rightarrow> string" where
  "process_name host pid = host @ CHR ''-'' # fmtInt pid []"

definition streams_defaults :: "string \<Rightarrow> nat \<Rightarrow> streams_Config \<Rightarrow> streams_Config" where
  "streams_defaults host pid c =
     (let c = (if xc_BlockTimeout c = 0 then c\<lparr>xc_BlockTimeout := 2 * Second\<rparr> else c);
          c = (if xc_BatchSize c = 0 then c\<lparr>xc_BatchSize := 10\<rparr> else c);
          c = (if xc_IdleTimeout c = 0 then c\<lparr>xc_IdleTimeout := 30 * Second\<rparr> else c);
          c = (if xc_TopicAttribute c = '''' then c\<lparr>xc_TopicAttribute := ''X-Topic''\<rparr> else c)
      in if xc_ConsumerName c = '''' then c\<lparr>xc_ConsumerName := process_name host pid\<rparr> else c)"

text \<open>The values given to \<open>XAdd\<close>, and those found in an entry that was read.\<close>

datatype add_val = AddString string | AddMap smap

datatype entry_val = StringVal string | IfaceMap "(string \<times> string) list" | OtherVal

record xmessage =
  xm_ID :: string
  xm_Values :: "string \<rightharpoonup> entry_val"

datatype streams_call =
    XGroupCreateMkStream string string string               \<comment> \<open>stream, group, start\<close>
  | XPendingExt string string string                        \<comment> \<open>stream, group, consumer; from \<open>-\<close> to \<open>+\<close>, 100 at most\<close>
  | XAck string string "string list"                        \<comment> \<open>stream, group, ids\<close>
  | XClaim string string string duration "string list"      \<comment> \<open>stream, group, consumer, minimal idle time, ids\<close>
  | XAdd string "string \<rightharpoonup> add_val"                          \<comment> \<open>stream, values\<close>
  | XReadGroup string string string string int duration     \<comment> \<open>group, consumer, stream, start, count, block\<close>
  | XClose

text \<open>An error of the client is its text.\<close>

record streams_client =
  on_XGroupCreate :: "streams_call list \<Rightarrow> string option"
  on_XPendingExt :: "streams_call list \<Rightarrow> string + string list"
  on_XAck :: "streams_call list \<Rightarrow> string option"
  on_XClaim :: "streams_call list \<Rightarrow> string + string list"
  on_XAdd :: "streams_call list \<Rightarrow> string option"
  on_XReadGroup :: "streams_call list \<Rightarrow> string + (string \<times> xmessage list) list"
  on_XClose :: "streams_call list \<Rightarrow> string option"

record streams =
  sx_config :: streams_Config
  sx_consumerName :: string
  sx_calls :: "streams_call list"

section \<open>The methods\<close>

definition streams_NewWithClient :: "string \<Rightarrow> nat \<Rightarrow> streams_Config \<Rightarrow> streams" where
  "streams_NewWithClient host pid cfg =
     (let cfg = streams_defaults host pid cfg
      in \<lparr>sx_config = cfg, sx_consumerName = xc_ConsumerName cfg, sx_calls = []\<rparr>)"

definition streams_New :: "(string \<Rightarrow> string \<Rightarrow> int \<Rightarrow> streams_client) \<Rightarrow> string \<Rightarrow> nat \<Rightarrow> streams_Config
    \<Rightarrow> streams_client \<times> streams" where
  "streams_New newClient host pid cfg =
     (let cfg = streams_defaults host pid cfg
      in (newClient (xc_Addr cfg) (xc_Password cfg) (xc_DB cfg), streams_NewWithClient host pid cfg))"

definition sx_log :: "streams_call \<Rightarrow> streams \<Rightarrow> streams" where
  "sx_log c t = t\<lparr>sx_calls := sx_calls t @ [c]\<rparr>"

text \<open>\<open>strings.Contains(s, sub)\<close>\<close>

fun has_prefix :: "string \<Rightarrow> string \<Rightarrow> bool" where
  "has_prefix [] s = True"
| "has_prefix (c # sub) [] = False"
| "has_prefix (c # sub) (d # s) = (c = d \<and> has_prefix sub s)"

fun strings_Contains :: "string \<Rightarrow> string \<Rightarrow> bool" where
  "strings_Contains [] sub = (sub = [])"
| "strings_Contains (c # s) sub = (has_prefix sub (c # s) \<or> strings_Contains s sub)"

definition bootstrap :: "streams_client \<Rightarrow> streams \<Rightarrow> go_error option \<times> streams" where
  "bootstrap client t =
     (let t = sx_log (XGroupCreateMkStream (xc_StreamKey (sx_config t)) (xc_ConsumerGroup (sx_config t)) ''0'') t
      in case on_XGroupCreate client (sx_calls t) of
           None \<Rightarrow> (None, t)
         | Some err \<Rightarrow>
             if \<not> strings_Contains err ''BUSYGROUP''
             then (Some (Wrapped ''redisstreams: XGroupCreateMkStream'' (ExternalError err)), t)
             else (None, t))"

text \<open>\<open>for _, p := range pending { t.client.XAck(ctx, stream, group, p.ID) }\<close>\<close>

fun ack_ids :: "string list \<Rightarrow> streams \<Rightarrow> streams" where
  "ack_ids [] t = t"
| "ack_ids (i # ids) t = ack_ids ids (sx_log (XAck (xc_StreamKey (sx_config t)) (xc_ConsumerGroup (sx_config t)) [i]) t)"

definition claim_stale :: "streams_client \<Rightarrow> streams \<Rightarrow> go_error option \<times> streams" where
  "claim_stale client t =
     (let c = sx_config t;
          t = sx_log (XClaim (xc_StreamKey c) (xc_ConsumerGroup c) (sx_consumerName t) (xc_IdleTimeout c) []) t
      in case on_XClaim client (sx_calls t) of
           Inl err \<Rightarrow> (None, t)
         | Inr claimed \<Rightarrow> (None, ack_ids claimed t))"

definition recoverStale :: "streams_client \<Rightarrow> streams \<Rightarrow> go_error option \<times> streams" where
  "recoverStale client t =
     (let t = sx_log (XPendingExt (xc_StreamKey (sx_config t)) (xc_ConsumerGroup (sx_config t)) (sx_consumerName t)) t
      in case on_XPendingExt client (sx_calls t) of
           Inl err \<Rightarrow>
             if \<not> strings_Contains err ''NOGROUP'' then (Some (ExternalError err), t)
             else claim_stale client t
         | Inr pending \<Rightarrow> claim_stale client (ack_ids pending t))"

definition streams_Publish :: "streams_client \<Rightarrow> streams \<Rightarrow> Message \<Rightarrow> go_error option \<times> smap \<times> streams" where
  "streams_Publish client t msg =
     (let attrs = stamped (xc_TopicAttribute (sx_config t)) msg;
          attributes = callers_map (m_Attributes msg) attrs;
          values = [''payload'' \<mapsto> AddString (m_Payload msg), ''topic'' \<mapsto> AddString (m_Topic msg), ''attributes'' \<mapsto> AddMap attributes];
          t = sx_log (XAdd (xc_StreamKey (sx_config t)) values) t
      in (map_option ExternalError (on_XAdd client (sx_calls t)), attributes, t))"

text \<open>\<open>s, _ := v.(string)\<close>: the zero value when the field is missing or no string.\<close>

definition as_string :: "entry_val option \<Rightarrow> string" where
  "as_string v = (case v of Some (StringVal s) \<Rightarrow> s | _ \<Rightarrow> '''')"

definition as_attrs :: "entry_val option \<Rightarrow> (string \<rightharpoonup> string)" where
  "as_attrs v = (case v of Some (IfaceMap kvs) \<Rightarrow> foldl (\<lambda>m (k, v). m(k \<mapsto> v)) Map.empty kvs | _ \<Rightarrow> Map.empty)"

definition xmsg_message :: "(nat \<Rightarrow> nat \<Rightarrow> nat \<Rightarrow> nat) \<Rightarrow> xmessage \<Rightarrow> Message" where
  "xmsg_message fl xmsg =
     (let attrs = as_attrs (xm_Values xmsg ''attributes'')
      in \<lparr>m_ID = xm_ID xmsg, m_Topic = as_string (xm_Values xmsg ''topic''), m_Payload = as_string (xm_Values xmsg ''payload''),
          m_Attributes = Some attrs, m_ReceiptHandle = xm_ID xmsg, m_Attempts = 0, m_NotBefore = read_notBefore fl (Some attrs)\<rparr>)"

text \<open>One iteration of the loop of \<open>Subscribe\<close>; an error of the read is retried unless the context is done.\<close>

definition streams_iteration :: "(nat \<Rightarrow> nat \<Rightarrow> nat \<Rightarrow> nat) \<Rightarrow> streams_client \<Rightarrow> sub_env \<Rightarrow> streams \<Rightarrow> (iteration \<times> streams) go" where
  "streams_iteration fl client e t =
     (if ev_ctx e then Inr (Stop (Some ContextCanceled), t)
      else
        (let c = sx_config t;
             t = sx_log (XReadGroup (xc_ConsumerGroup c) (sx_consumerName t) (xc_StreamKey c) ''>'' (xc_BatchSize c)
                   (xc_BlockTimeout c)) t
         in case on_XReadGroup client (sx_calls t) of
              Inl err \<Rightarrow> if ev_ctxAfter e then Inr (Stop (Some ContextCanceled), t) else Inr (Batches [], t)
            | Inr result \<Rightarrow> Inr (Batches (map (\<lambda>stream. map (xmsg_message fl) (snd stream)) result), t)))"

definition streams_Subscribe :: "(nat \<Rightarrow> nat \<Rightarrow> nat \<Rightarrow> nat) \<Rightarrow> streams_client \<Rightarrow> 'h ConsumeHandler \<Rightarrow> sub_env list \<Rightarrow> streams \<Rightarrow> 'h
    \<Rightarrow> (sub_result \<times> streams \<times> 'h) go" where
  "streams_Subscribe fl client handler es t h =
     (case bootstrap client t of
        (Some err, t) \<Rightarrow> Inr (SubReturned (Some err), t, h)
      | (None, t) \<Rightarrow> subscribe_loop (streams_iteration fl client) handler es (snd (recoverStale client t)) h)"

definition streams_Ack :: "streams_client \<Rightarrow> streams \<Rightarrow> Message list \<Rightarrow> go_error option \<times> streams" where
  "streams_Ack client t messages =
     (let t = sx_log (XAck (xc_StreamKey (sx_config t)) (xc_ConsumerGroup (sx_config t)) (map m_ReceiptHandle messages)) t
      in (map_option ExternalError (on_XAck client (sx_calls t)), t))"

definition streams_Nack :: "streams_client \<Rightarrow> streams \<Rightarrow> Message \<Rightarrow> duration \<Rightarrow> go_error option \<times> streams" where
  "streams_Nack client t msg delay =
     (let c = sx_config t
      in if delay > 0 then
           (let t = sx_log (XClaim (xc_StreamKey c) (xc_ConsumerGroup c) (sx_consumerName t) delay [m_ReceiptHandle msg]) t
            in (case on_XClaim client (sx_calls t) of Inl err \<Rightarrow> Some (ExternalError err) | Inr _ \<Rightarrow> None, t))
         else
           (let t = sx_log (XAck (xc_StreamKey c) (xc_ConsumerGroup c) [m_ReceiptHandle msg]) t
            in (map_option ExternalError (on_XAck client (sx_calls t)), t)))"

definition dlq_values :: "Message \<Rightarrow> (string \<rightharpoonup> add_val)" where
  "dlq_values msg = [''payload'' \<mapsto> AddString (m_Payload msg), ''topic'' \<mapsto> AddString (m_Topic msg),
     ''attributes'' \<mapsto> AddMap (m_Attributes msg), ''dlq_reason'' \<mapsto> AddString ''max_retries_exceeded'']"

definition streams_SendToDLQ :: "streams_client \<Rightarrow> streams \<Rightarrow> Message \<Rightarrow> go_error option \<times> streams" where
  "streams_SendToDLQ client t msg =
     (let c = sx_config t
      in if xc_DLQStreamKey c = '''' then (None, t)
         else
           (let t = sx_log (XAdd (xc_DLQStreamKey c) (dlq_values msg)) t
            in case on_XAdd client (sx_calls t) of
                 Some err \<Rightarrow> (Some (ExternalError err), t)
               | None \<Rightarrow>
                   (let t = sx_log (XAck (xc_StreamKey c) (xc_ConsumerGroup c) [m_ReceiptHandle msg]) t
                    in (map_option ExternalError (on_XAck client (sx_calls t)), t))))"

definition streams_Close :: "streams_client \<Rightarrow> streams \<Rightarrow> go_error option \<times> streams" where
  "streams_Close client t = (let t = sx_log XClose t in (map_option ExternalError (on_XClose client (sx_calls t)), t))"

definition StreamsTransport :: "streams_client \<Rightarrow> streams Transport" where
  "StreamsTransport client = \<lparr>t_Publish = \<lambda>t msg. (case streams_Publish client t msg of (err, _, t) \<Rightarrow> Inr (err, t)),
     t_Ack = streams_Ack client, t_Nack = streams_Nack client, t_SendToDLQ = streams_SendToDLQ client,
     t_Close = \<lambda>t. Inr (streams_Close client t)\<rparr>"

section \<open>The contract with the pipeline\<close>

lemma sx_log_sel [simp]:
  "sx_config (sx_log c t) = sx_config t" "sx_consumerName (sx_log c t) = sx_consumerName t"
  "sx_calls (sx_log c t) = sx_calls t @ [c]"
  by (simp_all add: sx_log_def)

definition xack_call :: "streams \<Rightarrow> string list \<Rightarrow> streams_call" where
  "xack_call t ids = XAck (xc_StreamKey (sx_config t)) (xc_ConsumerGroup (sx_config t)) ids"

definition sx_ack_calls :: "streams \<Rightarrow> Message list \<Rightarrow> streams_call list" where
  "sx_ack_calls t ms = [xack_call t (map m_ReceiptHandle ms)]"

definition sx_nack_calls :: "streams \<Rightarrow> Message \<Rightarrow> duration \<Rightarrow> streams_call list" where
  "sx_nack_calls t m d =
     [if d > 0 then XClaim (xc_StreamKey (sx_config t)) (xc_ConsumerGroup (sx_config t)) (sx_consumerName t) d [m_ReceiptHandle m]
      else xack_call t [m_ReceiptHandle m]]"

definition sx_dlq_calls :: "streams_client \<Rightarrow> streams \<Rightarrow> Message \<Rightarrow> streams_call list" where
  "sx_dlq_calls client t m =
     (let add = XAdd (xc_DLQStreamKey (sx_config t)) (dlq_values m)
      in if xc_DLQStreamKey (sx_config t) = '''' then []
         else add # (if on_XAdd client (sx_calls t @ [add]) = None then [xack_call t [m_ReceiptHandle m]] else []))"

lemma StreamsTransport_sel [frame_simps]:
  "t_Ack (StreamsTransport client) = streams_Ack client" "t_Nack (StreamsTransport client) = streams_Nack client"
  "t_SendToDLQ (StreamsTransport client) = streams_SendToDLQ client"
  by (simp_all add: StreamsTransport_def)

interpretation streams: broker "StreamsTransport client" "\<lambda>_. True" sx_calls sx_ack_calls sx_nack_calls "sx_dlq_calls client"
  for client
proof (unfold_locales, simp_all)
  fix t ms
  show "sx_calls (snd (t_Ack (StreamsTransport client) t ms)) = sx_calls t @ sx_ack_calls t ms"
    by (simp add: frame_simps streams_Ack_def sx_ack_calls_def xack_call_def Let_def)
next
  fix t m d
  show "sx_calls (snd (t_Nack (StreamsTransport client) t m d)) = sx_calls t @ sx_nack_calls t m d"
    by (simp add: frame_simps streams_Nack_def sx_nack_calls_def xack_call_def Let_def)
next
  fix t m
  show "sx_calls (snd (t_SendToDLQ (StreamsTransport client) t m)) = sx_calls t @ sx_dlq_calls client t m"
    by (simp add: frame_simps streams_SendToDLQ_def sx_dlq_calls_def xack_call_def Let_def split: option.split)
qed

section \<open>Subscribe\<close>

fun is_read :: "streams_call \<Rightarrow> bool" where
  "is_read (XReadGroup g c s start n b) = True"
| "is_read _ = False"

definition read_batches :: "(nat \<Rightarrow> nat \<Rightarrow> nat \<Rightarrow> nat) \<Rightarrow> string + (string \<times> xmessage list) list \<Rightarrow> Message list list" where
  "read_batches fl out = (case out of
     Inl _ \<Rightarrow> [] | Inr result \<Rightarrow> map (\<lambda>stream. map (xmsg_message fl) (snd stream)) result)"

definition streams_received :: "(nat \<Rightarrow> nat \<Rightarrow> nat \<Rightarrow> nat) \<Rightarrow> streams_client \<Rightarrow> streams \<Rightarrow> Message list list" where
  "streams_received fl client t = concat (map (read_batches fl) (answers is_read (on_XReadGroup client) (sx_calls t)))"

lemma streams_received_log:
  "streams_received fl client (sx_log c t) =
     streams_received fl client t @ (if is_read c then read_batches fl (on_XReadGroup client (sx_calls t @ [c])) else [])"
  by (simp add: streams_received_def answers_snoc)

interpretation streams_sub: subscription "streams_iteration fl client" "\<lambda>_. True" "streams_received fl client" for fl client
proof
  fix e t
  show "\<exists>it t'. streams_iteration fl client e t = Inr (it, t') \<and> True"
    by (auto simp: streams_iteration_def Let_def split: sum.split)
next
  fix e t r t'
  assume "streams_iteration fl client e t = Inr (Stop r, t')"
  then show "streams_received fl client t' = streams_received fl client t"
    by (auto simp: streams_iteration_def Let_def streams_received_log read_batches_def split: if_splits sum.splits)
next
  fix e t bs t'
  assume "streams_iteration fl client e t = Inr (Batches bs, t')"
  then show "streams_received fl client t' = streams_received fl client t @ bs"
    by (auto simp: streams_iteration_def Let_def streams_received_log read_batches_def split: if_splits sum.splits)
qed

text \<open>Every read asks for entries that were never delivered to the group.\<close>

definition read_new :: "streams \<Rightarrow> streams_call" where
  "read_new t = (let c = sx_config t in XReadGroup (xc_ConsumerGroup c) (sx_consumerName t) (xc_StreamKey c) ''>'' (xc_BatchSize c)
     (xc_BlockTimeout c))"

lemma iteration_calls:
  assumes "streams_iteration fl client e t = Inr (it, t')"
  shows "sx_config t' = sx_config t \<and> sx_consumerName t' = sx_consumerName t \<and>
    (sx_calls t' = sx_calls t \<or> sx_calls t' = sx_calls t @ [read_new t])"
  using assms by (auto simp: streams_iteration_def Let_def read_new_def split: if_splits sum.splits)

lemma loop_calls:
  assumes "subscribe_loop (streams_iteration fl client) handler es t h = Inr (r, t', h')"
  shows "\<exists>n. sx_calls t' = sx_calls t @ replicate n (read_new t)"
  using assms
proof (induction es arbitrary: t h)
  case Nil
  then show ?case by (auto intro: exI[of _ 0])
next
  case (Cons e es)
  obtain it t1 where it: "streams_iteration fl client e t = Inr (it, t1)"
    using streams_sub.body_total[OF TrueI, of fl client e t] by blast
  from iteration_calls[OF it] have same: "read_new t1 = read_new t" by (simp add: read_new_def)
  have one: "\<exists>k. sx_calls t1 = sx_calls t @ replicate k (read_new t)"
    using iteration_calls[OF it] by (auto intro: exI[of _ 0] exI[of _ 1])
  from Cons.prems it consider "t' = t1" | h1 where "subscribe_loop (streams_iteration fl client) handler es t1 h1 = Inr (r, t', h')"
    by (auto split: iteration.splits prod.splits option.splits)
  then show ?case
  proof cases
    case 1
    with one show ?thesis by simp
  next
    case 2
    from Cons.IH[OF this] one same show ?thesis by (metis append_assoc replicate_add)
  qed
qed

lemma ack_ids_sel [simp]:
  "sx_config (ack_ids ids t) = sx_config t" "sx_consumerName (ack_ids ids t) = sx_consumerName t"
  "sx_calls (ack_ids ids t) = sx_calls t @ map (\<lambda>i. xack_call t [i]) ids"
  by (induction ids arbitrary: t) (simp_all add: xack_call_def)

lemma claim_stale_calls:
  "\<exists>claimed. sx_calls (snd (claim_stale client t)) = sx_calls t @
     [XClaim (xc_StreamKey (sx_config t)) (xc_ConsumerGroup (sx_config t)) (sx_consumerName t) (xc_IdleTimeout (sx_config t)) []] @
     map (\<lambda>i. xack_call t [i]) claimed"
  "sx_config (snd (claim_stale client t)) = sx_config t" "sx_consumerName (snd (claim_stale client t)) = sx_consumerName t"
  by (auto simp: claim_stale_def Let_def xack_call_def split: sum.split intro: exI[of _ "[]"])

lemma recoverStale_sel:
  "sx_config (snd (recoverStale client t)) = sx_config t" "sx_consumerName (snd (recoverStale client t)) = sx_consumerName t"
  by (simp_all add: recoverStale_def Let_def claim_stale_calls split: sum.split)

lemma ack_ids_received: "streams_received fl client (ack_ids ids t) = streams_received fl client t"
  by (induction ids arbitrary: t) (simp_all add: streams_received_log)

lemma recoverStale_received: "streams_received fl client (snd (recoverStale client t)) = streams_received fl client t"
  by (simp add: recoverStale_def claim_stale_def Let_def ack_ids_received streams_received_log split: sum.split)

lemma bootstrap_sel:
  "sx_config (snd (bootstrap client t)) = sx_config t" "sx_consumerName (snd (bootstrap client t)) = sx_consumerName t"
  "streams_received fl client (snd (bootstrap client t)) = streams_received fl client t"
  by (simp_all add: bootstrap_def Let_def streams_received_log split: option.split)

section \<open>Examples\<close>

definition sample_streams :: streams where
  "sample_streams = streams_NewWithClient ''pod'' 7 \<lparr>xc_Addr = ''localhost:6379'', xc_StreamKey = ''s'', xc_ConsumerGroup = ''g'',
     xc_ConsumerName = '''', xc_DLQStreamKey = '''', xc_Password = '''', xc_DB = 0, xc_BlockTimeout = 0, xc_BatchSize = 0,
     xc_IdleTimeout = 0, xc_TopicAttribute = ''''\<rparr>"

definition sample_xmessage :: xmessage where
  "sample_xmessage = \<lparr>xm_ID = ''9-0'', xm_Values = [''payload'' \<mapsto> StringVal ''p'', ''topic'' \<mapsto> StringVal ''t'', ''attributes'' \<mapsto> StringVal ''map[]'']\<rparr>"

text \<open>The group exists, entries \<open>1-0\<close> and \<open>2-0\<close> are pending, and the first read has one new entry.\<close>

definition sample_streams_client :: streams_client where
  "sample_streams_client = \<lparr>on_XGroupCreate = \<lambda>_. Some ''BUSYGROUP Consumer Group name already exists'',
     on_XPendingExt = \<lambda>_. Inr [''1-0'', ''2-0''], on_XAck = \<lambda>_. None, on_XClaim = \<lambda>_. Inl ''ERR wrong number of arguments'',
     on_XAdd = \<lambda>_. None, on_XReadGroup = \<lambda>hist. Inr (if length hist = 6 then [(''s'', [sample_xmessage])] else []),
     on_XClose = \<lambda>_. None\<rparr>"

definition streams_runtime :: "(streams, MemoryStore, unit) runtime" where
  "streams_runtime = \<lparr>rt_handlers = [''t'' \<mapsto> poison_entry], rt_transport = StreamsTransport sample_streams_client,
     rt_hooks = no_hooks, rt_idemFilter = None, rt_conv = \<lambda>_. 0\<rparr>"

definition streams_world :: "(streams, MemoryStore, unit) world" where
  "streams_world = \<lparr>x_ring = sample_ring, x_transport = sample_streams, x_store = NewMemoryStore, x_wheel = wheel_New,
     x_user = (), x_events = []\<rparr>"

lemma sample_streams_facts:
  "sx_calls sample_streams = []" "xc_StreamKey (sx_config sample_streams) = ''s''" "xc_ConsumerGroup (sx_config sample_streams) = ''g''"
  "xc_DLQStreamKey (sx_config sample_streams) = ''''" "xc_TopicAttribute (sx_config sample_streams) = ''X-Topic''"
  by (simp_all add: sample_streams_def streams_NewWithClient_def streams_defaults_def Let_def)

lemma sample_streams_client_sel:
  "on_XPendingExt sample_streams_client hist = Inr [''1-0'', ''2-0'']"
  "on_XClaim sample_streams_client hist = Inl ''ERR wrong number of arguments''"
  "on_XReadGroup sample_streams_client hist = Inr (if length hist = 6 then [(''s'', [sample_xmessage])] else [])"
  by (simp_all add: sample_streams_client_def)

lemma sample_bootstrap:
  "bootstrap sample_streams_client sample_streams = (None, sx_log (XGroupCreateMkStream ''s'' ''g'' ''0'') sample_streams)"
  by (simp add: bootstrap_def sample_streams_facts sample_streams_client_def)

section \<open>Properties\<close>

text \<open>C29. Every outcome on Redis Streams is settled by exactly these calls: an acknowledgement by one
  \<open>XACK\<close>; a delayed retry by an \<open>XCLAIM\<close> for the consumer itself, which leaves the entry pending;
  a dead letter by an \<open>XADD\<close> to the dead-letter stream and, if that succeeded, by \<open>XACK\<close>s; and
  without a dead-letter stream by an \<open>XACK\<close> alone, so that the message is gone.\<close>

theorem streams_settlement:
  assumes "rt_transport r = StreamsTransport client" and "processMessage r now msg entry w = Inr (res, w')"
    and "out = outcome_of r (x_user w) msg entry" and "m = o_Message out" and "c = sx_config (x_transport w)"
  shows "sx_calls (x_transport w') = sx_calls (x_transport w) @
    (let xack = XAck (xc_StreamKey c) (xc_ConsumerGroup c) [m_ReceiptHandle m];
         add = XAdd (xc_DLQStreamKey c) (dlq_values m)
     in case o_Action out of
          Ack \<Rightarrow> [xack]
        | RetryWithDelay \<Rightarrow>
            [if o_Delay out > 0
             then XClaim (xc_StreamKey c) (xc_ConsumerGroup c) (sx_consumerName (x_transport w)) (o_Delay out) [m_ReceiptHandle m]
             else xack]
        | DLQ \<Rightarrow>
            if xc_DLQStreamKey c = '''' then [xack]
            else if on_XAdd client (sx_calls (x_transport w) @ [add]) \<noteq> None then [add]
            else if on_XAck client (sx_calls (x_transport w) @ [add, xack]) \<noteq> None then [add, xack]
            else [add, xack, xack]
        | _ \<Rightarrow> [])"
  using streams.process_law[OF assms(1) TrueI assms(2)] unfolding assms(3-5)
  by (cases "o_Action (outcome_of r (x_user w) msg entry)")
    (auto simp: settle_calls_def Let_def frame_simps sx_ack_calls_def sx_nack_calls_def sx_dlq_calls_def xack_call_def
      streams_SendToDLQ_def split: option.split)

theorem streams_settlement_witness:
  "\<exists>res w'. processMessage streams_runtime (at_second 0) (sample_msg 2) poison_entry streams_world = Inr (res, w') \<and>
     sx_calls (x_transport w') = [XAck ''s'' ''g'' [''r'']]"
proof -
  obtain res w' where p: "processMessage streams_runtime (at_second 0) (sample_msg 2) poison_entry streams_world = Inr (res, w')"
    by (simp add: processMessage_def process_switch_def split_def Let_def resolveOutcome_def poison_entry_def
        default_Handle_def default_retry_def ask_retry_def sample_msg_def wrap64_def)
  have "outcome_of streams_runtime (x_user streams_world) (sample_msg 2) poison_entry =
    \<lparr>o_Action = DLQ, o_Message = sample_msg 2, o_Delay = 0, o_Err = Some (MaxRetriesExceeded 2 (r_Err ask_retry))\<rparr>"
    by (simp add: outcome_of_def resolveOutcome_def poison_entry_def default_Handle_def default_retry_def
        ask_retry_def sample_msg_def wrap64_def)
  with streams_settlement[OF _ p, of sample_streams_client] p show ?thesis
    by (auto simp: streams_runtime_def streams_world_def sample_streams_facts sample_msg_def)
qed

text \<open>C36. A restart drops what was in progress: when \<open>Subscribe\<close> starts, every entry that the client
  reports as pending for this consumer is acknowledged, one \<open>XACK\<close> each, before the first read;
  all reads ask for new entries only, and the handler gets nothing but what those reads
  return.\<close>

theorem streams_restart_acks_pending:
  assumes "bootstrap client t = (None, t1)"
    and "on_XPendingExt client (sx_calls t1 @ [XPendingExt (xc_StreamKey (sx_config t)) (xc_ConsumerGroup (sx_config t)) (sx_consumerName t)])
      = Inr pending"
  shows "\<exists>r t' h' batches rest before claimed n.
    streams_Subscribe fl client (keeping handler) es t (h, []) = Inr (r, t', (h', batches)) \<and>
    sx_calls t' = before @ map (\<lambda>i. XAck (xc_StreamKey (sx_config t)) (xc_ConsumerGroup (sx_config t)) [i]) pending @
      [XClaim (xc_StreamKey (sx_config t)) (xc_ConsumerGroup (sx_config t)) (sx_consumerName t) (xc_IdleTimeout (sx_config t)) []] @
      map (\<lambda>i. XAck (xc_StreamKey (sx_config t)) (xc_ConsumerGroup (sx_config t)) [i]) claimed @ replicate n (read_new t) \<and>
    streams_received fl client t' = streams_received fl client t @ batches @ rest"
proof -
  let ?t2 = "snd (recoverStale client t1)"
  have t1: "sx_config t1 = sx_config t" "sx_consumerName t1 = sx_consumerName t" "streams_received fl client t1 = streams_received fl client t"
    using bootstrap_sel(1,2)[of client t] bootstrap_sel(3)[of fl client t] assms(1) by simp_all
  let ?p = "XPendingExt (xc_StreamKey (sx_config t)) (xc_ConsumerGroup (sx_config t)) (sx_consumerName t)"
  have rs: "?t2 = snd (claim_stale client (ack_ids pending (sx_log ?p t1)))"
    using assms(2) t1 by (simp add: recoverStale_def)
  obtain claimed where c: "sx_calls ?t2 = (sx_calls t1 @ [?p]) @ map (\<lambda>i. xack_call t [i]) pending @
     [XClaim (xc_StreamKey (sx_config t)) (xc_ConsumerGroup (sx_config t)) (sx_consumerName t) (xc_IdleTimeout (sx_config t)) []] @
     map (\<lambda>i. xack_call t [i]) claimed"
    unfolding rs using claim_stale_calls(1)[of client "ack_ids pending (sx_log ?p t1)"] t1 by (auto simp: xack_call_def)
  obtain r t' h' bs rest where run: "subscribe_loop (streams_iteration fl client) (keeping handler) es ?t2 (h, []) = Inr (r, t', (h', bs))"
    and rec: "streams_received fl client t' = streams_received fl client ?t2 @ bs @ rest"
    using streams_sub.delivers[OF TrueI, of fl client handler es ?t2 h "[]"] by auto
  obtain n where n: "sx_calls t' = sx_calls ?t2 @ replicate n (read_new t)"
    using loop_calls[OF run] recoverStale_sel[of client t1] t1 by (auto simp: read_new_def)
  have "streams_Subscribe fl client (keeping handler) es t (h, []) = Inr (r, t', (h', bs))"
    using assms(1) run by (simp add: streams_Subscribe_def)
  then show ?thesis using c n rec recoverStale_received[of fl client t1] t1
    unfolding xack_call_def by (metis append_assoc)
qed

theorem streams_restart_acks_pending_witness:
  "\<exists>r t' h' batches. streams_Subscribe (\<lambda>_ _ _. 0) sample_streams_client (keeping (\<lambda>h _. (None, h)))
       [\<lparr>ev_ctx = False, ev_close = False, ev_pickCtx = False, ev_ctxAfter = False\<rparr>] sample_streams ((), []) = Inr (r, t', (h', batches)) \<and>
     XAck ''s'' ''g'' [''1-0''] \<in> set (sx_calls t') \<and> XAck ''s'' ''g'' [''2-0''] \<in> set (sx_calls t')"
proof -
  from streams_restart_acks_pending[OF sample_bootstrap sample_streams_client_sel(1), of "\<lambda>_ _ _. 0" "\<lambda>h _. (None, h)"
      "[\<lparr>ev_ctx = False, ev_close = False, ev_pickCtx = False, ev_ctxAfter = False\<rparr>]" "()"]
  obtain r t' h' batches rest before claimed n where
    "streams_Subscribe (\<lambda>_ _ _. 0) sample_streams_client (keeping (\<lambda>h _. (None, h)))
       [\<lparr>ev_ctx = False, ev_close = False, ev_pickCtx = False, ev_ctxAfter = False\<rparr>] sample_streams ((), []) = Inr (r, t', (h', batches))"
    and "sx_calls t' = before @ map (\<lambda>i. XAck ''s'' ''g'' [i]) [''1-0'', ''2-0''] @
      [XClaim ''s'' ''g'' (sx_consumerName sample_streams) (xc_IdleTimeout (sx_config sample_streams)) []] @
      map (\<lambda>i. XAck ''s'' ''g'' [i]) claimed @ replicate n (read_new sample_streams)"
    unfolding sample_streams_facts by blast
  then show ?thesis by auto
qed

text \<open>What of a message published to a stream arrives when the entry read back holds the strings
  that were added (a stream holds strings only): topic and payload do; the attributes and with
  them the delay do not. When the message has no attributes, the topic attribute and the delay
  are not even sent.\<close>

theorem streams_publish_loses_attributes:
  assumes "streams_Publish client t msg = (err, callers, t')" and "sx_calls t' = sx_calls t @ [XAdd stream values]"
    and "\<forall>k s. values k = Some (AddString s) \<longrightarrow> xm_Values x k = Some (StringVal s)"
    and "\<forall>k kvs. xm_Values x k \<noteq> Some (IfaceMap kvs)"
  shows "xmsg_message fl x = msg\<lparr>m_ID := xm_ID x, m_ReceiptHandle := xm_ID x, m_Attempts := 0, m_Attributes := Some Map.empty,
      m_NotBefore := 0\<rparr> \<and>
    values ''attributes'' = Some (AddMap callers) \<and> (m_Attributes msg = None \<longrightarrow> callers = None)"
proof -
  have v: "values = [''payload'' \<mapsto> AddString (m_Payload msg), ''topic'' \<mapsto> AddString (m_Topic msg), ''attributes'' \<mapsto> AddMap callers]"
    and c: "callers = callers_map (m_Attributes msg) (stamped (xc_TopicAttribute (sx_config t)) msg)"
    using assms(1,2) by (auto simp: streams_Publish_def Let_def)
  have "xm_Values x ''payload'' = Some (StringVal (m_Payload msg))" "xm_Values x ''topic'' = Some (StringVal (m_Topic msg))"
    using assms(3) by (simp_all add: v)
  moreover have "as_attrs (xm_Values x ''attributes'') = Map.empty"
    using assms(4) by (auto simp: as_attrs_def split: option.split entry_val.split)
  ultimately show ?thesis
    using c by (auto simp: xmsg_message_def as_string_def read_notBefore_def smap_get_def v callers_map_def)
qed

theorem streams_publish_loses_attributes_witness:
  "xmsg_message (\<lambda>_ _ _. 0) sample_xmessage = ((sample_msg 0)\<lparr>m_NotBefore := 60 * Second\<rparr>)\<lparr>m_ID := ''9-0'', m_ReceiptHandle := ''9-0'',
     m_Attempts := 0, m_Attributes := Some Map.empty, m_NotBefore := 0\<rparr>"
proof -
  let ?msg = "(sample_msg 0)\<lparr>m_NotBefore := 60 * Second\<rparr>"
  obtain err callers t' where p: "streams_Publish sample_streams_client sample_streams ?msg = (err, callers, t')" by (metis prod.exhaust)
  let ?v = "[''payload'' \<mapsto> AddString ''p'', ''topic'' \<mapsto> AddString ''t'', ''attributes'' \<mapsto> AddMap None]"
  have "sx_calls t' = sx_calls sample_streams @ [XAdd ''s'' ?v]"
    using p by (auto simp: streams_Publish_def Let_def sample_msg_def callers_map_def sample_streams_facts)
  from streams_publish_loses_attributes[OF p this, of sample_xmessage "\<lambda>_ _ _. 0"] show ?thesis
    by (simp add: sample_xmessage_def)
qed

text \<open>\<open>Subscribe\<close> on Redis Streams hands over what it reads, once and in order; a read that fails is
  tried again, and the loop ends only when the context is done or the handler fails, in which
  case the batches of the last read that were not yet handed over stay pending.\<close>

theorem streams_subscribe_delivers:
  assumes "bootstrap client t = (None, t1)"
  shows "\<exists>r t' h' batches rest.
    streams_Subscribe fl client (keeping handler) es t (h, []) = Inr (r, t', (h', batches)) \<and>
    streams_received fl client t' = streams_received fl client t @ batches @ rest \<and>
    (case r of
       SubRunning \<Rightarrow> rest = []
     | SubReturned x \<Rightarrow>
         rest = [] \<and> x = Some ContextCanceled \<and> (\<exists>e \<in> set es. ev_ctx e \<or> ev_ctxAfter e) \<or>
         batches \<noteq> [] \<and> x \<noteq> None \<and> (\<exists>g. fst (handler g (last batches)) = x))"
proof -
  let ?t2 = "snd (recoverStale client t1)"
  have rec0: "streams_received fl client ?t2 = streams_received fl client t"
    using bootstrap_sel(3)[of fl client t] assms recoverStale_received[of fl client t1] by simp
  obtain r t' h' bs rest where run: "subscribe_loop (streams_iteration fl client) (keeping handler) es ?t2 (h, []) = Inr (r, t', (h', bs))"
    and rec: "streams_received fl client t' = streams_received fl client ?t2 @ bs @ rest"
    and why: "ended (\<lambda>_. True) (streams_iteration fl client) handler es t' bs rest r"
    using streams_sub.delivers[OF TrueI, of fl client handler es ?t2 h "[]"] by auto
  have stop: "x = Some ContextCanceled \<and> (ev_ctx e \<or> ev_ctxAfter e)" if "streams_iteration fl client e s = Inr (Stop x, t')" for e s x
    using that by (auto simp: streams_iteration_def Let_def split: if_splits sum.splits)
  have "streams_Subscribe fl client (keeping handler) es t (h, []) = Inr (r, t', (h', bs))"
    using assms run by (simp add: streams_Subscribe_def)
  moreover have "case r of SubRunning \<Rightarrow> rest = []
     | SubReturned x \<Rightarrow> rest = [] \<and> x = Some ContextCanceled \<and> (\<exists>e \<in> set es. ev_ctx e \<or> ev_ctxAfter e) \<or>
         bs \<noteq> [] \<and> x \<noteq> None \<and> (\<exists>g. fst (handler g (last bs)) = x)"
    using why stop by (cases r) auto
  ultimately show ?thesis using rec rec0 by auto
qed

theorem streams_subscribe_delivers_witness:
  "\<exists>t' h' msg. streams_Subscribe (\<lambda>_ _ _. 0) sample_streams_client (keeping (\<lambda>h _. (None, h)))
       [\<lparr>ev_ctx = False, ev_close = False, ev_pickCtx = False, ev_ctxAfter = False\<rparr>] sample_streams ((), []) =
     Inr (SubRunning, t', (h', [[msg]])) \<and> m_ID msg = ''9-0''"
  using streams_subscribe_delivers[OF sample_bootstrap, of "\<lambda>_ _ _. 0" "\<lambda>h _. (None, h)"
      "[\<lparr>ev_ctx = False, ev_close = False, ev_pickCtx = False, ev_ctxAfter = False\<rparr>]" "()"]
  by (simp add: streams_Subscribe_def sample_bootstrap streams_iteration_def recoverStale_def claim_stale_def Let_def
      sample_streams_client_sel sample_streams_facts sample_xmessage_def xmsg_message_def keeping_def)

end
