(* ===== verification/Spec2Isabelle.thy ===== *)
theory Spec2Isabelle
  imports Delivery_Spec Programs Example_Mains E2E_Helpers Streams_Transport
begin

text \<open>
  Verification of go-task-orbit, an asynchronous worker library in Go.

  \<^bold>\<open>The program.\<close> A \<open>Pipeline\<close> (\<open>src/ringq/ringq.go\<close>) receives messages from a \<open>Transport\<close>,
  queues them in a bounded ring buffer (\<open>src/ring\<close>) or, when they are to be delayed, in a timer
  wheel (\<open>src/internal/timerwheel\<close>), and runs a handler for each in a worker pool
  (\<open>src/executor\<close>). A retry coordinator (in \<open>ringq.go\<close>, or \<open>src/retry\<close>) turns the handler's result
  into an outcome: acknowledge, retry locally, retry through the transport with a delay, or
  dead-letter. An idempotency filter (\<open>src/ringq/filter.go\<close>, \<open>src/idempotency\<close>) drops messages
  whose key has been seen. \<open>Run\<close> starts five goroutines (poller, ticker, timer, dispatcher,
  workers) and shuts them down in order.

  \<^bold>\<open>The theories\<close>, each with the source it models:
  \<^item> \<open>Prelude\<close>: Go's integers (\<open>64 word\<close>, and \<open>int\<close> with \<open>wrap64\<close>), times, panics, and lemmas on
    masks, lists and multisets that several components use.
  \<^item> \<open>Queue_Interface\<close>: the locales \<open>fifo_queue\<close> and \<open>bounded_fifo\<close>. Interpreted for the ring
    buffer (\<open>ring\<close>), the pool's channel (\<open>chan\<close>) and the in-memory transport (\<open>memq\<close>).
  \<^item> \<open>Ring_Buffer\<close>: \<open>src/ring/buffer.go\<close>, \<open>policy.go\<close>. The struct field by field with 64-bit
    cursors; one definition per method; the refinement to a bounded queue for every overflow
    policy, also with wrapped cursors; \<open>nextPowerOfTwo\<close> and where it fails.
  \<^item> \<open>Ring_Monitor\<close>: the same methods interleaved (\<open>ring_step\<close>): first-in first-out, no lost
    wake-up, \<open>Close\<close> releases every producer, what a racing \<open>Len\<close> returns.
  \<^item> \<open>Types\<close>: \<open>src/ringq/types.go\<close>, \<open>config.go\<close>, \<open>hooks.go\<close>, \<open>transport.go\<close>, \<open>codec.go\<close>, \<open>handler.go\<close>.
  \<^item> \<open>Retry\<close>: both coordinators, behind the locale \<open>retry_policy\<close>: they decide alike, the backoff
    formula, and its overflow.
  \<^item> \<open>Timer_Wheel\<close>: \<open>src/internal/timerwheel/wheel.go\<close> with its ticker goroutine (\<open>Start_step\<close>): a
    pass releases exactly the due items for every map iteration order; items are conserved
    until a cancellation, which can lose a batch.
  \<^item> \<open>Executor\<close>: \<open>src/executor/pool.go\<close> with its workers (\<open>pool_step\<close>): every accepted task runs
    exactly once before \<open>Wait\<close> returns; a stopped pool drains.
  \<^item> \<open>Idempotency\<close>: the filter, its exported twin (proved equivalent) and the stores. The locale
    \<open>idem_store\<close> is what the filter relies on; the memory store provides it. \<open>ms_step\<close>
    interleaves the memory store's calls and shows the race in \<open>Exists\<close>.
  \<^item> \<open>Memory_Transport\<close>: \<open>src/transport/memory/memory.go\<close> with any number of subscribers.
  \<^item> \<open>Dispatch\<close>: from \<open>ringq.go\<close>, the poller's consumer (\<open>consume\<close>), \<open>dispatchBatch\<close>, \<open>processMessage\<close>
    with every branch, \<open>handleUnknownTopic\<close>, the timer's loop and the shutdown's re-enqueue, over
    a \<open>world\<close> (ring, transport, store, wheel, user state, hook calls). \<open>fate_of\<close> and \<open>settled\<close>
    are the specification of what happens to a message: exactly one fate. End to end on the
    in-memory transport, a poison message makes exactly the nacks of the backoff schedule and
    then one dead-letter send.
  \<^item> \<open>Pipeline\<close>: the builder and the start of \<open>Run\<close>.
  \<^item> \<open>Rounds\<close>: whole runs on the in-memory transport, from \<open>Run\<close> and \<open>Publish\<close> to the last
    acknowledgement: transient failures are survived with the exact schedule of nacks; a
    pipeline with a filter refines \<open>accepted\<close>, a specification that knows only deadlines; a
    delayed message waits its delay and then is queued.
  \<^item> \<open>Examples\<close>, \<open>Example_Mains\<close>: \<open>src/examples\<close>: the payload types, handlers, pipelines, messages,
    configurations and the statements of \<open>main\<close> of the eight programs, and what the retry and the
    idempotency program do.
  \<^item> \<open>E2E_Helpers\<close>: \<open>src/e2e/helper.go\<close>, \<open>pubsub_helper.go\<close>: what a set-up leaves, and that the cleanup
    deletes every recorded queue once.
  \<^item> \<open>Go_Duration\<close>: \<open>time.Duration.String\<close> and \<open>time.ParseDuration\<close> of Go's standard library, which
    carry a delay through a broker: parsing inverts printing for every positive duration.
  \<^item> \<open>Broker_Interface\<close>: what the broker transports share, and two contracts. The locale
    \<open>broker\<close>: a settlement method adds exactly the client calls it says; inside it,
    \<open>processMessage\<close> adds exactly the calls of the message's outcome. Interpreted for the
    in-memory transport (\<open>memory\<close>) and for the four below (\<open>sqs\<close>, \<open>gcp\<close>, \<open>redis\<close>, \<open>streams\<close>). The
    locales \<open>subscription\<close> and \<open>batch_subscription\<close>: an iteration of \<open>Subscribe\<close> has for the
    handler exactly what it received; inside them, the loop hands over everything once and
    in order and returns only for a reason. Interpreted as \<open>sqs_sub\<close>, \<open>redis_sub\<close>, \<open>streams_sub\<close>.
  \<^item> \<open>SQS_Transport\<close>: \<open>src/transport/sqs/sqs.go\<close>: round trip of a published message, settlement
    calls, bounds of the visibility timeout, delivery, and the attempt counter that starts
    over with every redelivery.
  \<^item> \<open>PubSub_Transport\<close>: \<open>src/transport/pubsub\<close> with any number of concurrent callbacks (\<open>ps_step\<close>):
    how often a delivery has been settled, by the state of its callback and its channel (exactly
    once when the callback has returned normally); a redelivery strands a callback.
  \<^item> \<open>Redis_Transport\<close>: \<open>src/transport/redis/pubsub.go\<close>: what arrives of a published message, the
    messages handed over, and that no outcome reaches the broker.
  \<^item> \<open>Streams_Transport\<close>: \<open>src/transport/redisstreams/streams.go\<close>: settlement calls, what a restart
    does to pending entries, what is lost of a published message.
  \<^item> \<open>Call_Log\<close>: the transport calls that \<open>dispatchBatch\<close> and a task make, recorded on a copy of the
    transport (recording changes nothing of what they do), and the messages they settle (\<open>call_ids\<close>).
  \<^item> \<open>System\<close>: all goroutines of \<open>Run\<close> as one transition system, a step relation for each (\<open>poll_step\<close>,
    \<open>timer_step\<close>, \<open>disp_step\<close>, \<open>work_step\<close>, \<open>main_step\<close>) and their interleaving with the cancellation (\<open>sys_step\<close>).
    Four components of its state are history that no step reads: \<open>z_received\<close>, the calls made
    (\<open>z_calls\<close>; what is settled is read off them), the messages left with the broker (\<open>z_left\<close>: the
    dead-letter send failed, or the outcome has an unknown action) and the ones lost (\<open>z_lost\<close>).
  \<^item> \<open>System_Inv\<close>: its invariants, proved goroutine by goroutine, and the conservation of messages.
  \<^item> \<open>System_Runs\<close>: message conservation over every interleaving, the state in which \<open>Run\<close> returns, and
    a reachable deadlock of local retries.
  \<^item> \<open>Delivery_Spec\<close>: the abstract machine of deliveries (received, pending, settled, left, lost, stopped,
    returned) and the refinement: every run of \<open>sys_step\<close> is a run of it.
  \<^item> \<open>System_Ring\<close>: every step of \<open>sys_step\<close> makes at most one \<open>ring_step\<close>; the sleepers at the ring are the
    goroutines parked in \<open>Enqueue\<close>, and no wake-up is lost.
  \<^item> \<open>Handled\<close>: runs in which the transport hands over messages with a property \<open>P\<close> only (\<open>fed_run\<close>):
    messages only move through the pipeline; for handlers that acknowledge, the state of the
    user code is the effect of each settled message, once.
  \<^item> \<open>Progress\<close>: what it takes for work to come to an end: no message with \<open>P\<close> ends in a local retry
    (\<open>never_local_retry\<close>) and the store of the filter does not panic (\<open>filter_safe\<close>). Default coordinators
    qualify for all messages whose attempts are counted from 0 (\<open>default_never_retries\<close>), the memory
    store does (\<open>memory_filter_safe\<close>). Then the workers can always complete a batch.
  \<^item> \<open>Shutdown\<close>: whether \<open>Run\<close> returns. The locale \<open>stoppable\<close> says what a pipeline needs (interpreted as
    \<open>sample\<close>, whose handler always asks for a retry); inside it, every state before a cancellation
    leads to a return with everything settled, left with the broker or lost from the timer.
    After a cancellation it need not return: a call of the consumer can be left behind at a full ring.
    When \<open>Subscribe\<close> fails, \<open>Run\<close> returns nil and the error is lost.
  \<^item> \<open>Programs\<close>: the locale \<open>once\<close> (interpreted as \<open>orders\<close>) joins the two: with handlers that acknowledge,
    every delivery is handled exactly once by the time \<open>Run\<close> returns; the programs \<open>examples/simple\<close>
    and \<open>examples/otel\<close> are instances.

  \<^bold>\<open>Correspondence.\<close> A Go struct is a record with the source's field names behind a prefix, a
  method is a definition of the same name (prefixed where names clash). A critical section of a
  mutex is one atomic step; a call that can block ends with a value that says so (\<open>Waiting\<close>,
  \<open>Blocked\<close>, \<open>Inr None\<close>) and has a second definition for its continuation (\<open>Enqueue_resume\<close>,
  \<open>Subscribe_wake\<close>). Panics are \<open>Inl\<close> of \<open>go_panic\<close>, errors are values of \<open>go_error\<close>. Clock readings
  and map iteration orders are arguments; the theorems quantify over them.

  \<^bold>\<open>Parameters.\<close> User code (handlers, hooks, coordinators, codecs, \<open>encoding/json\<close>), the client
  libraries of the idempotency store and of the four broker transports, and the float
  operations whose result is not exact (\<open>conv\<close>, \<open>fl\<close>, \<open>secs\<close>). A broker's client answers as any
  function of all calls made so far, so the theorems hold for every behaviour of the broker;
  where one relies on documented behaviour it is a hypothesis (\<open>sets_pointers\<close>, the JSON round
  trip, the strings of a stream entry). \<open>Dispatch\<close> and \<open>System\<close> hold for any transport. Hooks
  record events and do nothing else.

  \<^bold>\<open>Bounds.\<close> \<open>memory_rounds\<close> counts rounds; \<open>poison_end_to_end\<close> and
  \<open>retry_until_success\<close> show the exact number. The
  loops over lists and slices are structural recursions; a \<open>Subscribe\<close> loop runs over a list with
  one element per iteration, of any length, and \<open>parse_loop\<close> ends because every term consumes
  its unit. Buffer sizes up to \<open>2^32\<close> are
  covered by \<open>ring_New_ok\<close>.

  \<^bold>\<open>Schedules.\<close> \<open>System\<close> has every interleaving of the goroutines. The end-to-end results of \<open>Dispatch\<close>,
  \<open>Rounds\<close> and \<open>Examples\<close> are about one sequential schedule of the same operations: \<open>memory_round\<close>
  receives, queues, dispatches and processes one batch, \<open>run_phases\<close> and \<open>run_main\<close> publish and run such
  rounds, \<open>timer_turn\<close> is one tick of the timer with its own two clock readings. These four, the
  specifications (\<open>fate_of\<close>, \<open>settled\<close>, \<open>accepted\<close>, \<open>delivery_step\<close>) and \<open>Call_Log\<close> stand for no code.

  \<^bold>\<open>Not modelled.\<close> The signal handling and output formatting of the example programs (a sleep is a
  number of rounds, a printed line the values in it), the end-to-end tests themselves, and the
  package comment of \<open>src/transport\<close>, which has no code. Data
  races on unsynchronised fields (registering handlers while \<open>Run\<close> is active, the lazy client
  of the SQS transport), panics inside handlers, and memory exhaustion are outside the model.
  In \<open>System\<close> the processing of one message is atomic up to where it blocks.
\<close>

section \<open>Properties that span components\<close>

text \<open>C22. A delay survives the broker: a message published to SQS with a positive delay, received back
  and given to the poller's consumer, waits in the timer wheel for exactly that delay from
  the reception on and does not enter the ring.\<close>

theorem delayed_publish_waits:
  assumes "q_client t = Some client" and "carriable msg" and "0 < m_NotBefore msg"
    and "sc_TopicAttribute (q_config t) \<noteq> notBefore_key" and "sqs_Publish A t msg = (err, callers, t')"
    and "open_world w"
  shows "\<exists>body attrs. q_calls t' = q_calls t @ [SendMessage (sc_QueueURL (q_config t)) body attrs] \<and>
    (\<forall>messageId handle. \<exists>m w'. fromSQSMessage fl t'
        \<lparr>sm_MessageId = Some messageId, sm_Body = Some body, sm_ReceiptHandle = Some handle, sm_MessageAttributes = attrs\<rparr> = Inr m \<and>
      m_Payload m = m_Payload msg \<and> m_Topic m = m_Topic msg \<and>
      consume r (\<lambda>_. now) [m] w = Inr (PollDone, w') \<and> x_ring w' = x_ring w \<and>
      wheel_items (x_wheel w') = add_mset m (wheel_items (x_wheel w)) \<and>
      \<lparr>s_target = time_Add now (m_NotBefore msg), s_item = m\<rparr>
        \<in> set (bucket (x_wheel w') (time_Unix (time_Add now (m_NotBefore msg)))))"
proof -
  let ?attrs = "Some (stamped (topicKey_or_default (sc_TopicAttribute (q_config t))) msg)"
  note sent = sqs_publish_carries(1)[OF assms(1,2,4,5)] and recv = sqs_publish_carries(2)[OF assms(1,2,4,5), of fl]
  have wheel: "wheel_inv (x_wheel w)" "\<not> w_closed (x_wheel w)" using assms(6) by (auto simp: open_world_def)
  have "\<exists>w'. consume r (\<lambda>_. now) [m] w = Inr (PollDone, w') \<and> x_ring w' = x_ring w \<and>
      wheel_items (x_wheel w') = add_mset m (wheel_items (x_wheel w)) \<and>
      \<lparr>s_target = time_Add now (m_NotBefore msg), s_item = m\<rparr>
        \<in> set (bucket (x_wheel w') (time_Unix (time_Add now (m_NotBefore msg))))"
    if m: "m_NotBefore m = m_NotBefore msg" for m
  proof -
    obtain wheel' where i: "wheel_Insert (x_wheel w) m (m_NotBefore msg) now = Inr wheel'"
      using Insert_ok[OF wheel(1)] by blast
    then obtain w' where "consume r (\<lambda>_. now) [m] w = Inr (PollDone, w')" "x_ring w' = x_ring w" "x_wheel w' = wheel'"
      using m assms(3) by (simp add: consume_def poll_one_def Let_def frame_simps)
    with Insert_items[OF wheel i] Insert_bucket(1)[OF wheel(2) i, of "time_Unix (time_Add now (m_NotBefore msg))"]
    show ?thesis by auto
  qed
  then have "\<exists>w'. consume r (\<lambda>_. now) [msg\<lparr>m_ID := i, m_ReceiptHandle := h, m_Attempts := 0, m_Attributes := ?attrs\<rparr>] w = Inr (PollDone, w') \<and>
      x_ring w' = x_ring w \<and> wheel_items (x_wheel w') =
        add_mset (msg\<lparr>m_ID := i, m_ReceiptHandle := h, m_Attempts := 0, m_Attributes := ?attrs\<rparr>) (wheel_items (x_wheel w)) \<and>
      \<lparr>s_target = time_Add now (m_NotBefore msg), s_item = msg\<lparr>m_ID := i, m_ReceiptHandle := h, m_Attempts := 0, m_Attributes := ?attrs\<rparr>\<rparr>
        \<in> set (bucket (x_wheel w') (time_Unix (time_Add now (m_NotBefore msg))))" for i h
    by simp
  then show ?thesis
    by (intro exI[of _ "m_Payload msg"] exI[of _ "toSQSAttributes ?attrs"] conjI allI sent) (use recv in fastforce)
qed

theorem delayed_publish_waits_witness:
  "\<exists>m w'. consume sqs_runtime (\<lambda>_. at_second 100) [m] sqs_world = Inr (PollDone, w') \<and> m_Topic m = ''t'' \<and>
     wheel_items (x_wheel w') = {#m#} \<and>
     \<lparr>s_target = time_Add (at_second 100) (90 * Second), s_item = m\<rparr> \<in> set (bucket (x_wheel w') 190)"
proof -
  let ?msg = "(sample_msg 3)\<lparr>m_NotBefore := 90 * Second\<rparr>"
  obtain err callers t' where p: "sqs_Publish sample_aws sample_sqs ?msg = (err, callers, t')" by (metis prod.exhaust)
  have "carriable ?msg" by (simp add: carriable_def Second_def)
  moreover have "open_world sqs_world"
    by (simp add: open_world_def sqs_world_def sample_ring_facts wheel_New_inv wheel_New_open)
  ultimately obtain m w' where "consume sqs_runtime (\<lambda>_. at_second 100) [m] sqs_world = Inr (PollDone, w')" "m_Topic m = ''t''"
    "wheel_items (x_wheel w') = add_mset m (wheel_items (x_wheel sqs_world))"
    "\<lparr>s_target = time_Add (at_second 100) (90 * Second), s_item = m\<rparr> \<in>
      set (bucket (x_wheel w') (time_Unix (time_Add (at_second 100) (90 * Second))))"
    using delayed_publish_waits[OF sample_sqs_facts(1) _ _ _ p, of sqs_world "\<lambda>_ _ _. 0" sqs_runtime "at_second 100"]
    by (fastforce simp: notBefore_key_def sample_msg_def Second_def)
  moreover have "time_Unix (time_Add (at_second 100) (90 * Second)) = 190" by (simp add: at_second_def go_simps)
  ultimately show ?thesis by (metis wheel_New_items sqs_world_def world.select_convs(4))
qed

end
